(* ===== verification/Movid_Prelude.thy ===== *)
theory Movid_Prelude
  imports Complex_Main "HOL-Library.Char_ord" "HOL-Library.List_Lexorder"
begin

text \<open>
  Shared vocabulary of the development.

  \<^item> The failures the sources can run into (a failed \<open>assert\<close>, an escaped
    \<open>std::out_of_range\<close>, an access the language leaves undefined, memory that is used up, a
    \<open>WOscException\<close> with its error code, an exit after a reported error; \<open>Diverges\<close> is a
    bounded search of the model that was given too small a bound) are values of
    \<open>failure\<close>; a computation that may fail has type \<open>failure + 'a\<close>.
  \<^item> \<open>std::map\<close> is an association list kept strictly sorted by key, which is what its
    iteration order observes: \<open>smap_set\<close> is \<open>m[k] = v\<close>, \<open>smap_erase\<close> is
    \<open>m.erase(k)\<close>, and \<open>map_of\<close> is \<open>m.find(k)\<close>.
    The locale \<open>ordered_map\<close> states what the clients of a map rely on and is
    interpreted on these functions.
  \<^item> Generic facts on lists that several components use.
\<close>

section \<open>Collections of simplification rules\<close>

named_theorems smap_simps \<open>lookup after update of the ordered maps\<close>
named_theorems wf_intros \<open>preservation of the well-formedness invariants\<close>
named_theorems result_simps \<open>computation with results that may fail\<close>

section \<open>Failures\<close>

datatype failure =
    AssertFailed
  | OutOfRange
  | BadCast
  | NullDeref
  | Undefined
  | BadAlloc
  | Diverges
  | OscException string
  | ErrorExit

type_synonym 'a result = "failure + 'a"

definition bindR :: "'a result \<Rightarrow> ('a \<Rightarrow> 'b result) \<Rightarrow> 'b result" where
  "bindR r f = (case r of Inl e \<Rightarrow> Inl e | Inr a \<Rightarrow> f a)"

definition mapR :: "('a \<Rightarrow> 'b) \<Rightarrow> 'a result \<Rightarrow> 'b result" where
  "mapR f r = (case r of Inl e \<Rightarrow> Inl e | Inr a \<Rightarrow> Inr (f a))"

definition okR :: "'a result \<Rightarrow> bool" where
  "okR r = (case r of Inl _ \<Rightarrow> False | Inr _ \<Rightarrow> True)"

lemma bindR_simps [simp]:
  "bindR (Inl e) f = Inl e" "bindR (Inr a) f = f a"
  by (simp_all add: bindR_def)

lemma mapR_simps [simp]:
  "mapR f (Inl e) = Inl e" "mapR f (Inr a) = Inr (f a)"
  by (simp_all add: mapR_def)

lemma okR_simps [simp]: "\<not> okR (Inl e)" "okR (Inr a)"
  by (simp_all add: okR_def)

lemma bindR_eq_Inr [result_simps]:
  "bindR r f = Inr b \<longleftrightarrow> (\<exists>a. r = Inr a \<and> f a = Inr b)"
  by (cases r) auto

lemma mapR_eq_Inr [result_simps]:
  "mapR f r = Inr b \<longleftrightarrow> (\<exists>a. r = Inr a \<and> b = f a)"
  by (cases r) auto

lemma okR_bindR [result_simps]:
  "okR (bindR r f) \<longleftrightarrow> (\<exists>a. r = Inr a \<and> okR (f a))"
  by (cases r) auto

lemma okR_iff: "okR r \<longleftrightarrow> (\<exists>a. r = Inr a)"
  by (cases r) auto

lemma bindR_assoc: "bindR (bindR r f) g = bindR r (\<lambda>a. bindR (f a) g)"
  by (cases r) auto

section \<open>The ordered map\<close>

type_synonym ('k, 'v) smap = "('k \<times> 'v) list"

fun smap_set :: "'k::linorder \<Rightarrow> 'v \<Rightarrow> ('k, 'v) smap \<Rightarrow> ('k, 'v) smap" where
  "smap_set k v [] = [(k, v)]"
| "smap_set k v ((k', v') # m) =
     (if k < k' then (k, v) # (k', v') # m
      else if k = k' then (k, v) # m
      else (k', v') # smap_set k v m)"

fun smap_erase :: "'k::linorder \<Rightarrow> ('k, 'v) smap \<Rightarrow> ('k, 'v) smap" where
  "smap_erase k [] = []"
| "smap_erase k ((k', v') # m) = (if k = k' then m else (k', v') # smap_erase k m)"

definition smap_wf :: "('k::linorder, 'v) smap \<Rightarrow> bool" where
  "smap_wf m \<longleftrightarrow> sorted_wrt (<) (map fst m)"

abbreviation smap_keys :: "('k, 'v) smap \<Rightarrow> 'k list" where
  "smap_keys m \<equiv> map fst m"

lemma smap_wf_Nil [simp, wf_intros]: "smap_wf []"
  by (simp add: smap_wf_def)

lemma smap_wf_Cons:
  "smap_wf (p # m) \<longleftrightarrow> (\<forall>k \<in> fst ` set m. fst p < k) \<and> smap_wf m"
  by (auto simp: smap_wf_def)

lemma map_of_smap_set: "map_of (smap_set k v m) = (map_of m)(k \<mapsto> v)"
  by (induction k v m rule: smap_set.induct) auto

lemma map_of_smap_set_apply [simp, smap_simps]:
  "map_of (smap_set k v m) x = (if x = k then Some v else map_of m x)"
  by (simp add: map_of_smap_set)

lemma keys_smap_set: "fst ` set (smap_set k v m) = insert k (fst ` set m)"
  by (induction k v m rule: smap_set.induct) auto

lemma smap_wf_set [simp, wf_intros]: "smap_wf m \<Longrightarrow> smap_wf (smap_set k v m)"
  by (induction k v m rule: smap_set.induct)
    (auto simp: smap_wf_Cons keys_smap_set dest: order_less_trans)

lemma smap_erase_absent: "k \<notin> fst ` set m \<Longrightarrow> smap_erase k m = m"
  by (induction k m rule: smap_erase.induct) auto

lemma keys_smap_erase_subset: "fst ` set (smap_erase k m) \<subseteq> fst ` set m"
  by (induction k m rule: smap_erase.induct) auto

lemma smap_wf_erase [simp, wf_intros]: "smap_wf m \<Longrightarrow> smap_wf (smap_erase k m)"
proof (induction k m rule: smap_erase.induct)
  case (2 k k' v' m)
  have "k' < x" if "x \<in> fst ` set (smap_erase k m)" for x
    using subsetD [OF keys_smap_erase_subset that] 2(2) by (force simp: smap_wf_Cons)
  then show ?case using 2 by (auto simp: smap_wf_Cons)
qed simp

lemma map_of_smap_erase [smap_simps]:
  "smap_wf m \<Longrightarrow> map_of (smap_erase k m) x = (if x = k then None else map_of m x)"
proof (induction k m rule: smap_erase.induct)
  case (2 k k' v' m)
  have "k' \<notin> fst ` set m" using 2(2) by (auto simp: smap_wf_Cons)
  then have "map_of m k' = None" by (simp add: map_of_eq_None_iff)
  then show ?case using 2 by (auto simp: smap_wf_Cons)
qed simp

lemma smap_wf_distinct: "smap_wf m \<Longrightarrow> distinct (map fst m)"
  unfolding smap_wf_def using strict_sorted_iff by blast

lemma smap_set_same:
  "smap_wf m \<Longrightarrow> map_of m k = Some v \<Longrightarrow> smap_set k v m = m"
proof (induction m)
  case (Cons p m)
  obtain k' v' where p: "p = (k', v')" by (cases p)
  show ?case
  proof (cases "k = k'")
    case False
    with Cons.prems p have "map_of m k = Some v" by simp
    moreover from this have "k \<in> fst ` set m"
      by (metis domI dom_map_of_conv_image_fst)
    ultimately show ?thesis using Cons p False by (auto simp: smap_wf_Cons)
  qed (use Cons p in auto)
qed simp

text \<open>Two strictly sorted maps with the same lookups are the same list.\<close>

lemma smap_eqI:
  assumes "smap_wf m" "smap_wf m'" "\<And>k. map_of m k = map_of m' k"
  shows "m = m'"
proof -
  have "map_of m = map_of m'" using assms(3) by (rule ext)
  then have "fst ` set m = fst ` set m'"
    by (simp flip: dom_map_of_conv_image_fst)
  then have keys: "set (map fst m) = set (map fst m')" by simp
  have "map fst m = map fst m'"
    using assms(1,2) keys strict_sorted_equal unfolding smap_wf_def by blast
  moreover have "map snd m = map snd m'"
  proof (rule nth_equalityI)
    show len: "length (map snd m) = length (map snd m')"
      using \<open>map fst m = map fst m'\<close> by (metis length_map)
    fix i assume i: "i < length (map snd m)"
    then have "map_of m (fst (m ! i)) = Some (snd (m ! i))"
      using smap_wf_distinct [OF assms(1)] by (simp add: map_of_eq_Some_iff)
    moreover have "map_of m' (fst (m' ! i)) = Some (snd (m' ! i))"
      using i len smap_wf_distinct [OF assms(2)] by (simp add: map_of_eq_Some_iff)
    moreover have "fst (m ! i) = fst (m' ! i)"
      using \<open>map fst m = map fst m'\<close> i len by (metis length_map nth_map)
    ultimately show "map snd m ! i = map snd m' ! i"
      using assms(3) i len by (metis length_map nth_map option.inject)
  qed
  ultimately show ?thesis by (metis zip_map_fst_snd)
qed

lemma map_of_rev_distinct: "distinct (map fst xs) \<Longrightarrow> map_of (rev xs) = map_of xs"
proof (rule ext)
  fix k assume d: "distinct (map fst xs)"
  then have dr: "distinct (map fst (rev xs))" by (metis distinct_rev rev_map)
  show "map_of (rev xs) k = map_of xs k"
  proof (cases "map_of xs k")
    case None
    then have "map_of (rev xs) k = None" by (simp add: map_of_eq_None_iff)
    with None show ?thesis by simp
  next
    case (Some v)
    then have "(k, v) \<in> set (rev xs)" by (auto dest: map_of_SomeD)
    then show ?thesis using Some map_of_is_SomeI [OF dr] by simp
  qed
qed

section \<open>The interface of an ordered map\<close>

locale ordered_map =
  fixes find :: "'m \<Rightarrow> 'k \<Rightarrow> 'v option"
    and upd :: "'k \<Rightarrow> 'v \<Rightarrow> 'm \<Rightarrow> 'm"
    and del :: "'k \<Rightarrow> 'm \<Rightarrow> 'm"
    and empty :: 'm
    and inv :: "'m \<Rightarrow> bool"
  assumes find_empty: "find empty k = None"
    and inv_empty: "inv empty"
    and find_upd: "inv m \<Longrightarrow> find (upd k v m) x = (if x = k then Some v else find m x)"
    and inv_upd: "inv m \<Longrightarrow> inv (upd k v m)"
    and find_del: "inv m \<Longrightarrow> find (del k m) x = (if x = k then None else find m x)"
    and inv_del: "inv m \<Longrightarrow> inv (del k m)"
    and find_ext: "inv m \<Longrightarrow> inv m' \<Longrightarrow> (\<And>k. find m k = find m' k) \<Longrightarrow> m = m'"
begin

lemma upd_upd_same: "inv m \<Longrightarrow> upd k v (upd k w m) = upd k v m"
  by (rule find_ext) (auto simp: find_upd inv_upd)

lemma upd_commute: "inv m \<Longrightarrow> k \<noteq> l \<Longrightarrow> upd k v (upd l w m) = upd l w (upd k v m)"
  by (rule find_ext) (auto simp: find_upd inv_upd)

lemma del_upd: "inv m \<Longrightarrow> find m k = None \<Longrightarrow> del k (upd k v m) = m"
  by (rule find_ext) (auto simp: find_upd find_del inv_upd inv_del)

text \<open>Filling a map from a list of bindings: the last binding of a key is found.\<close>

lemma inv_fold_upd: "inv m \<Longrightarrow> inv (fold (\<lambda>(k, v). upd k v) bs m)"
  by (induction bs arbitrary: m) (auto simp: inv_upd)

lemma find_fold_upd:
  "inv m \<Longrightarrow> find (fold (\<lambda>(k, v). upd k v) bs m) x =
     (case map_of (rev bs) x of None \<Rightarrow> find m x | Some v \<Rightarrow> Some v)"
proof (induction bs arbitrary: m)
  case (Cons b bs)
  obtain k v where b: "b = (k, v)" by (cases b)
  show ?case
    using Cons b by (auto simp: find_upd inv_upd map_add_def split: option.splits)
qed simp

end

interpretation sm: ordered_map map_of smap_set smap_erase "[]" smap_wf
  by unfold_locales (auto simp: map_of_smap_erase intro: smap_eqI)

section \<open>Lists\<close>

text \<open>\<open>std::vector::erase\<close> of the first element equal to the given one.\<close>

fun erase_first :: "'a \<Rightarrow> 'a list \<Rightarrow> 'a list" where
  "erase_first x [] = []"
| "erase_first x (y # ys) = (if y = x then ys else y # erase_first x ys)"

lemma erase_first_remove1: "erase_first x ys = remove1 x ys"
  by (induction ys) auto

lemma count_list_erase_first:
  "count_list (erase_first x ys) z =
     (if z = x then count_list ys z - 1 else count_list ys z)"
  by (induction ys) auto

lemma set_erase_first_subset: "set (erase_first x ys) \<subseteq> set ys"
  by (induction ys) auto

lemma count_list_append_one [simp]:
  "count_list (xs @ [y]) z = count_list xs z + (if y = z then 1 else 0)"
  by (induction xs) auto

lemma count_list_distinct: "distinct xs \<Longrightarrow> x \<in> set xs \<Longrightarrow> count_list xs x = 1"
  by (induction xs) auto

lemma count_list_pos_iff: "0 < count_list xs x \<longleftrightarrow> x \<in> set xs"
  by (metis count_list_0_iff gr_zeroI less_irrefl)

end
