(* ===== verification/Movid_Strings.thy ===== *)
theory Movid_Strings
  imports Movid_Prelude
begin

text \<open>
  The parts of the C and C++ string library the sources call: searching and slicing of
  \<open>std::string\<close> (\<open>npos\<close> is \<open>None\<close>), \<open>isspace\<close>, decimal printing (\<open>%d\<close>,
  \<open>operator<<\<close> on integers), \<open>atoi\<close>, line splitting as \<open>getline\<close> does it and
  word splitting as \<open>istream_iterator<std::string>\<close> does it.
\<close>

section \<open>Searching and slicing\<close>

fun find_from :: "(char \<Rightarrow> bool) \<Rightarrow> nat \<Rightarrow> string \<Rightarrow> nat option" where
  "find_from P i [] = None"
| "find_from P i (c # cs) = (if P c then Some i else find_from P (Suc i) cs)"

text \<open>\<open>s.find_first_of(ds, pos)\<close> and \<open>s.find_first_not_of(ds, pos)\<close>; a start at
  \<open>npos\<close> finds nothing.\<close>

definition find_first_of :: "string \<Rightarrow> string \<Rightarrow> nat option \<Rightarrow> nat option" where
  "find_first_of s ds pos =
     (case pos of None \<Rightarrow> None | Some p \<Rightarrow> find_from (\<lambda>c. c \<in> set ds) p (drop p s))"

definition find_first_not_of :: "string \<Rightarrow> string \<Rightarrow> nat option \<Rightarrow> nat option" where
  "find_first_not_of s ds pos =
     (case pos of None \<Rightarrow> None | Some p \<Rightarrow> find_from (\<lambda>c. c \<notin> set ds) p (drop p s))"

text \<open>\<open>s.substr(pos, n)\<close> throws when \<open>pos\<close> is past the end; \<open>n = npos\<close> is the rest.\<close>

definition substr :: "string \<Rightarrow> nat \<Rightarrow> nat option \<Rightarrow> string result" where
  "substr s p n =
     (if p > length s then Inl OutOfRange
      else Inr (case n of None \<Rightarrow> drop p s | Some k \<Rightarrow> take k (drop p s)))"

definition c_str :: "string \<Rightarrow> string" where
  "c_str s = takeWhile (\<lambda>c. c \<noteq> CHR 0x00) s"

lemma find_from_SomeD:
  "find_from P i s = Some j \<Longrightarrow>
     i \<le> j \<and> j < i + length s \<and> P (s ! (j - i)) \<and> (\<forall>k < j - i. \<not> P (s ! k))"
proof (induction P i s rule: find_from.induct)
  case (2 P i c cs)
  show ?case
  proof (cases "P c")
    case False
    with 2 have IH: "Suc i \<le> j \<and> j < Suc i + length cs \<and> P (cs ! (j - Suc i)) \<and>
      (\<forall>k < j - Suc i. \<not> P (cs ! k))" by simp
    then have "j - i = Suc (j - Suc i)" by linarith
    with IH False show ?thesis by (auto simp: less_Suc_eq_0_disj)
  qed (use 2 in simp)
qed simp

lemma find_from_None: "find_from P i s = None \<longleftrightarrow> (\<forall>c \<in> set s. \<not> P c)"
  by (induction P i s rule: find_from.induct) auto

lemma find_from_takeWhile:
  "find_from P i s =
     (let n = length (takeWhile (\<lambda>c. \<not> P c) s) in if n < length s then Some (i + n) else None)"
  by (induction P i s rule: find_from.induct) (auto simp: Let_def)

lemma find_from_append:
  "\<forall>c \<in> set w. \<not> P c \<Longrightarrow> find_from P i (w @ s) = find_from P (i + length w) s"
  by (induction w arbitrary: i) auto

lemma substr_simps [simp]:
  "substr s 0 None = Inr s"
  "substr s 0 (Some n) = Inr (take n s)"
  by (simp_all add: substr_def)

lemma substr_drop: "p \<le> length s \<Longrightarrow> substr s p None = Inr (drop p s)"
  by (simp add: substr_def)

section \<open>Characters\<close>

definition isspace :: "char \<Rightarrow> bool" where
  "isspace c \<longleftrightarrow> c \<in> {CHR '' '', CHR 0x09, CHR 0x0A, CHR 0x0B, CHR 0x0C, CHR 0x0D}"

definition isdigit :: "char \<Rightarrow> bool" where
  "isdigit c \<longleftrightarrow> 48 \<le> (of_char c :: nat) \<and> (of_char c :: nat) \<le> 57"

definition digit_val :: "char \<Rightarrow> nat" where
  "digit_val c = of_char c - 48"

definition digit_char :: "nat \<Rightarrow> char" where
  "digit_char d = char_of (48 + d)"

definition tolower :: "char \<Rightarrow> char" where
  "tolower c = (let n = (of_char c :: nat) in if 65 \<le> n \<and> n \<le> 90 then char_of (n + 32) else c)"

definition hex_val :: "char \<Rightarrow> nat option" where
  "hex_val c =
     (let n = (of_char c :: nat) in
      if 48 \<le> n \<and> n \<le> 57 then Some (n - 48)
      else if 65 \<le> n \<and> n \<le> 70 then Some (n - 55)
      else if 97 \<le> n \<and> n \<le> 102 then Some (n - 87)
      else None)"

abbreviation isxdigit :: "char \<Rightarrow> bool" where
  "isxdigit c \<equiv> hex_val c \<noteq> None"

definition hex_digits :: "string \<Rightarrow> nat" where
  "hex_digits s = foldl (\<lambda>a c. 16 * a + the (hex_val c)) 0 s"

text \<open>The first character of a text.\<close>

definition starts :: "char \<Rightarrow> string \<Rightarrow> bool" where
  "starts c s = (case s of [] \<Rightarrow> False | d # _ \<Rightarrow> c = d)"

lemma starts_simps [simp]: "starts c [] = False" "starts c (d # s) = (c = d)"
  by (simp_all add: starts_def)

lemma of_char_digit_char: "d < 10 \<Longrightarrow> of_char (digit_char d) = (48 + d :: nat)"
  by (simp add: digit_char_def)

lemma digit_char_simps [simp]:
  "d < 10 \<Longrightarrow> isdigit (digit_char d)"
  "d < 10 \<Longrightarrow> digit_val (digit_char d) = d"
  by (simp_all add: isdigit_def digit_val_def of_char_digit_char)

lemma isdigit_not_space: "isdigit c \<Longrightarrow> \<not> isspace c"
  by (auto simp: isdigit_def isspace_def)

lemma isdigit_not_sign: "isdigit c \<Longrightarrow> c \<noteq> CHR ''-'' \<and> c \<noteq> CHR ''+''"
  by (auto simp: isdigit_def)

section \<open>Decimal printing and atoi\<close>

fun show_nat :: "nat \<Rightarrow> string" where
  "show_nat n = (if n < 10 then [digit_char n] else show_nat (n div 10) @ [digit_char (n mod 10)])"

declare show_nat.simps [simp del]

definition show_int :: "int \<Rightarrow> string" where
  "show_int i = (if i < 0 then CHR ''-'' # show_nat (nat (- i)) else show_nat (nat i))"

definition digits_val :: "string \<Rightarrow> nat" where
  "digits_val = foldl (\<lambda>acc c. 10 * acc + digit_val c) 0"

text \<open>\<open>int\<close> is 32 bits and \<open>long\<close> 64 bits, two's complement.\<close>

definition INT_MAX :: int where "INT_MAX = 2147483647"
definition INT_MIN :: int where "INT_MIN = -2147483648"
definition LONG_MAX :: int where "LONG_MAX = 9223372036854775807"
definition LONG_MIN :: int where "LONG_MIN = -9223372036854775808"

definition wrap32 :: "int \<Rightarrow> int" where
  "wrap32 i = (i + 2147483648) mod 4294967296 - 2147483648"

abbreviation int32 :: "int \<Rightarrow> bool" where
  "int32 i \<equiv> INT_MIN \<le> i \<and> i \<le> INT_MAX"

definition strtol10 :: "string \<Rightarrow> int" where
  "strtol10 s =
     (let s1 = dropWhile isspace s;
          neg = (case s1 of c # _ \<Rightarrow> c = CHR ''-'' | [] \<Rightarrow> False);
          s2 = (case s1 of c # r \<Rightarrow> if c = CHR ''-'' \<or> c = CHR ''+'' then r else s1 | [] \<Rightarrow> []);
          v = int (digits_val (takeWhile isdigit s2))
      in max LONG_MIN (min LONG_MAX (if neg then - v else v)))"

text \<open>\<open>atoi(s)\<close> is \<open>(int) strtol(s, NULL, 10)\<close>.\<close>

definition atoi :: "string \<Rightarrow> int" where
  "atoi s = wrap32 (strtol10 s)"

lemma wrap32_id [simp]: "int32 i \<Longrightarrow> wrap32 i = i"
  by (simp add: wrap32_def INT_MIN_def INT_MAX_def)

lemma wrap32_range: "int32 (wrap32 i)"
proof -
  have "0 \<le> (i + 2147483648) mod 4294967296 \<and> (i + 2147483648) mod 4294967296 < 4294967296"
    by simp
  then show ?thesis unfolding wrap32_def INT_MIN_def INT_MAX_def by linarith
qed

lemma show_nat_nonempty [simp]: "show_nat n \<noteq> []"
  by (subst show_nat.simps) simp

lemma show_nat_digits: "c \<in> set (show_nat n) \<Longrightarrow> isdigit c"
proof (induction n rule: show_nat.induct)
  case (1 n)
  then show ?case by (subst (asm) show_nat.simps) (auto split: if_splits)
qed

lemma digits_val_append_one: "digits_val (s @ [c]) = 10 * digits_val s + digit_val c"
  by (simp add: digits_val_def)

lemma digits_val_show_nat [simp]: "digits_val (show_nat n) = n"
proof (induction n rule: show_nat.induct)
  case (1 n)
  then show ?case
    by (subst show_nat.simps) (auto simp: digits_val_append_one, simp add: digits_val_def)
qed

lemma takeWhile_digits_show_nat [simp]:
  "takeWhile isdigit (show_nat n @ s) = show_nat n @ takeWhile isdigit s"
  by (simp add: takeWhile_append2 show_nat_digits)

lemma takeWhile_digits_show_nat' [simp]: "takeWhile isdigit (show_nat n) = show_nat n"
  using takeWhile_digits_show_nat [of n "[]"] by simp

lemma show_nat_Cons: "\<exists>c cs. show_nat n = c # cs \<and> isdigit c"
  by (metis show_nat_digits show_nat_nonempty list.set_intros(1) neq_Nil_conv)

lemma strtol10_show_int:
  assumes "LONG_MIN \<le> i" "i \<le> LONG_MAX"
  shows "strtol10 (show_int i) = i"
proof (cases "i < 0")
  case True
  then have "show_int i = CHR ''-'' # show_nat (nat (- i))" by (simp add: show_int_def)
  with True assms show ?thesis by (simp add: strtol10_def isspace_def)
next
  case False
  obtain c cs where c: "show_nat (nat i) = c # cs" "isdigit c"
    using show_nat_Cons by blast
  have si: "show_int i = c # cs" using False c by (simp add: show_int_def)
  have "takeWhile isdigit (c # cs) = c # cs"
    using takeWhile_digits_show_nat' [of "nat i"] c by simp
  moreover have "digits_val (c # cs) = nat i"
    using digits_val_show_nat [of "nat i"] c by simp
  ultimately have tw: "int (digits_val (takeWhile isdigit (c # cs))) = i"
    using False by (simp only:)
  show ?thesis using assms tw isdigit_not_space [OF c(2)] isdigit_not_sign [OF c(2)]
    unfolding si by (simp add: strtol10_def Let_def del: takeWhile.simps)
qed

lemma atoi_show_int: "int32 i \<Longrightarrow> atoi (show_int i) = i"
  by (simp add: atoi_def strtol10_show_int INT_MIN_def INT_MAX_def LONG_MIN_def LONG_MAX_def)

lemma show_int_no_space: "c \<in> set (show_int i) \<Longrightarrow> \<not> isspace c"
  by (auto simp: show_int_def isspace_def split: if_splits
      dest!: show_nat_digits simp: isdigit_def)

lemma show_int_nonempty [simp]: "show_int i \<noteq> []"
  by (simp add: show_int_def)

lemma show_int_inject: "show_int i = show_int j \<longleftrightarrow> i = j"
proof
  assume eq: "show_int i = show_int j"
  have nosign: "hd (show_nat n) \<noteq> CHR ''-''" for n
    using show_nat_Cons [of n] isdigit_not_sign by force
  have nat_inj: "show_nat a = show_nat b \<Longrightarrow> a = b" for a b
    by (metis digits_val_show_nat)
  show "i = j"
  proof (cases "i < 0"; cases "j < 0")
    assume "\<not> i < 0" "\<not> j < 0"
    with eq show ?thesis by (auto simp: show_int_def dest: nat_inj)
  next
    assume "i < 0" "j < 0"
    with eq show ?thesis by (auto simp: show_int_def dest: nat_inj)
  next
    assume "i < 0" "\<not> j < 0"
    with eq have "show_nat (nat j) = CHR ''-'' # show_nat (nat (- i))"
      by (simp add: show_int_def)
    with nosign [of "nat j"] show ?thesis by simp
  next
    assume "\<not> i < 0" "j < 0"
    with eq have "show_nat (nat i) = CHR ''-'' # show_nat (nat (- j))"
      by (simp add: show_int_def)
    with nosign [of "nat i"] show ?thesis by simp
  qed
qed simp

lemma length_show_nat: "n < 10 ^ Suc k \<Longrightarrow> length (show_nat n) \<le> Suc k"
proof (induction k arbitrary: n)
  case (Suc k)
  then have "n div 10 < 10 ^ Suc k" by auto
  with Suc.IH show ?case by (subst show_nat.simps) auto
qed (subst show_nat.simps, simp)

lemma length_show_int: "int32 i \<Longrightarrow> length (show_int i) \<le> 11"
proof -
  assume i: "int32 i"
  then have "length (show_nat (nat \<bar>i\<bar>)) \<le> Suc 9"
    by (intro length_show_nat) (auto simp: INT_MIN_def INT_MAX_def)
  then show ?thesis by (auto simp: show_int_def)
qed

lemma c_str_id: "CHR 0x00 \<notin> set s \<Longrightarrow> c_str s = s"
  by (auto simp: c_str_def takeWhile_eq_all_conv)

section \<open>Lines and words\<close>

text \<open>Splitting at a separator, with a part for every separator: \<open>getline\<close> in a
  \<open>while (!f.eof())\<close> loop sees the parts between line feeds, the part after the last one
  included.\<close>

fun split_on :: "char \<Rightarrow> string \<Rightarrow> string list" where
  "split_on d [] = [[]]"
| "split_on d (c # cs) =
     (if c = d then [] # split_on d cs
      else (case split_on d cs of [] \<Rightarrow> [[c]] | w # ws \<Rightarrow> (c # w) # ws))"

definition file_lines :: "string \<Rightarrow> string list" where
  "file_lines = split_on (CHR 0x0A)"

fun join_with :: "char \<Rightarrow> string list \<Rightarrow> string" where
  "join_with d [] = []"
| "join_with d [w] = w"
| "join_with d (w # ws) = w @ d # join_with d ws"

text \<open>The maximal runs of characters that are not separators; the words of a line are the
  runs between white space.\<close>

function runs :: "(char \<Rightarrow> bool) \<Rightarrow> string \<Rightarrow> string list" where
  "runs P s =
     (let s1 = dropWhile P s in
      if s1 = [] then []
      else takeWhile (\<lambda>c. \<not> P c) s1 # runs P (dropWhile (\<lambda>c. \<not> P c) s1))"
  by pat_completeness auto
termination
proof (relation "measure (\<lambda>(P, s). length s)", goal_cases)
  case (2 P s x)
  obtain c cs where "dropWhile P s = c # cs" "\<not> P c"
    using 2 by (metis dropWhile_eq_Cons_conv list.exhaust)
  then have "length (dropWhile (\<lambda>c. \<not> P c) (dropWhile P s)) \<le> length cs"
    by (simp add: length_dropWhile_le)
  also have "\<dots> < length s"
    using \<open>dropWhile P s = c # cs\<close> length_dropWhile_le [of P s] by simp
  finally show ?case using 2 by simp
qed simp

declare runs.simps [simp del]

abbreviation words :: "string \<Rightarrow> string list" where
  "words \<equiv> runs isspace"

lemma split_on_nonempty [simp]: "split_on d s \<noteq> []"
  by (induction d s rule: split_on.induct) (auto split: list.splits)

lemma join_split_on [simp]: "join_with d (split_on d s) = s"
proof (induction d s rule: split_on.induct)
  case (2 d c cs)
  obtain w ws where w: "split_on d cs = w # ws"
    by (cases "split_on d cs") auto
  show ?case
  proof (cases "c = d")
    case True
    with 2 w show ?thesis by simp
  next
    case False
    with 2 w show ?thesis by (cases ws) auto
  qed
qed simp

lemma split_on_no_sep: "w \<in> set (split_on d s) \<Longrightarrow> d \<notin> set w"
  by (induction d s arbitrary: w rule: split_on.induct)
    (fastforce split: if_splits list.splits)+

lemma split_on_plain: "d \<notin> set w \<Longrightarrow> split_on d w = [w]"
  by (induction w) auto

lemma split_on_append: "d \<notin> set w \<Longrightarrow> split_on d (w @ d # s) = w # split_on d s"
  by (induction w) auto

lemma split_on_join:
  "ws \<noteq> [] \<Longrightarrow> \<forall>w \<in> set ws. d \<notin> set w \<Longrightarrow> split_on d (join_with d ws) = ws"
  by (induction d ws rule: join_with.induct) (auto simp: split_on_plain split_on_append)

lemma runs_Nil [simp]: "runs P [] = []"
  by (simp add: runs.simps)

lemma runs_skip: "P c \<Longrightarrow> runs P (c # s) = runs P s"
  by (subst (1 2) runs.simps) simp

lemma runs_word:
  assumes "w \<noteq> []" "\<forall>c \<in> set w. \<not> P c" "P d"
  shows "runs P (w @ d # s) = w # runs P s"
proof -
  obtain c cs where w: "w = c # cs" using assms(1) by (cases w) auto
  have "dropWhile P (w @ d # s) = w @ d # s" using assms(2) w by simp
  moreover have "takeWhile (\<lambda>c. \<not> P c) (w @ d # s) = w"
    using assms(2,3) by (simp add: takeWhile_append2)
  moreover have "dropWhile (\<lambda>c. \<not> P c) (w @ d # s) = d # s"
    using assms(2,3) by (simp add: dropWhile_append2)
  ultimately show ?thesis
    using w by (subst runs.simps) (simp add: runs_skip [of P, OF assms(3)])
qed

lemma runs_last:
  assumes "w \<noteq> []" "\<forall>c \<in> set w. \<not> P c"
  shows "runs P w = [w]"
proof -
  obtain c cs where w: "w = c # cs" using assms(1) by (cases w) auto
  have "takeWhile (\<lambda>c. \<not> P c) w = w" "dropWhile (\<lambda>c. \<not> P c) w = []"
    "dropWhile P w = w"
    using assms(2) w by (auto simp: takeWhile_eq_all_conv dropWhile_eq_Nil_conv)
  with w show ?thesis by (subst runs.simps) simp
qed

lemma runs_parts: "w \<in> set (runs P s) \<Longrightarrow> w \<noteq> [] \<and> (\<forall>c \<in> set w. \<not> P c)"
proof (induction P s rule: runs.induct)
  case (1 P s)
  let ?s1 = "dropWhile P s"
  show ?case
  proof (cases "?s1 = []")
    case True
    with 1 show ?thesis by (subst (asm) (2) runs.simps) simp
  next
    case False
    then obtain c cs where c: "?s1 = c # cs" "\<not> P c"
      by (metis dropWhile_eq_Cons_conv list.exhaust)
    have "w = takeWhile (\<lambda>c. \<not> P c) ?s1 \<or>
      w \<in> set (runs P (dropWhile (\<lambda>c. \<not> P c) ?s1))"
      using 1(2) False by (subst (asm) runs.simps) (simp add: Let_def del: dropWhile_eq_Nil_conv)
    then show ?thesis
    proof
      assume "w = takeWhile (\<lambda>c. \<not> P c) ?s1"
      with c show ?thesis by (auto dest: set_takeWhileD)
    next
      assume "w \<in> set (runs P (dropWhile (\<lambda>c. \<not> P c) ?s1))"
      then show ?thesis by (rule 1(1) [OF refl False])
    qed
  qed
qed

text \<open>The runs between occurrences of one separator are the non-empty parts.\<close>

lemma runs_split_on: "runs (\<lambda>c. c = d) s = filter (\<lambda>w. w \<noteq> []) (split_on d s)"
proof (induction "length s" arbitrary: s rule: less_induct)
  case less
  show ?case
  proof (cases "d \<in> set s")
    case False
    then have "\<forall>c \<in> set s. \<not> c = d" by auto
    then have "s \<noteq> [] \<Longrightarrow> runs (\<lambda>c. c = d) s = [s]" by (intro runs_last)
    with False show ?thesis by (cases "s = []") (auto simp: split_on_plain)
  next
    case True
    then obtain w r where s: "s = w @ d # r" and nd: "d \<notin> set w"
      by (meson split_list_first)
    have IH: "runs (\<lambda>c. c = d) r = filter (\<lambda>w. w \<noteq> []) (split_on d r)"
      using s by (intro less) simp
    have w: "\<forall>c \<in> set w. \<not> c = d" using nd by auto
    have "runs (\<lambda>c. c = d) (w @ d # r) = (if w = [] then [] else [w]) @ runs (\<lambda>c. c = d) r"
      using runs_word [of w "\<lambda>c. c = d" d r, OF _ w] by (auto simp: runs_skip)
    then show ?thesis by (simp add: s split_on_append [OF nd] IH)
  qed
qed

text \<open>Unfolding one run: separators, a non-empty word, and a rest that starts with a
  separator if it is not empty.\<close>

lemma runs_cases:
  obtains (none) "\<forall>c \<in> set s. P c" "runs P s = []"
  | (one) a w r where "s = a @ w @ r" "\<forall>c \<in> set a. P c" "w \<noteq> []" "\<forall>c \<in> set w. \<not> P c"
      "r \<noteq> [] \<Longrightarrow> P (hd r)" "runs P s = w # runs P r"
proof (cases "\<forall>c \<in> set s. P c")
  case True
  then have "runs P s = []" by (subst runs.simps) (simp add: dropWhile_eq_Nil_conv)
  with True show ?thesis by (rule none)
next
  case False
  define a where "a = takeWhile P s"
  define t where "t = dropWhile P s"
  define w where "w = takeWhile (\<lambda>c. \<not> P c) t"
  define r where "r = dropWhile (\<lambda>c. \<not> P c) t"
  have t: "t \<noteq> []" using False by (auto simp: t_def dropWhile_eq_Nil_conv)
  then have "\<not> P (hd t)" unfolding t_def by (rule hd_dropWhile)
  with t have t: "t \<noteq> []" "\<not> P (hd t)" by auto
  show ?thesis
  proof (rule one)
    show "s = a @ w @ r" by (simp add: a_def w_def r_def t_def)
    show "\<forall>c \<in> set a. P c" by (auto simp: a_def dest: set_takeWhileD)
    show "w \<noteq> []" using t by (cases t) (auto simp: w_def)
    show "\<forall>c \<in> set w. \<not> P c" by (auto simp: w_def dest: set_takeWhileD)
    show "P (hd r)" if "r \<noteq> []" using that hd_dropWhile [of "\<lambda>c. \<not> P c" t] by (simp add: r_def)
    show "runs P s = w # runs P r"
      using t by (subst runs.simps) (simp add: Let_def t_def [symmetric] w_def r_def)
  qed
qed

end
