(* ===== verification/Movid_Utils.thy ===== *)
theory Movid_Utils
  imports Movid_Strings
begin

text \<open>
  \<open>src/moUtils.cpp\<close>: \<open>tokenize\<close>, which splits a string for the property and GUI
  parsers, and \<open>inList\<close>, which decides whether a stream format is among the types an
  input accepts. Both loops are written as in the source; the theorems equate them with
  splitting at the delimiter.
\<close>

section \<open>tokenize\<close>

function tokenize_loop :: "string \<Rightarrow> string \<Rightarrow> string list \<Rightarrow> string list result" where
  "tokenize_loop delimiters client result =
     (if client = [] then Inr (result @ [[]])
      else (case find_first_of client delimiters (Some 0) of
              None \<Rightarrow> bindR (substr client 0 None) (\<lambda>element. Inr (result @ [element]))
            | Some dPos \<Rightarrow>
                if dPos = 0
                then (case substr client (length delimiters) None of
                        Inl e \<Rightarrow> Inl e
                      | Inr client' \<Rightarrow> tokenize_loop delimiters client' (result @ [[]]))
                else bindR (substr client 0 (Some dPos)) (\<lambda>element.
                       (case substr client (dPos + length delimiters) None of
                          Inl e \<Rightarrow> Inl e
                        | Inr client' \<Rightarrow> tokenize_loop delimiters client' (result @ [element])))))"
  by pat_completeness auto
termination
proof (relation "measure (\<lambda>(d, c, r). length c)", goal_cases)
  case (2 d c r dPos c')
  then have "d \<noteq> []" "c \<noteq> []"
    by (auto simp: find_first_of_def dest: find_from_SomeD)
  then show ?case using 2 by (auto simp: substr_def split: if_splits)
next
  case (3 d c r dPos el c')
  then show ?case by (auto simp: substr_def split: if_splits)
qed simp

declare tokenize_loop.simps [simp del]

definition tokenize :: "string \<Rightarrow> string \<Rightarrow> string list result" where
  "tokenize str delimiters = tokenize_loop delimiters str []"

section \<open>inList\<close>

function inList_loop ::
    "string \<Rightarrow> string \<Rightarrow> string \<Rightarrow> nat option \<Rightarrow> nat option \<Rightarrow> bool result" where
  "inList_loop pattern str delimiters lastPos pos =
     (if pos \<noteq> None \<or> lastPos \<noteq> None
      then (case lastPos of
              None \<Rightarrow> Inl OutOfRange
            | Some l \<Rightarrow>
                (case substr str l (map_option (\<lambda>p. p - l) pos) of
                   Inl e \<Rightarrow> Inl e
                 | Inr w \<Rightarrow>
                     if w = pattern then Inr True
                     else (let lastPos' = find_first_not_of str delimiters pos;
                               pos' = find_first_of str delimiters lastPos'
                           in inList_loop pattern str delimiters lastPos' pos')))
      else Inr False)"
  by pat_completeness auto

lemma find_first_of_SomeD:
  "find_first_of s ds (Some p) = Some q \<Longrightarrow> p \<le> q \<and> q < length s \<and> s ! q \<in> set ds"
  by (cases "p \<le> length s") (auto simp: find_first_of_def dest!: find_from_SomeD)

lemma find_first_not_of_SomeD:
  "find_first_not_of s ds (Some p) = Some q \<Longrightarrow> p \<le> q \<and> q < length s \<and> s ! q \<notin> set ds"
  by (cases "p \<le> length s") (auto simp: find_first_not_of_def dest!: find_from_SomeD)

lemma find_first_None [simp]:
  "find_first_of s ds None = None" "find_first_not_of s ds None = None"
  by (simp_all add: find_first_of_def find_first_not_of_def)

lemma next_pos_greater:
  assumes "find_first_not_of s ds (Some p) = Some l"
    and "find_first_of s ds (Some l) = Some q"
  shows "p < q \<and> q < length s"
proof -
  have "p \<le> l" "s ! l \<notin> set ds" using find_first_not_of_SomeD [OF assms(1)] by auto
  moreover have "l \<le> q" "q < length s" "s ! q \<in> set ds"
    using find_first_of_SomeD [OF assms(2)] by auto
  ultimately show ?thesis by (cases "l = q") auto
qed

termination inList_loop
proof (relation "measure (\<lambda>(pt, s, d, l, p).
    (case p of None \<Rightarrow> 0 | Some q \<Rightarrow> 2 + (length s - q)) + (if l = None then 0 else 1))", goal_cases)
  case (2 pt s d lastPos pos l w lp pp)
  show ?case
  proof (cases pos)
    case None
    with 2 show ?thesis by simp
  next
    case (Some p)
    show ?thesis
    proof (cases pp)
      case None
      with 2 Some show ?thesis by (auto split: if_splits)
    next
      case (Some q)
      with 2 have q: "find_first_of s d lp = Some q" by simp
      then obtain l' where l': "lp = Some l'" by (cases lp) auto
      have "find_first_not_of s d (Some p) = Some l'" using 2 \<open>pos = Some p\<close> l' by simp
      moreover have "find_first_of s d (Some l') = Some q" using q l' by simp
      ultimately have "p < q \<and> q < length s" by (rule next_pos_greater)
      then show ?thesis using 2(2) \<open>pos = Some p\<close> Some by auto
    qed
  qed
qed simp

declare inList_loop.simps [simp del]

definition inList :: "string \<Rightarrow> string \<Rightarrow> string \<Rightarrow> bool result" where
  "inList pattern str delimiters =
     (let lastPos = find_first_not_of str delimiters (Some 0);
          pos = find_first_of str delimiters lastPos
      in inList_loop pattern str delimiters lastPos pos)"

section \<open>What they compute\<close>

lemma tokenize_loop_split_on: "tokenize_loop [d] client result = Inr (result @ split_on d client)"
proof (induction "length client" arbitrary: client result rule: less_induct)
  case less
  show ?case
  proof (cases "d \<in> set client")
    case False
    then have "find_first_of client [d] (Some 0) = None"
      by (auto simp: find_first_of_def find_from_None)
    with False show ?thesis
      by (subst tokenize_loop.simps) (auto simp: split_on_plain)
  next
    case True
    then obtain w r where c: "client = w @ d # r" "d \<notin> set w"
      by (meson split_list_first)
    have "find_from (\<lambda>c. c \<in> set [d]) 0 (w @ d # r) = find_from (\<lambda>c. c \<in> set [d]) (length w) (d # r)"
      using c by (subst find_from_append) auto
    then have find: "find_first_of client [d] (Some 0) = Some (length w)"
      using c by (simp add: find_first_of_def)
    have rest: "substr client (length w + 1) None = Inr r"
      using c by (simp add: substr_drop)
    have IH: "tokenize_loop [d] r res = Inr (res @ split_on d r)" for res
      using less c by simp
    show ?thesis using c find rest
      by (subst tokenize_loop.simps) (cases w, auto simp: split_on_append IH)
  qed
qed

lemma tokenize_split_on: "tokenize s [d] = Inr (split_on d s)"
  by (simp add: tokenize_def tokenize_loop_split_on)

lemma inList_loop_runs:
  assumes "p \<le> length s"
    and "lastPos = find_first_not_of s ds (Some p)"
    and "pos = find_first_of s ds lastPos"
  shows "inList_loop pat s ds lastPos pos = Inr (pat \<in> set (runs (\<lambda>c. c \<in> set ds) (drop p s)))"
  using assms
proof (induction "length s - p" arbitrary: p lastPos pos rule: less_induct)
  case less
  let ?P = "\<lambda>c. c \<in> set ds"
  show ?case
  proof (cases rule: runs_cases [of "drop p s" ?P])
    case none
    then have "lastPos = None"
      using less by (simp add: find_first_not_of_def find_from_None)
    then show ?thesis using less none by (subst inList_loop.simps) simp
  next
    case (one a w r)
    obtain c w' where w: "w = c # w'" using one(3) by (cases w) auto
    have lp: "lastPos = Some (p + length a)"
      using less(3) one(1,2,4) w by (simp add: find_first_not_of_def find_from_append)
    have dl: "drop (p + length a) s = w @ r"
      using arg_cong [OF one(1), of "drop (length a)"] by (simp add: add.commute)
    have "find_from ?P (p + length a) (w @ r) = find_from ?P (p + length a + length w) r"
      using one(4) by (simp add: find_from_append)
    then have pp: "pos = (if r = [] then None else Some (p + length a + length w))"
      using less(4) lp dl one(5) by (cases r) (auto simp: find_first_of_def)
    have len: "length s - p = length a + length w + length r"
      using arg_cong [OF one(1), of length] by simp
    have sub: "substr s (p + length a) (map_option (\<lambda>q. q - (p + length a)) pos) = Inr w"
      using less(2) len pp by (auto simp: substr_def dl)
    show ?thesis
    proof (cases "w = pat \<or> r = []")
      case True
      then show ?thesis using lp sub pp one(6)
        by (subst inList_loop.simps) (auto simp: inList_loop.simps [of pat s ds None None])
    next
      case False
      let ?q = "p + length a + length w"
      have "inList_loop pat s ds (find_first_not_of s ds (Some ?q))
          (find_first_of s ds (find_first_not_of s ds (Some ?q))) =
        Inr (pat \<in> set (runs ?P (drop ?q s)))"
        using less(2) len w by (intro less(1)) auto
      moreover have "drop ?q s = r"
        using arg_cong [OF one(1), of "drop (length a + length w)"]
        by (simp add: add.commute add.left_commute)
      ultimately show ?thesis using lp sub pp one(6) False
        by (subst inList_loop.simps) auto
    qed
  qed
qed

lemma inList_runs: "inList pat s ds = Inr (pat \<in> set (runs (\<lambda>c. c \<in> set ds) s))"
  unfolding inList_def Let_def by (subst inList_loop_runs [of 0]) auto

section \<open>Properties\<close>

text \<open>C28. Splitting at a one-character delimiter never fails, loses nothing and leaves no
  delimiter in a part: joining the parts with the delimiter gives the string back, and a list
  of parts free of the delimiter is recovered from its join.\<close>

theorem tokenize_roundtrip:
  "\<exists>ts. tokenize s [d] = Inr ts \<and> join_with d ts = s \<and> (\<forall>t \<in> set ts. d \<notin> set t) \<and>
     (\<forall>ps. ps \<noteq> [] \<and> (\<forall>p \<in> set ps. d \<notin> set p) \<longrightarrow> tokenize (join_with d ps) [d] = Inr ps)"
  by (auto simp: tokenize_split_on split_on_join dest: split_on_no_sep)

theorem tokenize_roundtrip_witness:
  "tokenize ''1,2'' '','' = Inr [''1'', ''2''] \<and> join_with (CHR '','') [''1'', ''2''] = ''1,2''"
  using tokenize_roundtrip [of "''1,2''" "CHR '',''"] by (auto simp: tokenize_split_on)

text \<open>C29. \<open>inList\<close> never throws, terminates, and finds exactly the non-empty fields of the
  list: a stream is accepted by an input iff its format is one of the comma-separated types.\<close>

theorem inList_iff_field:
  "inList pattern str [d] = Inr (pattern \<noteq> [] \<and> pattern \<in> set (split_on d str))"
  by (auto simp: inList_runs runs_split_on)

end
