(* ===== verification/Movid_Double.thy ===== *)
theory Movid_Double
  imports Movid_Strings
begin

text \<open>
  The finite values of C's \<open>double\<close> are rationals; \<open>dbl\<close> rounds a rational to the
  nearest one with a 53-bit significand and exponent at least \<open>-1074\<close> (ties to even), so
  a floating-point operation of the source is \<open>dbl\<close> of the exact one.
  Infinities, NaNs and the sign of zero are not represented.
  The conversions the sources use are here too: \<open>(int) d\<close>, \<open>atof\<close> on decimal
  input, the \<open>printf\<close> formats \<open>%.<n>f\<close> and \<open>%.<n>e\<close>, and \<open>operator<<\<close>
  on doubles, which is \<open>%g\<close> with six significant digits.
\<close>

section \<open>Rounding\<close>

type_synonym double = rat

definition half_even :: "rat \<Rightarrow> int" where
  "half_even x =
     (let f = \<lfloor>x\<rfloor>; r = x - of_int f
      in if r < 1 / 2 then f else if 1 / 2 < r then f + 1 else if even f then f else f + 1)"

text \<open>Number of digits of a natural number in base \<open>b\<close>, and the exponent of the leading
  digit of a positive rational.\<close>

fun ndigits :: "nat \<Rightarrow> nat \<Rightarrow> nat" where
  "ndigits b n = (if n = 0 \<or> b < 2 then 0 else Suc (ndigits b (n div b)))"

declare ndigits.simps [simp del]

definition bpow :: "nat \<Rightarrow> int \<Rightarrow> rat" where
  "bpow b e = (if 0 \<le> e then of_nat b ^ nat e else inverse (of_nat b ^ nat (- e)))"

definition ilog :: "nat \<Rightarrow> rat \<Rightarrow> int" where
  "ilog b x =
     (let (n, d) = quotient_of x;
          k = int (ndigits b (nat n)) - int (ndigits b (nat d))
      in if bpow b k \<le> x then k else k - 1)"

definition dbl :: "rat \<Rightarrow> double" where
  "dbl x =
     (if x = 0 then 0
      else (let e = max (ilog 2 \<bar>x\<bar> - 52) (-1074) in of_int (half_even (x / bpow 2 e)) * bpow 2 e))"

definition rat_trunc :: "rat \<Rightarrow> int" where
  "rat_trunc x = (if x < 0 then - \<lfloor>- x\<rfloor> else \<lfloor>x\<rfloor>)"

text \<open>\<open>(int) d\<close>: truncation; a value outside the range of \<open>int\<close> is undefined.\<close>

definition int_of_double :: "double \<Rightarrow> int result" where
  "int_of_double x = (let i = rat_trunc x in if int32 i then Inr i else Inl Undefined)"

lemma half_even_of_int [simp]: "half_even (of_int i) = i"
  by (simp add: half_even_def)

lemma half_even_bounds: "\<bar>of_int (half_even x) - x\<bar> \<le> 1 / 2"
proof -
  have "of_int \<lfloor>x\<rfloor> \<le> x" "x < of_int \<lfloor>x\<rfloor> + 1" by linarith+
  then show ?thesis by (auto simp: half_even_def Let_def)
qed

lemma rat_trunc_of_int [simp]: "rat_trunc (of_int i) = i"
  by (simp add: rat_trunc_def flip: of_int_minus)

lemma bpow_pos: "0 < b \<Longrightarrow> 0 < bpow b e"
  by (simp add: bpow_def)

lemma bpow_nonneg: "0 \<le> bpow b e"
  by (simp add: bpow_def)

lemma ndigits_le:
  "1 < b \<Longrightarrow> n < b ^ k \<Longrightarrow> ndigits b n \<le> k"
proof (induction k arbitrary: n)
  case 0
  then show ?case by (simp add: ndigits.simps)
next
  case (Suc k)
  show ?case
  proof (cases "n = 0")
    case False
    have "n div b < b ^ k" using Suc.prems
      by (metis less_mult_imp_div_less mult.commute power_Suc)
    then show ?thesis using Suc False by (subst ndigits.simps) simp
  qed (simp add: ndigits.simps)
qed

lemma ilog_of_int_le:
  assumes "0 < i" "i < 2 ^ k"
  shows "ilog 2 (of_int i) \<le> int k - 1"
proof -
  have "nat i < 2 ^ k" using assms by (simp add: nat_less_iff)
  then have "ndigits 2 (nat i) \<le> k" by (intro ndigits_le) auto
  moreover have "ndigits 2 (nat 1) = 1" by (simp add: ndigits.simps)
  moreover have "quotient_of (of_int i) = (i, 1)" by simp
  ultimately show ?thesis by (auto simp: ilog_def Let_def)
qed

lemma dbl_of_int:
  assumes "\<bar>i\<bar> < 2 ^ 53"
  shows "dbl (of_int i) = of_int i"
proof (cases "i = 0")
  case False
  define e where "e = max (ilog 2 \<bar>of_int i\<bar> - 52) (-1074)"
  have "ilog 2 (of_int \<bar>i\<bar>) \<le> int 53 - 1"
    using assms False by (intro ilog_of_int_le) auto
  then have e0: "e \<le> 0" by (simp add: e_def)
  have p: "bpow 2 e = inverse (2 ^ nat (- e))"
    using e0 by (cases "e = 0") (auto simp: bpow_def)
  have "(of_int i :: rat) / bpow 2 e = of_int (i * 2 ^ nat (- e))"
    by (simp add: p divide_inverse)
  then have "half_even (of_int i / bpow 2 e) = i * 2 ^ nat (- e)"
    by (simp only: half_even_of_int)
  then have "of_int (half_even (of_int i / bpow 2 e)) * bpow 2 e = of_int i"
    by (simp add: p)
  then show ?thesis using False by (simp add: dbl_def Let_def e_def)
qed (simp add: dbl_def)

lemma int_of_double_of_int: "int32 i \<Longrightarrow> int_of_double (of_int i) = Inr i"
  by (simp add: int_of_double_def Let_def)

lemma dbl_int32: "int32 i \<Longrightarrow> dbl (of_int i) = of_int i"
  by (rule dbl_of_int) (auto simp: INT_MIN_def INT_MAX_def)

lemma ndigits_bounds: "1 < b \<Longrightarrow> n < b ^ ndigits b n \<and> (0 < n \<longrightarrow> b ^ ndigits b n \<le> b * n)"
proof (induction b n rule: ndigits.induct)
  case (1 b n)
  show ?case
  proof (cases "n = 0")
    case False
    let ?k = "ndigits b (n div b)"
    have s: "ndigits b n = Suc ?k" using False "1.prems" by (subst ndigits.simps) simp
    have ih: "n div b < b ^ ?k" "0 < n div b \<Longrightarrow> b ^ ?k \<le> b * (n div b)" using 1 False by auto
    have "n < b ^ Suc ?k" using ih(1) "1.prems" by (simp add: div_less_iff_less_mult mult.commute)
    moreover have "b ^ ?k \<le> n"
    proof (cases "n div b = 0")
      case True
      then show ?thesis using False by (simp add: ndigits.simps)
    next
      case False
      then have "b ^ ?k \<le> b * (n div b)" using ih(2) by simp
      also have "\<dots> \<le> n" by (rule times_div_less_eq_dividend)
      finally show ?thesis .
    qed
    ultimately show ?thesis using s by simp
  qed (use 1 in \<open>simp add: ndigits.simps\<close>)
qed

lemma bpow_diff: "0 < b \<Longrightarrow> bpow b (int m - int k) = of_nat b ^ m / of_nat b ^ k"
proof -
  assume b: "0 < b"
  show ?thesis
  proof (cases "k \<le> m")
    case True
    then have "nat (int m - int k) = m - k" by simp
    then show ?thesis using True b by (simp add: bpow_def power_diff)
  next
    case False
    then have "nat (- (int m - int k)) = k - m" by simp
    then show ?thesis using False b by (simp add: bpow_def power_diff divide_inverse)
  qed
qed

lemma bpow_ilog:
  assumes "0 < x" "1 < b"
  shows "bpow b (ilog b x) \<le> x"
proof -
  obtain n d where q: "quotient_of x = (n, d)" by fastforce
  have d: "0 < d" using quotient_of_denom_pos [OF q] .
  have x: "x = of_int n / of_int d" by (rule quotient_of_div [OF q])
  then have n: "0 < n" using assms d by (simp add: zero_less_divide_iff)
  let ?i = "ndigits b (nat n)" and ?j = "ndigits b (nat d)"
  have "b ^ ?i \<le> b * nat n" "nat d < b ^ ?j" using ndigits_bounds [of b "nat n"] ndigits_bounds [of b "nat d"] n assms(2) by auto
  then have "(of_nat (b ^ ?i) :: rat) \<le> of_nat (b * nat n)" "(of_nat (nat d) :: rat) \<le> of_nat (b ^ ?j)"
    by (simp_all only: of_nat_le_iff order.strict_implies_order)
  then have le: "(of_nat b :: rat) ^ ?i \<le> of_nat b * of_int n" "(of_int d :: rat) \<le> of_nat b ^ ?j" using n d by simp_all
  have "(of_nat b :: rat) ^ ?i / of_nat b ^ Suc ?j \<le> (of_nat b * of_int n) / (of_nat b * of_int d)"
    by (rule frac_le) (use le n d assms(2) in auto)
  then have "bpow b (int ?i - int (Suc ?j)) \<le> x" using bpow_diff [of b ?i "Suc ?j"] x assms(2) by simp
  then show ?thesis by (simp add: ilog_def q Let_def algebra_simps)
qed

lemmas bpow_ilog_le = bpow_ilog [where b = 2, simplified]

lemma bpow_powi: "bpow b e = of_nat b powi e"
  by (simp add: bpow_def power_int_def power_inverse)

lemma bpow_less_iff: "1 < b \<Longrightarrow> bpow b i < bpow b j \<longleftrightarrow> i < j"
  unfolding bpow_powi by (metis of_nat_1 of_nat_less_iff not_less_iff_gr_or_eq power_int_strict_increasing)

lemma less_bpow_ilog:
  assumes "0 < x" "1 < b"
  shows "x < bpow b (ilog b x + 1)"
proof -
  obtain n d where q: "quotient_of x = (n, d)" by fastforce
  have d: "0 < d" using quotient_of_denom_pos [OF q] .
  have x: "x = of_int n / of_int d" by (rule quotient_of_div [OF q])
  then have n: "0 < n" using assms d by (simp add: zero_less_divide_iff)
  let ?i = "ndigits b (nat n)" and ?j = "ndigits b (nat d)"
  have "nat n < b ^ ?i" "b ^ ?j \<le> b * nat d" using ndigits_bounds [of b "nat n"] ndigits_bounds [of b "nat d"] d assms(2) by auto
  then have "(of_nat (nat n) :: rat) < of_nat (b ^ ?i)" "(of_nat (b ^ ?j) :: rat) \<le> of_nat (b * nat d)"
    by (simp_all only: of_nat_le_iff of_nat_less_iff)
  then have le: "(of_int n :: rat) < of_nat b ^ ?i" "of_nat b ^ ?j \<le> of_nat b * (of_int d :: rat)" using n d by simp_all
  have b: "(0 :: rat) < of_nat b" using assms(2) by simp
  have "x * of_nat b ^ ?j \<le> x * (of_nat b * of_int d)" using le(2) assms(1) by simp
  also have "\<dots> = of_nat b * of_int n" using x d by simp
  also have "\<dots> < of_nat b * of_nat b ^ ?i" using le(1) b by simp
  finally have "x < of_nat b ^ Suc ?i / of_nat b ^ ?j" using b by (simp add: pos_less_divide_eq)
  also have "\<dots> = bpow b (int ?i - int ?j + 1)" using bpow_diff [of b "Suc ?i" ?j] assms(2) by (simp add: algebra_simps)
  finally show ?thesis by (auto simp: ilog_def q Let_def)
qed

text \<open>Below \<open>2 ^ 53\<close> the error of the rounding is at most one half.\<close>

lemma dbl_error:
  assumes "\<bar>x\<bar> < 2 ^ 53"
  shows "\<bar>dbl x - x\<bar> \<le> 1 / 2"
proof (cases "x = 0")
  case False
  define e where "e = max (ilog 2 \<bar>x\<bar> - 52) (-1074)"
  have "ilog 2 \<bar>x\<bar> \<le> 52"
  proof (rule ccontr)
    assume "\<not> ilog 2 \<bar>x\<bar> \<le> 52"
    then have k: "53 \<le> nat (ilog 2 \<bar>x\<bar>)" "0 \<le> ilog 2 \<bar>x\<bar>" by auto
    have "(2 :: rat) ^ 53 \<le> 2 ^ nat (ilog 2 \<bar>x\<bar>)" using k(1) by (intro power_increasing) auto
    then have "2 ^ 53 \<le> bpow 2 (ilog 2 \<bar>x\<bar>)" using k(2) by (simp add: bpow_def)
    then show False using bpow_ilog_le [of "\<bar>x\<bar>"] False assms by simp
  qed
  then have e: "bpow 2 e \<le> 1" by (auto simp: e_def bpow_def one_le_power inverse_le_1_iff max_def)
  have pos: "0 < bpow 2 e" by (rule bpow_pos) simp
  have "dbl x - x = (of_int (half_even (x / bpow 2 e)) - x / bpow 2 e) * bpow 2 e"
    using False pos by (simp add: dbl_def Let_def e_def left_diff_distrib)
  then have "\<bar>dbl x - x\<bar> = \<bar>of_int (half_even (x / bpow 2 e)) - x / bpow 2 e\<bar> * bpow 2 e" using pos by (simp add: abs_mult)
  also have "\<dots> \<le> (1 / 2) * 1" using half_even_bounds [of "x / bpow 2 e"] e pos by (intro mult_mono) auto
  finally show ?thesis by simp
qed (simp add: dbl_def)

lemma int_of_double_near:
  assumes "\<bar>x\<bar> \<le> of_int k + 1 / 2" "0 \<le> k" "k \<le> 2147483647"
  shows "\<exists>i. int_of_double x = Inr i \<and> \<bar>i\<bar> \<le> k"
proof -
  have "of_int \<bar>rat_trunc x\<bar> \<le> \<bar>x\<bar>"
  proof (cases "x < 0")
    case True
    then have "0 \<le> \<lfloor>- x\<rfloor>" by simp
    then show ?thesis using True by (simp add: rat_trunc_def)
  next
    case False
    then have "0 \<le> \<lfloor>x\<rfloor>" by simp
    then show ?thesis using False by (simp add: rat_trunc_def)
  qed
  then have "of_int \<bar>rat_trunc x\<bar> < (of_int (k + 1) :: rat)" using assms(1) by simp
  then have "\<bar>rat_trunc x\<bar> \<le> k" by (simp only: of_int_less_iff)
  then show ?thesis using assms(3) by (auto simp: int_of_double_def Let_def INT_MIN_def INT_MAX_def)
qed

section \<open>Printing\<close>

definition pad_zeros :: "nat \<Rightarrow> string \<Rightarrow> string" where
  "pad_zeros n s = replicate (n - length s) (CHR ''0'') @ s"

definition fmt_fixed :: "nat \<Rightarrow> double \<Rightarrow> string" where
  "fmt_fixed p x =
     (let n = nat (half_even (\<bar>x\<bar> * 10 ^ p)); ip = n div 10 ^ p; fp = n mod 10 ^ p
      in (if x < 0 then ''-'' else '''') @ show_nat ip @
         (if p = 0 then '''' else ''.'' @ pad_zeros p (show_nat fp)))"

text \<open>Decimal exponent and digits after rounding to \<open>p + 1\<close> significant digits.\<close>

definition sci :: "nat \<Rightarrow> double \<Rightarrow> int \<times> nat" where
  "sci p x =
     (if x = 0 then (0, 0)
      else (let k = ilog 10 \<bar>x\<bar>; n = nat (half_even (\<bar>x\<bar> / bpow 10 (k - int p)))
            in if n = 10 ^ Suc p then (k + 1, 10 ^ p) else (k, n)))"

definition fmt_exp :: "int \<Rightarrow> string" where
  "fmt_exp k = ''e'' @ (if k < 0 then ''-'' else ''+'') @ pad_zeros 2 (show_nat (nat \<bar>k\<bar>))"

definition fmt_sci :: "nat \<Rightarrow> double \<Rightarrow> string" where
  "fmt_sci p x =
     (let (k, n) = sci p x
      in (if x < 0 then ''-'' else '''') @ show_nat (n div 10 ^ p) @
         (if p = 0 then '''' else ''.'' @ pad_zeros p (show_nat (n mod 10 ^ p))) @ fmt_exp k)"

text \<open>\<open>%g\<close> drops the trailing zeros of the fraction and a dot with nothing after it.\<close>

definition strip_zeros :: "string \<Rightarrow> string" where
  "strip_zeros s =
     (if CHR ''.'' \<in> set s
      then (let r = dropWhile (\<lambda>c. c = CHR ''0'') (rev s)
            in rev (case r of c # r' \<Rightarrow> if c = CHR ''.'' then r' else r | [] \<Rightarrow> []))
      else s)"

definition fmt_g :: "double \<Rightarrow> string" where
  "fmt_g x =
     (let (k, n) = sci 5 x
      in if -4 \<le> k \<and> k < 6 then strip_zeros (fmt_fixed (nat (5 - k)) x)
         else (if x < 0 then ''-'' else '''') @
              strip_zeros (show_nat (n div 10 ^ 5) @ ''.'' @ pad_zeros 5 (show_nat (n mod 10 ^ 5))) @
              fmt_exp k)"

subsection \<open>How long the texts are\<close>

lemma length_fraction: "0 < p \<Longrightarrow> length (pad_zeros p (show_nat (n mod 10 ^ p))) = p"
  using length_show_nat [of "n mod 10 ^ p" "p - 1"] by (simp add: pad_zeros_def)

lemma half_even_le: "x \<le> of_int i \<Longrightarrow> half_even x \<le> i"
proof -
  assume "x \<le> of_int i"
  then have "of_int (half_even x) < (of_int (i + 1) :: rat)" using abs_le_D1 [OF half_even_bounds [of x]] by simp
  then show ?thesis by (simp only: of_int_less_iff)
qed

lemma length_fmt_fixed:
  assumes "\<bar>x\<bar> * 10 ^ p \<le> of_int (10 ^ (Suc k + p) - 1)"
  shows "length (fmt_fixed p x) \<le> 2 + Suc k + p" "p = 0 \<Longrightarrow> length (fmt_fixed p x) \<le> 1 + Suc k"
proof -
  define n where "n = nat (half_even (\<bar>x\<bar> * 10 ^ p))"
  have "half_even (\<bar>x\<bar> * 10 ^ p) \<le> 10 ^ (Suc k + p) - 1" by (rule half_even_le [OF assms])
  then have "n < 10 ^ (Suc k + p)" unfolding n_def by (cases "0 \<le> half_even (\<bar>x\<bar> * 10 ^ p)") (simp_all add: nat_less_iff)
  then have "n div 10 ^ p < 10 ^ Suc k" by (simp add: div_less_iff_less_mult power_add)
  then have ip: "length (show_nat (n div 10 ^ p)) \<le> Suc k" by (rule length_show_nat)
  note fp = length_fraction [of p n]
  show "length (fmt_fixed p x) \<le> 2 + Suc k + p" "p = 0 \<Longrightarrow> length (fmt_fixed p x) \<le> 1 + Suc k"
    using ip fp unfolding fmt_fixed_def Let_def n_def [symmetric] by (cases "p = 0"; simp)+
qed

lemma sci_digits:
  assumes "x \<noteq> 0" "sci p x = (k, n)"
  shows "n < 10 ^ Suc p" "k \<in> {ilog 10 \<bar>x\<bar>, ilog 10 \<bar>x\<bar> + 1}"
proof -
  let ?k = "ilog 10 \<bar>x\<bar>"
  have "\<bar>x\<bar> < bpow 10 (?k - int p + int (Suc p))" using less_bpow_ilog [of "\<bar>x\<bar>" 10] assms(1) by (simp add: algebra_simps)
  also have "\<dots> = bpow 10 (?k - int p) * 10 ^ Suc p" unfolding bpow_powi by (subst power_int_add) (simp_all only: power_int_of_nat of_nat_numeral, simp)
  finally have "\<bar>x\<bar> / bpow 10 (?k - int p) \<le> of_int (10 ^ Suc p)" using bpow_pos [of 10 "?k - int p"] by (simp add: pos_divide_le_eq mult.commute)
  then have "half_even (\<bar>x\<bar> / bpow 10 (?k - int p)) \<le> 10 ^ Suc p" by (rule half_even_le)
  then have "nat (half_even (\<bar>x\<bar> / bpow 10 (?k - int p))) \<le> 10 ^ Suc p" by (simp add: nat_le_iff)
  then show "n < 10 ^ Suc p" "k \<in> {?k, ?k + 1}" using assms by (auto simp: sci_def Let_def le_less split: if_splits)
qed

lemma length_fmt_exp: "\<bar>k\<bar> < 1000 \<Longrightarrow> length (fmt_exp k) \<le> 5"
proof -
  assume "\<bar>k\<bar> < 1000"
  then have "length (show_nat (nat \<bar>k\<bar>)) \<le> Suc 2" by (intro length_show_nat) simp
  then show ?thesis unfolding fmt_exp_def pad_zeros_def by (cases "k < 0") simp_all
qed

lemma length_fmt_sci:
  assumes "x \<noteq> 0" "bpow 10 (- 900) \<le> \<bar>x\<bar>" "\<bar>x\<bar> \<le> bpow 10 62" "0 < p"
  shows "length (fmt_sci p x) \<le> 8 + p"
proof -
  obtain k n where s: "sci p x = (k, n)" by fastforce
  note d = sci_digits [OF assms(1) s]
  have "bpow 10 (- 900) < bpow 10 (ilog 10 \<bar>x\<bar> + 1)" using assms less_bpow_ilog [of "\<bar>x\<bar>" 10] by simp
  then have "- 900 < ilog 10 \<bar>x\<bar> + 1" by (simp only: bpow_less_iff)
  moreover have "ilog 10 \<bar>x\<bar> \<le> 62"
    using order_trans [OF bpow_ilog assms(3), of 10] assms(1) bpow_less_iff [of 10 62 "ilog 10 \<bar>x\<bar>"] by (simp flip: not_less)
  ultimately have "length (fmt_exp k) \<le> 5" using d(2) by (intro length_fmt_exp) auto
  moreover have "length (show_nat (n div 10 ^ p)) \<le> Suc 0" using d(1) by (intro length_show_nat) (simp add: div_less_iff_less_mult)
  moreover have "length (pad_zeros p (show_nat (n mod 10 ^ p))) = p" by (rule length_fraction [OF assms(4)])
  ultimately show ?thesis using s assms(4) by (simp add: fmt_sci_def)
qed

section \<open>Reading\<close>

definition atof :: "string \<Rightarrow> double" where
  "atof s =
     (let s1 = dropWhile isspace s;
          neg = (case s1 of c # _ \<Rightarrow> c = CHR ''-'' | [] \<Rightarrow> False);
          s2 = (case s1 of c # r \<Rightarrow> if c = CHR ''-'' \<or> c = CHR ''+'' then r else s1 | [] \<Rightarrow> []);
          ip = takeWhile isdigit s2;
          s3 = dropWhile isdigit s2;
          fp = (case s3 of c # r \<Rightarrow> if c = CHR ''.'' then takeWhile isdigit r else [] | [] \<Rightarrow> []);
          s4 = (case s3 of c # r \<Rightarrow> if c = CHR ''.'' then dropWhile isdigit r else s3 | [] \<Rightarrow> []);
          ex = (case s4 of c # r \<Rightarrow>
                  if c = CHR ''e'' \<or> c = CHR ''E''
                  then (let sg = (case r of d # _ \<Rightarrow> d = CHR ''-'' | [] \<Rightarrow> False);
                            r' = (case r of d # q \<Rightarrow> if d = CHR ''-'' \<or> d = CHR ''+'' then q else r
                                  | [] \<Rightarrow> []);
                            v = int (digits_val (takeWhile isdigit r'))
                        in if sg then - v else v)
                  else 0
                | [] \<Rightarrow> 0);
          m = of_nat (digits_val (ip @ fp)) * bpow 10 (ex - int (length fp))
      in if ip @ fp = [] then 0 else dbl (if neg then - m else m))"

end
