(* ===== verification/Movid_Property.thy ===== *)
theory Movid_Property
  imports Movid_Utils Movid_Double
begin

text \<open>
  \<open>src/moProperty.h\<close> and \<open>src/moProperty.cpp\<close>: a property is a value of one of five
  types behind a \<open>void*\<close>, with a type tag, that converts every value assigned to it to its
  own type and every read to the type asked for.
  The tag and the storage are separate fields here as they are in the class, so that a
  \<open>static_cast\<close> to the wrong type is the failure \<open>BadCast\<close>; \<open>prop_wf\<close> says that they
  agree. The callbacks a \<open>set\<close> fires are returned as the list of (callback, userdata)
  pairs in the map's order, and the component that owns the property runs them.
\<close>

section \<open>Data\<close>

record moPoint =
  pt_x :: double
  pt_y :: double

datatype moPropertyType =
    MO_PROPERTY_NONE
  | MO_PROPERTY_BOOL
  | MO_PROPERTY_STRING
  | MO_PROPERTY_INTEGER
  | MO_PROPERTY_DOUBLE
  | MO_PROPERTY_POINTLIST

text \<open>What a \<open>void*\<close> to a value can point to.\<close>

datatype pval =
    VBool bool
  | VString string
  | VInt int
  | VDouble double
  | VPoints "moPoint list"

fun pval_type :: "pval \<Rightarrow> moPropertyType" where
  "pval_type (VBool _) = MO_PROPERTY_BOOL"
| "pval_type (VString _) = MO_PROPERTY_STRING"
| "pval_type (VInt _) = MO_PROPERTY_INTEGER"
| "pval_type (VDouble _) = MO_PROPERTY_DOUBLE"
| "pval_type (VPoints _) = MO_PROPERTY_POINTLIST"

type_synonym callback = nat
type_synonym userdata = nat
type_synonym fired = "(callback \<times> userdata) list"

record moProperty =
  ptype :: moPropertyType
  callbacks :: "(callback, userdata) smap"
  description :: string
  val :: "pval option"
  readonly :: bool
  have_min :: bool
  have_max :: bool
  have_choices :: bool
  is_text :: bool
  val_min :: int
  val_max :: int
  val_choices :: string

section \<open>Conversions\<close>

text \<open>\<open>CASTEDGET\<close>: dereference of the storage at a static type.\<close>

fun cast_bool :: "pval option \<Rightarrow> bool result" where
  "cast_bool None = Inl NullDeref"
| "cast_bool (Some (VBool b)) = Inr b"
| "cast_bool (Some _) = Inl BadCast"

fun cast_string :: "pval option \<Rightarrow> string result" where
  "cast_string None = Inl NullDeref"
| "cast_string (Some (VString s)) = Inr s"
| "cast_string (Some _) = Inl BadCast"

fun cast_int :: "pval option \<Rightarrow> int result" where
  "cast_int None = Inl NullDeref"
| "cast_int (Some (VInt i)) = Inr i"
| "cast_int (Some _) = Inl BadCast"

fun cast_double :: "pval option \<Rightarrow> double result" where
  "cast_double None = Inl NullDeref"
| "cast_double (Some (VDouble d)) = Inr d"
| "cast_double (Some _) = Inl BadCast"

fun cast_points :: "pval option \<Rightarrow> moPoint list result" where
  "cast_points None = Inl NullDeref"
| "cast_points (Some (VPoints ps)) = Inr ps"
| "cast_points (Some _) = Inl BadCast"

fun convertToBool :: "moPropertyType \<Rightarrow> pval option \<Rightarrow> bool result" where
  "convertToBool MO_PROPERTY_BOOL v = cast_bool v"
| "convertToBool MO_PROPERTY_STRING v =
     mapR (\<lambda>s. s = ''True'' \<or> s = ''true'' \<or> s = ''TRUE'' \<or> s = ''1'') (cast_string v)"
| "convertToBool MO_PROPERTY_INTEGER v = mapR (\<lambda>i. if i = 0 then False else True) (cast_int v)"
| "convertToBool MO_PROPERTY_DOUBLE v = mapR (\<lambda>d. if d = 0 then False else True) (cast_double v)"
| "convertToBool MO_PROPERTY_POINTLIST v = mapR (\<lambda>ps. length ps > 0) (cast_points v)"
| "convertToBool MO_PROPERTY_NONE v = Inl AssertFailed"

text \<open>\<open>snprintf\<close> into the 64-byte buffer keeps at most 63 characters.\<close>

definition snprintf64 :: "string \<Rightarrow> string" where
  "snprintf64 s = take 63 s"

fun convertToString :: "moPropertyType \<Rightarrow> pval option \<Rightarrow> string result" where
  "convertToString MO_PROPERTY_STRING v = cast_string v"
| "convertToString MO_PROPERTY_BOOL v = mapR (\<lambda>b. if b then ''true'' else ''false'') (cast_bool v)"
| "convertToString MO_PROPERTY_INTEGER v = mapR (\<lambda>i. snprintf64 (show_int i)) (cast_int v)"
| "convertToString MO_PROPERTY_DOUBLE v = mapR (\<lambda>d. snprintf64 (fmt_fixed 6 d)) (cast_double v)"
| "convertToString MO_PROPERTY_POINTLIST v =
     mapR (\<lambda>ps. concat (map (\<lambda>p. fmt_g (pt_x p) @ '','' @ fmt_g (pt_y p) @ '';'') ps)) (cast_points v)"
| "convertToString MO_PROPERTY_NONE v = Inl AssertFailed"

fun convertToDouble :: "moPropertyType \<Rightarrow> pval option \<Rightarrow> double result" where
  "convertToDouble MO_PROPERTY_STRING v = mapR (\<lambda>s. atof (c_str s)) (cast_string v)"
| "convertToDouble MO_PROPERTY_BOOL v = mapR (\<lambda>b. if b then 1 else 0) (cast_bool v)"
| "convertToDouble MO_PROPERTY_INTEGER v = mapR (\<lambda>i. dbl (of_int i)) (cast_int v)"
| "convertToDouble MO_PROPERTY_DOUBLE v = cast_double v"
| "convertToDouble _ v = Inl AssertFailed"

fun convertToInteger :: "moPropertyType \<Rightarrow> pval option \<Rightarrow> int result" where
  "convertToInteger MO_PROPERTY_STRING v = mapR (\<lambda>s. atoi (c_str s)) (cast_string v)"
| "convertToInteger MO_PROPERTY_BOOL v = mapR (\<lambda>b. if b then 1 else 0) (cast_bool v)"
| "convertToInteger MO_PROPERTY_INTEGER v = cast_int v"
| "convertToInteger MO_PROPERTY_DOUBLE v = bindR (cast_double v) int_of_double"
| "convertToInteger MO_PROPERTY_POINTLIST v = mapR (\<lambda>ps. wrap32 (int (length ps))) (cast_points v)"
| "convertToInteger MO_PROPERTY_NONE v = Inl AssertFailed"

text \<open>The loop over the tokens between semicolons: a token that is not a pair of
  coordinates is skipped.\<close>

fun points_of_tokens :: "string list \<Rightarrow> moPoint list result" where
  "points_of_tokens [] = Inr []"
| "points_of_tokens (it # points) =
     bindR (tokenize it '','') (\<lambda>point.
       if length point \<noteq> 2 then points_of_tokens points
       else mapR (\<lambda>output. \<lparr>pt_x = atof (c_str (point ! 0)), pt_y = atof (c_str (point ! 1))\<rparr> # output)
              (points_of_tokens points))"

fun convertToPointList :: "moPropertyType \<Rightarrow> pval option \<Rightarrow> moPoint list result" where
  "convertToPointList MO_PROPERTY_STRING v =
     bindR (cast_string v) (\<lambda>s. bindR (tokenize s '';'') points_of_tokens)"
| "convertToPointList MO_PROPERTY_POINTLIST v = cast_points v"
| "convertToPointList _ v = Inr []"

section \<open>The class\<close>

definition prop_init :: "string \<Rightarrow> moPropertyType \<Rightarrow> pval option \<Rightarrow> moProperty" where
  "prop_init desc t v =
     \<lparr>ptype = t, callbacks = [], description = desc, val = v, readonly = False,
      have_min = False, have_max = False, have_choices = False, is_text = False,
      val_min = 0, val_max = 0, val_choices = ''''\<rparr>"

definition fireCallback :: "moProperty \<Rightarrow> fired" where
  "fireCallback p = callbacks p"

text \<open>The macro \<open>AUTOCONVERT(typein, value)\<close>: the new contents of the storage.\<close>

fun autoconvert :: "moPropertyType \<Rightarrow> pval option \<Rightarrow> moProperty \<Rightarrow> moProperty result" where
  "autoconvert typein v p =
     (case ptype p of
        MO_PROPERTY_BOOL \<Rightarrow> mapR (\<lambda>b. p\<lparr>val := Some (VBool b)\<rparr>) (convertToBool typein v)
      | MO_PROPERTY_STRING \<Rightarrow> mapR (\<lambda>s. p\<lparr>val := Some (VString s)\<rparr>) (convertToString typein v)
      | MO_PROPERTY_INTEGER \<Rightarrow> mapR (\<lambda>i. p\<lparr>val := Some (VInt i)\<rparr>) (convertToInteger typein v)
      | MO_PROPERTY_DOUBLE \<Rightarrow> mapR (\<lambda>d. p\<lparr>val := Some (VDouble d)\<rparr>) (convertToDouble typein v)
      | MO_PROPERTY_POINTLIST \<Rightarrow> mapR (\<lambda>l. p\<lparr>val := Some (VPoints l)\<rparr>) (convertToPointList typein v)
      | MO_PROPERTY_NONE \<Rightarrow> Inr p)"

text \<open>The five \<open>set\<close> overloads have this body; they differ in the type of the argument.\<close>

definition set_value :: "moPropertyType \<Rightarrow> pval \<Rightarrow> moProperty \<Rightarrow> (moProperty \<times> fired) result" where
  "set_value typein v p =
     (if readonly p then Inr (p, [])
      else mapR (\<lambda>p'. (p', fireCallback p')) (autoconvert typein (Some v) p))"

definition set_bool :: "bool \<Rightarrow> moProperty \<Rightarrow> (moProperty \<times> fired) result" where
  "set_bool value p = set_value MO_PROPERTY_BOOL (VBool value) p"

definition set_string :: "string \<Rightarrow> moProperty \<Rightarrow> (moProperty \<times> fired) result" where
  "set_string value p = set_value MO_PROPERTY_STRING (VString value) p"

definition set_cstr :: "string \<Rightarrow> moProperty \<Rightarrow> (moProperty \<times> fired) result" where
  "set_cstr value p = set_value MO_PROPERTY_STRING (VString (c_str value)) p"

definition set_int :: "int \<Rightarrow> moProperty \<Rightarrow> (moProperty \<times> fired) result" where
  "set_int value p = set_value MO_PROPERTY_INTEGER (VInt value) p"

definition set_double :: "double \<Rightarrow> moProperty \<Rightarrow> (moProperty \<times> fired) result" where
  "set_double value p = set_value MO_PROPERTY_DOUBLE (VDouble value) p"

definition set_points :: "moPoint list \<Rightarrow> moProperty \<Rightarrow> (moProperty \<times> fired) result" where
  "set_points value p = set_value MO_PROPERTY_POINTLIST (VPoints value) p"

text \<open>The constructors store a default of their type and \<open>set\<close> the argument; no callback
  is registered yet. \<open>constructed\<close> takes the object out of the result of that \<open>set\<close>,
  which does not fail (\<open>new_ok\<close> below).\<close>

fun constructed :: "moProperty \<Rightarrow> (moProperty \<times> fired) result \<Rightarrow> moProperty" where
  "constructed p0 (Inr (p, _)) = p"
| "constructed p0 (Inl _) = p0"

definition new_bool :: "bool \<Rightarrow> string \<Rightarrow> moProperty" where
  "new_bool value desc =
     (let p = prop_init desc MO_PROPERTY_BOOL (Some (VBool False)) in constructed p (set_bool value p))"

definition new_cstr :: "string \<Rightarrow> string \<Rightarrow> moProperty" where
  "new_cstr value desc =
     (let p = prop_init desc MO_PROPERTY_STRING (Some (VString [])) in constructed p (set_cstr value p))"

definition new_string :: "string \<Rightarrow> string \<Rightarrow> moProperty" where
  "new_string value desc =
     (let p = prop_init desc MO_PROPERTY_STRING (Some (VString [])) in constructed p (set_string value p))"

definition new_int :: "int \<Rightarrow> string \<Rightarrow> moProperty" where
  "new_int value desc =
     (let p = prop_init desc MO_PROPERTY_INTEGER (Some (VInt 0)) in constructed p (set_int value p))"

definition new_double :: "double \<Rightarrow> string \<Rightarrow> moProperty" where
  "new_double value desc =
     (let p = prop_init desc MO_PROPERTY_DOUBLE (Some (VDouble 0)) in constructed p (set_double value p))"

definition new_points :: "moPoint list \<Rightarrow> string \<Rightarrow> moProperty" where
  "new_points value desc =
     (let p = prop_init desc MO_PROPERTY_POINTLIST (Some (VPoints [])) in constructed p (set_points value p))"

definition asBool :: "moProperty \<Rightarrow> bool result" where
  "asBool p = convertToBool (ptype p) (val p)"

definition asString :: "moProperty \<Rightarrow> string result" where
  "asString p = convertToString (ptype p) (val p)"

definition asDouble :: "moProperty \<Rightarrow> double result" where
  "asDouble p = convertToDouble (ptype p) (val p)"

definition asInteger :: "moProperty \<Rightarrow> int result" where
  "asInteger p = convertToInteger (ptype p) (val p)"

definition asPointList :: "moProperty \<Rightarrow> moPoint list result" where
  "asPointList p = convertToPointList (ptype p) (val p)"

text \<open>\<open>free\<close>, run by the destructor: the object afterwards and whether the value object was
  handed back to the allocator.\<close>

definition prop_free :: "moProperty \<Rightarrow> moProperty \<times> bool" where
  "prop_free p =
     (if val p = None then (p, False)
      else (p\<lparr>val := None\<rparr>,
            (case ptype p of
               MO_PROPERTY_STRING \<Rightarrow> True
             | MO_PROPERTY_BOOL \<Rightarrow> True
             | MO_PROPERTY_INTEGER \<Rightarrow> True
             | MO_PROPERTY_DOUBLE \<Rightarrow> True
             | _ \<Rightarrow> False)))"

fun getPropertyTypeName :: "moPropertyType \<Rightarrow> string" where
  "getPropertyTypeName MO_PROPERTY_DOUBLE = ''double''"
| "getPropertyTypeName MO_PROPERTY_INTEGER = ''integer''"
| "getPropertyTypeName MO_PROPERTY_STRING = ''string''"
| "getPropertyTypeName MO_PROPERTY_BOOL = ''bool''"
| "getPropertyTypeName MO_PROPERTY_POINTLIST = ''pointlist''"
| "getPropertyTypeName MO_PROPERTY_NONE = ''unknown''"

text \<open>\<open>operator<<\<close>. There is no \<open>operator<<\<close> for \<open>moPointList\<close>: the compiler finds the
  implicit conversion of the list to a \<open>moProperty\<close> and the call is to this operator again.
  Not returning is \<open>None\<close>.\<close>

partial_function (option) stream_out :: "moProperty \<Rightarrow> string result option" where
  "stream_out p =
     (case ptype p of
        MO_PROPERTY_STRING \<Rightarrow> Some (asString p)
      | MO_PROPERTY_BOOL \<Rightarrow> Some (mapR (\<lambda>b. if b then ''1'' else ''0'') (asBool p))
      | MO_PROPERTY_INTEGER \<Rightarrow> Some (mapR show_int (asInteger p))
      | MO_PROPERTY_DOUBLE \<Rightarrow> Some (mapR fmt_g (asDouble p))
      | MO_PROPERTY_POINTLIST \<Rightarrow>
          (case asPointList p of Inl e \<Rightarrow> Some (Inl e) | Inr l \<Rightarrow> stream_out (new_points l ''''))
      | MO_PROPERTY_NONE \<Rightarrow> Some (Inr ''''))"

definition setDescription :: "string \<Rightarrow> moProperty \<Rightarrow> moProperty" where
  "setDescription desc p = p\<lparr>description := desc\<rparr>"

definition setReadOnly :: "bool \<Rightarrow> moProperty \<Rightarrow> moProperty" where
  "setReadOnly ro p = p\<lparr>readonly := ro\<rparr>"

definition setMin :: "int \<Rightarrow> moProperty \<Rightarrow> moProperty" where
  "setMin v p = p\<lparr>val_min := v, have_min := True\<rparr>"

definition setMax :: "int \<Rightarrow> moProperty \<Rightarrow> moProperty" where
  "setMax v p = p\<lparr>val_max := v, have_max := True\<rparr>"

definition setChoices :: "string \<Rightarrow> moProperty \<Rightarrow> moProperty" where
  "setChoices v p = p\<lparr>val_choices := v, have_choices := True\<rparr>"

definition setText :: "bool \<Rightarrow> moProperty \<Rightarrow> moProperty" where
  "setText t p = p\<lparr>is_text := t\<rparr>"

definition addCallback :: "callback \<Rightarrow> userdata \<Rightarrow> moProperty \<Rightarrow> moProperty result" where
  "addCallback cb ud p =
     (if map_of (callbacks p) cb \<noteq> None then Inl AssertFailed
      else Inr (p\<lparr>callbacks := smap_set cb ud (callbacks p)\<rparr>))"

definition removeCallback :: "callback \<Rightarrow> moProperty \<Rightarrow> moProperty" where
  "removeCallback cb p = p\<lparr>callbacks := smap_erase cb (callbacks p)\<rparr>"

section \<open>The invariant\<close>

text \<open>The storage exists and holds a value of the type the tag names; the callbacks are a
  map; an integer fits into \<open>int\<close>.\<close>

fun pval_ok :: "pval \<Rightarrow> bool" where
  "pval_ok (VInt i) = int32 i"
| "pval_ok _ = True"

definition prop_wf :: "moProperty \<Rightarrow> bool" where
  "prop_wf p \<longleftrightarrow>
     (case val p of Some v \<Rightarrow> pval_type v = ptype p \<and> pval_ok v | None \<Rightarrow> False) \<and>
     smap_wf (callbacks p)"


section \<open>Lemmas\<close>

lemma prop_wfE:
  assumes "prop_wf p"
  obtains v where "val p = Some v" "pval_type v = ptype p" "pval_ok v" "smap_wf (callbacks p)"
  using assms by (auto simp: prop_wf_def split: option.splits)

lemma prop_wfI [wf_intros]:
  "val p = Some v \<Longrightarrow> pval_type v = ptype p \<Longrightarrow> pval_ok v \<Longrightarrow> smap_wf (callbacks p) \<Longrightarrow> prop_wf p"
  by (simp add: prop_wf_def)

lemma points_of_tokens_ok: "\<exists>l. points_of_tokens ts = Inr l"
  by (induction ts) (auto simp: tokenize_split_on)

lemma convertToPointList_ok:
  "pval_type v = t \<Longrightarrow> \<exists>l. convertToPointList t (Some v) = Inr l"
  by (cases v) (auto simp: tokenize_split_on points_of_tokens_ok)

lemma atoi_int32: "int32 (atoi s)"
  unfolding atoi_def by (rule wrap32_range)

lemma convertToInteger_int32:
  "convertToInteger t (Some v) = Inr i \<Longrightarrow> pval_type v = t \<Longrightarrow> pval_ok v \<Longrightarrow> int32 i"
proof (cases v)
  case (VBool b)
  then show "convertToInteger t (Some v) = Inr i \<Longrightarrow> pval_type v = t \<Longrightarrow> int32 i"
    by (auto simp: INT_MIN_def INT_MAX_def)
qed (auto simp: atoi_int32 wrap32_range int_of_double_def Let_def split: if_splits)

lemma autoconvert_fields:
  "autoconvert t v p = Inr p' \<Longrightarrow>
     ptype p' = ptype p \<and> callbacks p' = callbacks p \<and> readonly p' = readonly p \<and>
     is_text p' = is_text p \<and> description p' = description p"
  by (auto simp: mapR_eq_Inr split: moPropertyType.splits)

lemma autoconvert_wf:
  assumes "prop_wf p" "pval_ok v" "autoconvert (pval_type v) (Some v) p = Inr p'"
  shows "prop_wf p'"
  using assms(1)
proof (rule prop_wfE)
  fix w assume w: "val p = Some w" "pval_type w = ptype p" "smap_wf (callbacks p)"
  show ?thesis
    using assms w convertToInteger_int32 [of "pval_type v" v]
    by (cases "ptype p") (auto simp: mapR_eq_Inr prop_wf_def)
qed

declare autoconvert.simps [simp del]

lemma set_value_cases:
  assumes "set_value t v p = Inr (p', f)"
  obtains (ro) "readonly p" "p' = p" "f = []"
  | (rw) "\<not> readonly p" "autoconvert t (Some v) p = Inr p'" "f = callbacks p"
proof (cases "readonly p")
  case True
  with assms have "p' = p" "f = []" by (simp_all add: set_value_def)
  with True show ?thesis by (rule ro)
next
  case False
  with assms have ac: "autoconvert t (Some v) p = Inr p'" and "f = callbacks p'"
    by (auto simp: set_value_def fireCallback_def mapR_eq_Inr)
  with autoconvert_fields [OF ac] have "f = callbacks p" by simp
  with False ac show ?thesis by (rule rw)
qed

lemma set_value_wf:
  assumes "prop_wf p" "pval_ok v" "set_value (pval_type v) v p = Inr (p', f)"
  shows "prop_wf p'"
  using assms(3) by (cases rule: set_value_cases) (use assms autoconvert_wf in auto)

lemma set_value_fields:
  assumes "set_value t v p = Inr (p', f)"
  shows "ptype p' = ptype p" "callbacks p' = callbacks p" "readonly p' = readonly p"
    "is_text p' = is_text p"
proof -
  have "ptype p' = ptype p \<and> callbacks p' = callbacks p \<and> readonly p' = readonly p \<and>
      is_text p' = is_text p"
    using assms by (cases rule: set_value_cases) (simp, drule autoconvert_fields, simp)
  then show "ptype p' = ptype p" "callbacks p' = callbacks p" "readonly p' = readonly p"
    "is_text p' = is_text p" by auto
qed

lemmas set_defs = set_bool_def set_string_def set_cstr_def set_int_def set_double_def set_points_def

lemma set_string_wf [wf_intros]: "prop_wf p \<Longrightarrow> set_string s p = Inr (p', f) \<Longrightarrow> prop_wf p'"
  using set_value_wf [of p "VString s"] by (simp add: set_string_def)

lemma constructed_set_value:
  "constructed (prop_init d (pval_type v) (Some v0)) (set_value (pval_type v) v (prop_init d (pval_type v) (Some v0)))
     = prop_init d (pval_type v) (Some v)"
  by (cases v) (simp_all add: set_value_def fireCallback_def prop_init_def autoconvert.simps)

lemma new_simps:
  "new_bool b d = prop_init d MO_PROPERTY_BOOL (Some (VBool b))"
  "new_cstr s d = prop_init d MO_PROPERTY_STRING (Some (VString (c_str s)))"
  "new_string s d = prop_init d MO_PROPERTY_STRING (Some (VString s))"
  "new_int i d = prop_init d MO_PROPERTY_INTEGER (Some (VInt i))"
  "new_double x d = prop_init d MO_PROPERTY_DOUBLE (Some (VDouble x))"
  "new_points l d = prop_init d MO_PROPERTY_POINTLIST (Some (VPoints l))"
  using constructed_set_value [of d "VBool b"] constructed_set_value [of d "VString (c_str s)"]
    constructed_set_value [of d "VString s"] constructed_set_value [of d "VInt i"]
    constructed_set_value [of d "VDouble x"] constructed_set_value [of d "VPoints l"]
  by (simp_all add: new_bool_def new_cstr_def new_string_def new_int_def new_double_def new_points_def
      set_defs)

text \<open>The \<open>set\<close> inside a constructor succeeds.\<close>

lemma new_ok:
  "okR (set_bool b (prop_init d MO_PROPERTY_BOOL (Some (VBool False))))"
  "okR (set_cstr s (prop_init d MO_PROPERTY_STRING (Some (VString []))))"
  "okR (set_string s (prop_init d MO_PROPERTY_STRING (Some (VString []))))"
  "okR (set_int i (prop_init d MO_PROPERTY_INTEGER (Some (VInt 0))))"
  "okR (set_double x (prop_init d MO_PROPERTY_DOUBLE (Some (VDouble 0))))"
  "okR (set_points l (prop_init d MO_PROPERTY_POINTLIST (Some (VPoints []))))"
  by (simp_all add: set_defs set_value_def prop_init_def autoconvert.simps)

lemma new_wf [simp, wf_intros]:
  "prop_wf (new_bool b d)" "prop_wf (new_cstr s d)" "prop_wf (new_string s d)"
  "int32 i \<Longrightarrow> prop_wf (new_int i d)" "prop_wf (new_double x d)" "prop_wf (new_points l d)"
  by (simp_all add: new_simps prop_wf_def prop_init_def)

lemma asString_ok: "prop_wf p \<Longrightarrow> \<exists>s. asString p = Inr s"
  by (erule prop_wfE, rename_tac v, case_tac v) (auto simp: asString_def)

lemma asBool_ok: "prop_wf p \<Longrightarrow> \<exists>b. asBool p = Inr b"
  by (erule prop_wfE, rename_tac v, case_tac v) (auto simp: asBool_def)

lemma snprintf64_show_int [simp]: "int32 i \<Longrightarrow> snprintf64 (show_int i) = show_int i"
  using length_show_int [of i] by (simp add: snprintf64_def)

lemma show_int_no_nul: "CHR 0x00 \<notin> set (show_int i)"
proof
  assume "CHR 0x00 \<in> set (show_int i)"
  then have "CHR 0x00 = CHR ''-'' \<or> isdigit (CHR 0x00)"
    using show_nat_digits unfolding show_int_def by (metis list.set_cases set_ConsD)
  then show False by (simp add: isdigit_def)
qed

lemma c_str_show_int [simp]: "c_str (show_int i) = show_int i"
  by (rule c_str_id) (rule show_int_no_nul)

section \<open>Properties\<close>

text \<open>C16. The type tag and the storage of a property always agree. A \<open>set\<close> of any of the
  five argument types, on a well-formed property, either leaves a well-formed property of the
  same type, or fails in one of two ways only: the \<open>assert(0)\<close> for a point list assigned to
  a double, and the undefined cast of a double outside the range of \<open>int\<close>. In particular no
  \<open>static_cast\<close> ever reads the storage at a wrong type and no null storage is read.\<close>

theorem set_type_safe:
  assumes "prop_wf p" and "pval_ok v"
  shows "case set_value (pval_type v) v p of
      Inr (p', f) \<Rightarrow> prop_wf p' \<and> ptype p' = ptype p
    | Inl e \<Rightarrow> (e = AssertFailed \<and> ptype p = MO_PROPERTY_DOUBLE \<and> pval_type v = MO_PROPERTY_POINTLIST) \<or>
              (e = Undefined \<and> ptype p = MO_PROPERTY_INTEGER \<and>
               (\<exists>d. v = VDouble d \<and> \<not> int32 (rat_trunc d)))"
proof (cases "set_value (pval_type v) v p")
  case (Inl e)
  have pl: "\<exists>l. convertToPointList (pval_type v) (Some v) = Inr l"
    by (rule convertToPointList_ok) simp
  show ?thesis
    using Inl assms(1) pl
    by (cases "ptype p"; cases v)
      (auto simp: set_value_def autoconvert.simps int_of_double_def mapR_def prop_wf_def Let_def
        split: if_splits option.splits sum.splits)
next
  case (Inr q)
  obtain p' f where q: "q = (p', f)" by (cases q)
  with Inr have "set_value (pval_type v) v p = Inr (p', f)" by simp
  with set_value_wf [OF assms this] set_value_fields(1) [OF this] q Inr show ?thesis by simp
qed

theorem set_type_safe_witness:
  "prop_wf (new_int 3 ''n'') \<and> pval_ok (VString ''42'') \<and>
   (case set_value (pval_type (VString ''42'')) (VString ''42'') (new_int 3 ''n'') of
      Inr (p', f) \<Rightarrow> prop_wf p' \<and> ptype p' = ptype (new_int 3 ''n'')
    | Inl e \<Rightarrow> False)"
proof -
  have wf: "prop_wf (new_int 3 ''n'')" by (simp add: INT_MIN_def INT_MAX_def)
  have ok: "pval_ok (VString ''42'')" by simp
  have "okR (set_value (pval_type (VString ''42'')) (VString ''42'') (new_int 3 ''n''))"
    by (simp add: set_value_def new_simps prop_init_def autoconvert.simps)
  with wf ok set_type_safe [OF wf ok] show ?thesis by (auto split: sum.splits)
qed

text \<open>C27. The text a property prints restores its value in any other writable property of the same type, for the
  types whose text is exact (bool, string, integer): this is what a saved pipeline relies on when it is loaded again. The other property
  gets the value, nothing else of it changes, it prints the same text, and its callbacks are fired.\<close>

theorem asString_set_string_roundtrip:
  assumes "prop_wf p" and "ptype p \<in> {MO_PROPERTY_BOOL, MO_PROPERTY_STRING, MO_PROPERTY_INTEGER}"
    and "asString p = Inr s" and "ptype q = ptype p" and "\<not> readonly q"
  shows "\<exists>q'. set_string s q = Inr (q', callbacks q) \<and> q' = q\<lparr>val := val p\<rparr> \<and> asString q' = Inr s"
  using assms(1)
proof (rule prop_wfE)
  fix v assume v: "val p = Some v" "pval_type v = ptype p" "pval_ok v"
  show ?thesis
    using assms(2-5) v
    by (cases v) (auto simp: set_string_def set_value_def autoconvert.simps asString_def atoi_show_int fireCallback_def
        split: if_splits)
qed

theorem asString_set_string_roundtrip_witness:
  "prop_wf (new_int (-17) '''') \<and> asString (new_int (-17) '''') = Inr ''-17'' \<and> ptype (new_int 3 ''n'') = ptype (new_int (-17) '''') \<and>
   (\<exists>q'. set_string ''-17'' (new_int 3 ''n'') = Inr (q', []) \<and> val q' = Some (VInt (-17)) \<and> asString q' = Inr ''-17'')"
proof -
  have wf: "prop_wf (new_int (-17) '''')" by (simp add: INT_MIN_def INT_MAX_def)
  have ty: "ptype (new_int (-17) '''') \<in> {MO_PROPERTY_BOOL, MO_PROPERTY_STRING, MO_PROPERTY_INTEGER}"
    "ptype (new_int 3 ''n'') = ptype (new_int (-17) '''')" "\<not> readonly (new_int 3 ''n'')"
    by (simp_all add: new_simps prop_init_def)
  have st: "asString (new_int (-17) '''') = Inr ''-17''"
    by code_simp
  have "callbacks (new_int 3 ''n'') = []" "val (new_int (-17) '''') = Some (VInt (-17))" by (simp_all add: new_simps prop_init_def)
  then show ?thesis using wf st ty(2) asString_set_string_roundtrip [OF wf ty(1) st ty(2,3)] by force
qed

text \<open>C26. A read-only property ignores every assignment and fires nothing; otherwise every
  registered callback is fired exactly once, with the user data it was registered with.\<close>

theorem set_fires_callbacks:
  assumes "smap_wf (callbacks p)" and "addCallback cb ud p = Inr q" and "set_value t v q = Inr (q', f)"
  shows "if readonly p then q' = q \<and> f = []
         else f = callbacks q \<and> count_list f (cb, ud) = 1 \<and>
              (\<forall>c u. (c, u) \<in> set f \<longleftrightarrow> map_of (callbacks p) c = Some u \<or> (c = cb \<and> u = ud))"
proof -
  from assms(2) have q: "q = p\<lparr>callbacks := smap_set cb ud (callbacks p)\<rparr>"
    and fresh: "map_of (callbacks p) cb = None"
    by (auto simp: addCallback_def split: if_splits)
  have wf: "smap_wf (callbacks q)" using assms(1) q by simp
  have d: "distinct (map fst (callbacks q))" using wf by (rule smap_wf_distinct)
  have mem: "(c, u) \<in> set (callbacks q) \<longleftrightarrow> map_of (callbacks p) c = Some u \<or> (c = cb \<and> u = ud)" for c u
    using d fresh q by (auto simp: map_of_eq_Some_iff [symmetric] split: if_splits)
  have "count_list (callbacks q) (cb, ud) = 1"
    using mem [of cb ud] d by (intro count_list_distinct) (auto simp: distinct_map)
  with assms(3) mem q show ?thesis
    by (cases rule: set_value_cases) auto
qed

theorem set_fires_callbacks_witness:
  "\<exists>q q' f. addCallback 7 9 (new_bool True '''') = Inr q \<and>
     set_value MO_PROPERTY_BOOL (VBool False) q = Inr (q', f) \<and>
     (if readonly (new_bool True '''') then q' = q \<and> f = []
      else f = callbacks q \<and> count_list f (7, 9) = 1 \<and>
        (\<forall>c u. (c, u) \<in> set f \<longleftrightarrow>
           map_of (callbacks (new_bool True '''')) c = Some u \<or> (c = 7 \<and> u = 9)))"
proof -
  let ?p = "new_bool True ''''"
  let ?q = "?p\<lparr>callbacks := [(7, 9)]\<rparr>"
  have wf: "smap_wf (callbacks ?p)" by (simp add: new_simps prop_init_def)
  have add: "addCallback 7 9 ?p = Inr ?q" by (simp add: addCallback_def new_simps prop_init_def)
  have set: "set_value MO_PROPERTY_BOOL (VBool False) ?q = Inr (?q\<lparr>val := Some (VBool False)\<rparr>, [(7, 9)])"
    by (simp add: set_value_def autoconvert.simps fireCallback_def new_simps prop_init_def)
  show ?thesis using add set set_fires_callbacks [OF wf add set] by blast
qed

text \<open>C40. Writing a property to a stream returns for every type but the point list, for which
  \<open>operator<<\<close> calls itself on a freshly converted property for ever.\<close>

theorem stream_out_returns_iff:
  assumes "prop_wf p"
  shows "(\<exists>r. stream_out p = Some r) \<longleftrightarrow> ptype p \<noteq> MO_PROPERTY_POINTLIST"
proof
  assume "\<exists>r. stream_out p = Some r"
  then obtain r where ret: "stream_out p = Some r" by blast
  have "prop_wf p \<longrightarrow> ptype p \<noteq> MO_PROPERTY_POINTLIST"
  proof (rule stream_out.raw_induct [where P = "\<lambda>p r. prop_wf p \<longrightarrow> ptype p \<noteq> MO_PROPERTY_POINTLIST",
        OF _ ret])
    fix f p y
    assume IH: "\<And>p y. f p = Some y \<Longrightarrow> prop_wf p \<longrightarrow> ptype p \<noteq> MO_PROPERTY_POINTLIST"
      and eq: "(case ptype p of
        MO_PROPERTY_STRING \<Rightarrow> Some (asString p)
      | MO_PROPERTY_BOOL \<Rightarrow> Some (mapR (\<lambda>b. if b then ''1'' else ''0'') (asBool p))
      | MO_PROPERTY_INTEGER \<Rightarrow> Some (mapR show_int (asInteger p))
      | MO_PROPERTY_DOUBLE \<Rightarrow> Some (mapR fmt_g (asDouble p))
      | MO_PROPERTY_POINTLIST \<Rightarrow>
          (case asPointList p of Inl e \<Rightarrow> Some (Inl e) | Inr l \<Rightarrow> f (new_points l ''''))
      | MO_PROPERTY_NONE \<Rightarrow> Some (Inr '''')) = Some y"
    show "prop_wf p \<longrightarrow> ptype p \<noteq> MO_PROPERTY_POINTLIST"
    proof (intro impI notI)
      assume wf: "prop_wf p" and t: "ptype p = MO_PROPERTY_POINTLIST"
      obtain v where v: "val p = Some v" "pval_type v = MO_PROPERTY_POINTLIST"
        using wf t by (auto elim: prop_wfE)
      then obtain l where "asPointList p = Inr l"
        using t by (cases v) (auto simp: asPointList_def)
      with eq t have "f (new_points l '''') = Some y" by simp
      from IH [OF this] show False by (simp add: new_simps prop_init_def)
        (simp add: prop_wf_def)
    qed
  qed
  with assms show "ptype p \<noteq> MO_PROPERTY_POINTLIST" by blast
next
  assume "ptype p \<noteq> MO_PROPERTY_POINTLIST"
  then show "\<exists>r. stream_out p = Some r"
    by (subst stream_out.simps) (cases "ptype p"; simp)
qed

theorem stream_out_returns_iff_witness:
  "prop_wf (new_points [] '''') \<and> stream_out (new_points [] '''') = None"
proof -
  have wf: "prop_wf (new_points [] '''')" by simp
  have "ptype (new_points [] '''') = MO_PROPERTY_POINTLIST" by (simp add: new_simps prop_init_def)
  with wf stream_out_returns_iff [OF wf] show ?thesis by (simp add: not_Some_eq [symmetric] del: not_Some_eq)
qed

text \<open>The destructor hands the value object back for every type but the point list.\<close>

lemma prop_free_leaks_iff:
  "prop_wf p \<Longrightarrow> snd (prop_free p) = False \<longleftrightarrow> ptype p = MO_PROPERTY_POINTLIST"
  by (erule prop_wfE, rename_tac v, case_tac v) (auto simp: prop_free_def)

end
