(* ===== verification/Movid_Graph.thy ===== *)
theory Movid_Graph
  imports Movid_Property
begin

unbundle bit_operations_syntax

text \<open>
  \<open>src/moDataStream.{h,cpp}\<close>, \<open>src/moModule.{h,cpp}\<close> and \<open>src/moThread.cpp\<close>: the
  objects of a pipeline and the connections between them.
  Modules and streams live in a store (\<open>heap\<close>) and refer to each other by address: an
  input of a module is a cell that holds the address of a stream or NULL, and a stream keeps
  the list of the modules that observe it. Reading a freed or never allocated address is the
  failure \<open>Undefined\<close>.

  What a subclass overrides is reached through \<open>dispatch\<close>, the virtual method table by
  class name; the base class methods are the definitions of this theory. The clock is an
  argument of the operations that read it. Logging at the levels \<open>MO_DEBUG\<close> and
  \<open>MO_TRACE\<close> is off, as it is by default. Mutexes are not modelled: the operations here
  run to completion one after the other.
\<close>

section \<open>State\<close>

type_synonym maddr = nat
type_synonym saddr = nat

record moDataStreamInfo =
  info_name :: string
  info_type :: string
  info_description :: string

record moDataStream =
  format :: string
  data :: "nat option"
  observers :: "maddr list"

record mo_module_stats_t =
  average_fps :: double
  average_process_time :: double
  average_wait_time :: double
  total_process_time :: double
  total_wait_time :: double
  total_process_frame :: nat
  st_process_frame :: nat
  st_process_time :: double
  st_wait_time :: double
  st_last_time :: double

text \<open>The address of the member variable that stores a connection, with its contents.\<close>

datatype storage = StorageNull | Cell "saddr option"

definition MO_MODULE_NONE :: nat where "MO_MODULE_NONE = 0"
definition MO_MODULE_INPUT :: nat where "MO_MODULE_INPUT = 1"
definition MO_MODULE_OUTPUT :: nat where "MO_MODULE_OUTPUT = 2"
definition MO_MODULE_GUI :: nat where "MO_MODULE_GUI = 4"

text \<open>\<open>thread\<close> is \<open>Some want_quit\<close> while a thread object exists; \<open>thread_trigger\<close> is
  \<open>Some posted\<close>. The three strings at the front are what the virtual
  \<open>getName\<close>, \<open>getDescription\<close> and \<open>getAuthor\<close> of the class return.\<close>

record moModule =
  class_name :: string
  class_description :: string
  class_author :: string
  stats :: mo_module_stats_t
  capabilities :: nat
  is_started :: bool
  is_error :: bool
  error_msg :: string
  thread :: "bool option"
  use_thread :: bool
  need_update :: bool
  need_gui_build :: bool
  thread_trigger :: "bool option"
  owner :: "maddr option"
  is_internal :: bool
  input_map :: "(int, storage) smap"
  output_map :: "(int, storage) smap"
  input_infos :: "(int, moDataStreamInfo option) smap"
  output_infos :: "(int, moDataStreamInfo option) smap"
  properties :: "(string, moProperty) smap"
  gui :: "string list"

text \<open>The store, the counter behind the generated ids, and the memory that is not in use: the
  addresses the allocator will hand out for modules and for streams.\<close>

record heap =
  mods :: "maddr \<Rightarrow> moModule option"
  streams :: "saddr \<Rightarrow> moDataStream option"
  idcount :: nat
  free_mods :: "maddr list"
  free_streams :: "saddr list"

text \<open>What a class may override. \<open>vt_callback\<close> runs a property callback the class registered
  itself, by the callback's address.\<close>

record vtable =
  vt_start :: "double \<Rightarrow> maddr \<Rightarrow> heap \<Rightarrow> heap result"
  vt_stop :: "maddr \<Rightarrow> heap \<Rightarrow> heap result"
  vt_update :: "double \<Rightarrow> maddr \<Rightarrow> heap \<Rightarrow> heap result"
  vt_notifyData :: "saddr \<Rightarrow> maddr \<Rightarrow> heap \<Rightarrow> heap result"
  vt_guiFeedback :: "string \<Rightarrow> double \<Rightarrow> double \<Rightarrow> maddr \<Rightarrow> heap \<Rightarrow> heap result"
  vt_guiBuild :: "maddr \<Rightarrow> heap \<Rightarrow> heap result"
  vt_callback :: "callback \<Rightarrow> string \<Rightarrow> maddr \<Rightarrow> heap \<Rightarrow> heap result"

type_synonym dispatch = "string \<Rightarrow> vtable"

section \<open>Access to the store\<close>

definition get_module :: "heap \<Rightarrow> maddr \<Rightarrow> moModule result" where
  "get_module h a = (case mods h a of None \<Rightarrow> Inl Undefined | Some m \<Rightarrow> Inr m)"

definition put_module :: "maddr \<Rightarrow> moModule \<Rightarrow> heap \<Rightarrow> heap" where
  "put_module a m h = h\<lparr>mods := (mods h)(a := Some m)\<rparr>"

definition get_stream :: "heap \<Rightarrow> saddr \<Rightarrow> moDataStream result" where
  "get_stream h s = (case streams h s of None \<Rightarrow> Inl Undefined | Some d \<Rightarrow> Inr d)"

definition put_stream :: "saddr \<Rightarrow> moDataStream \<Rightarrow> heap \<Rightarrow> heap" where
  "put_stream s d h = h\<lparr>streams := (streams h)(s := Some d)\<rparr>"

definition upd_module :: "(moModule \<Rightarrow> moModule) \<Rightarrow> maddr \<Rightarrow> heap \<Rightarrow> heap result" where
  "upd_module f a h = mapR (\<lambda>m. put_module a (f m) h) (get_module h a)"

definition upd_stream :: "(moDataStream \<Rightarrow> moDataStream) \<Rightarrow> saddr \<Rightarrow> heap \<Rightarrow> heap result" where
  "upd_stream f s h = mapR (\<lambda>d. put_stream s (f d) h) (get_stream h s)"

section \<open>moDataStream\<close>

definition new_stream :: "string \<Rightarrow> moDataStream" where
  "new_stream fmt = \<lparr>format = fmt, data = None, observers = []\<rparr>"

definition setFormat :: "string \<Rightarrow> saddr \<Rightarrow> heap \<Rightarrow> heap result" where
  "setFormat fmt s h = upd_stream (\<lambda>d. d\<lparr>format := fmt\<rparr>) s h"

definition addObserver :: "saddr \<Rightarrow> maddr \<Rightarrow> heap \<Rightarrow> heap result" where
  "addObserver s m h = upd_stream (\<lambda>d. d\<lparr>observers := observers d @ [m]\<rparr>) s h"

definition removeObserver :: "saddr \<Rightarrow> maddr \<Rightarrow> heap \<Rightarrow> heap result" where
  "removeObserver s m h = upd_stream (\<lambda>d. d\<lparr>observers := erase_first m (observers d)\<rparr>) s h"

definition getObserverCount :: "moDataStream \<Rightarrow> nat" where
  "getObserverCount d = length (observers d)"

definition getObserver :: "moDataStream \<Rightarrow> nat \<Rightarrow> maddr result" where
  "getObserver d i = (if i < length (observers d) then Inr (observers d ! i) else Inl AssertFailed)"

fun notifyObservers_loop :: "dispatch \<Rightarrow> saddr \<Rightarrow> maddr list \<Rightarrow> heap \<Rightarrow> heap result" where
  "notifyObservers_loop vt s [] h = Inr h"
| "notifyObservers_loop vt s (it # its) h =
     bindR (get_module h it) (\<lambda>m.
       bindR (vt_notifyData (vt (class_name m)) s it h) (notifyObservers_loop vt s its))"

definition notifyObservers :: "dispatch \<Rightarrow> saddr \<Rightarrow> heap \<Rightarrow> heap result" where
  "notifyObservers vt s h = bindR (get_stream h s) (\<lambda>d. notifyObservers_loop vt s (observers d) h)"

definition stream_push :: "dispatch \<Rightarrow> nat option \<Rightarrow> saddr \<Rightarrow> heap \<Rightarrow> heap result" where
  "stream_push vt p s h =
     bindR (upd_stream (\<lambda>d. d\<lparr>data := p\<rparr>) s h) (notifyObservers vt s)"

text \<open>\<open>moDataStreamInfo::isStreamValid\<close>\<close>

definition isStreamValid :: "moDataStreamInfo \<Rightarrow> heap \<Rightarrow> saddr option \<Rightarrow> bool result" where
  "isStreamValid info h stream =
     (case stream of
        None \<Rightarrow> Inr False
      | Some s \<Rightarrow>
          if info_type info = ''*'' then Inr True
          else bindR (get_stream h s) (\<lambda>d. inList (format d) (info_type info) '',''))"

section \<open>moModule\<close>

definition stats_init :: "double \<Rightarrow> mo_module_stats_t \<Rightarrow> mo_module_stats_t" where
  "stats_init now st = st\<lparr>st_last_time := now\<rparr>"

definition stats_wait :: "double \<Rightarrow> mo_module_stats_t \<Rightarrow> mo_module_stats_t" where
  "stats_wait curtime st =
     st\<lparr>st_wait_time := dbl (st_wait_time st + dbl (curtime - st_last_time st)), st_last_time := curtime\<rparr>"

text \<open>The frame counters are \<open>unsigned long long\<close>.\<close>

definition u64 :: "nat \<Rightarrow> nat" where
  "u64 n = n mod 18446744073709551616"

definition stats_process :: "double \<Rightarrow> mo_module_stats_t \<Rightarrow> mo_module_stats_t" where
  "stats_process curtime st =
     (let s1 = st\<lparr>st_process_time := dbl (st_process_time st + dbl (curtime - st_last_time st)),
                  st_last_time := curtime,
                  st_process_frame := u64 (st_process_frame st + 1)\<rparr>;
          period = dbl (st_process_time s1 + st_wait_time s1);
          frames = dbl (of_nat (st_process_frame s1))
      in if period > 1
         then s1\<lparr>average_process_time := dbl (st_process_time s1 / frames),
                 average_wait_time := dbl (st_wait_time s1 / frames),
                 average_fps := dbl (frames / period),
                 total_wait_time := dbl (total_wait_time s1 + st_wait_time s1),
                 total_process_time := dbl (total_process_time s1 + st_process_time s1),
                 total_process_frame := u64 (total_process_frame s1 + st_process_frame s1),
                 st_process_frame := 0, st_process_time := 0, st_wait_time := 0\<rparr>
         else s1)"

definition zero_stats :: mo_module_stats_t where
  "zero_stats =
     \<lparr>average_fps = 0, average_process_time = 0, average_wait_time = 0, total_process_time = 0,
      total_wait_time = 0, total_process_frame = 0, st_process_frame = 0, st_process_time = 0,
      st_wait_time = 0, st_last_time = 0\<rparr>"

text \<open>The address of the callback \<open>module_gui_feedback_cb\<close>.\<close>

definition module_gui_feedback_addr :: callback where
  "module_gui_feedback_addr = 1"

text \<open>The base class constructor: the properties \<open>use_thread\<close> and \<open>gui_feedback\<close> exist and
  the latter carries the feedback callback with the module itself as user data.\<close>

definition moModule_ctor :: "string \<Rightarrow> string \<Rightarrow> string \<Rightarrow> nat \<Rightarrow> maddr \<Rightarrow> moModule" where
  "moModule_ctor cname cdesc cauthor caps this =
     \<lparr>class_name = cname, class_description = cdesc, class_author = cauthor,
      stats = zero_stats, capabilities = caps, is_started = False, is_error = False, error_msg = '''',
      thread = None, use_thread = False, need_update = False, need_gui_build = False,
      thread_trigger = None, owner = None, is_internal = False,
      input_map = [], output_map = [], input_infos = [], output_infos = [],
      properties = smap_set ''gui_feedback''
         ((new_cstr '''' '''')\<lparr>callbacks := [(module_gui_feedback_addr, this)]\<rparr>)
         (smap_set ''use_thread'' (new_bool False '''') []),
      gui = []\<rparr>"

text \<open>\<open>createId\<close>: the counter is an \<open>unsigned int\<close>.\<close>

definition createId :: "string \<Rightarrow> heap \<Rightarrow> string \<times> heap" where
  "createId base h = (base @ show_nat (idcount h), h\<lparr>idcount := (idcount h + 1) mod 4294967296\<rparr>)"

definition getInputCount :: "moModule \<Rightarrow> nat" where
  "getInputCount m = length (input_infos m)"

definition getOutputCount :: "moModule \<Rightarrow> nat" where
  "getOutputCount m = length (output_infos m)"

definition deref_storage :: "storage option \<Rightarrow> saddr option result" where
  "deref_storage st =
     (case st of None \<Rightarrow> Inr None | Some StorageNull \<Rightarrow> Inl NullDeref | Some (Cell c) \<Rightarrow> Inr c)"

definition getInput :: "moModule \<Rightarrow> int \<Rightarrow> saddr option result" where
  "getInput m n = deref_storage (map_of (input_map m) n)"

definition getOutput :: "moModule \<Rightarrow> int \<Rightarrow> saddr option result" where
  "getOutput m n = deref_storage (map_of (output_map m) n)"

definition getInputInfos :: "moModule \<Rightarrow> int \<Rightarrow> moDataStreamInfo option" where
  "getInputInfos m n = (case map_of (input_infos m) n of None \<Rightarrow> None | Some i \<Rightarrow> i)"

definition getOutputInfos :: "moModule \<Rightarrow> int \<Rightarrow> moDataStreamInfo option" where
  "getOutputInfos m n = (case map_of (output_infos m) n of None \<Rightarrow> None | Some i \<Rightarrow> i)"

fun index_loop :: "(int \<Rightarrow> saddr option result) \<Rightarrow> saddr option \<Rightarrow> nat \<Rightarrow> nat \<Rightarrow> int result" where
  "index_loop get ds i 0 = Inr (-1)"
| "index_loop get ds i (Suc k) =
     bindR (get (int i)) (\<lambda>x. if ds = x then Inr (int i) else index_loop get ds (Suc i) k)"

definition getInputIndex :: "moModule \<Rightarrow> saddr option \<Rightarrow> int result" where
  "getInputIndex m ds = index_loop (getInput m) ds 0 (getInputCount m)"

definition getOutputIndex :: "moModule \<Rightarrow> saddr option \<Rightarrow> int result" where
  "getOutputIndex m ds = index_loop (getOutput m) ds 0 (getOutputCount m)"

text \<open>\<open>property(name)\<close> creates a missing property and returns a reference to it: the object
  with the property present, and the property.\<close>

definition module_property :: "string \<Rightarrow> moModule \<Rightarrow> moModule \<times> moProperty" where
  "module_property str m =
     (case map_of (properties m) str of
        None \<Rightarrow> (let p = new_cstr '''' ''?? auto created ??''
                 in (m\<lparr>properties := smap_set str p (properties m)\<rparr>, p))
      | Some p \<Rightarrow> (m, p))"

definition setError :: "string \<Rightarrow> moModule \<Rightarrow> moModule" where
  "setError msg m = m\<lparr>error_msg := msg, is_error := True\<rparr>"

text \<open>\<open>getLastError\<close>: the message, and the object with the error state reset.\<close>

definition getLastError :: "moModule \<Rightarrow> (string \<times> moModule) result" where
  "getLastError m =
     (let (m1, p) = module_property ''id'' (m\<lparr>is_error := False\<rparr>)
      in mapR (\<lambda>i. (''<'' @ i @ ''> '' @ error_msg m1, m1)) (asString p))"

definition declareInput :: "int \<Rightarrow> storage \<Rightarrow> moDataStreamInfo option \<Rightarrow> moModule \<Rightarrow> moModule result" where
  "declareInput n st info m =
     (if info = None then Inl AssertFailed
      else if st = StorageNull then Inl AssertFailed
      else Inr (m\<lparr>input_map := smap_set n st (input_map m),
                  input_infos := smap_set n info (input_infos m)\<rparr>))"

definition declareOutput :: "int \<Rightarrow> storage \<Rightarrow> moDataStreamInfo option \<Rightarrow> moModule \<Rightarrow> moModule result" where
  "declareOutput n st info m =
     (if info = None then Inl AssertFailed
      else if st = StorageNull then Inl AssertFailed
      else Inr (m\<lparr>output_map := smap_set n st (output_map m),
                  output_infos := smap_set n info (output_infos m)\<rparr>))"

definition setOutputType :: "int \<Rightarrow> string \<Rightarrow> maddr \<Rightarrow> heap \<Rightarrow> heap result" where
  "setOutputType n type this h =
     bindR (get_module h this) (\<lambda>m. bindR (getOutput m n) (\<lambda>stream.
       bindR (case stream of None \<Rightarrow> Inr h | Some s \<Rightarrow> setFormat type s h) (\<lambda>h1.
         case getOutputInfos m n of
           None \<Rightarrow> Inr h1
         | Some info \<Rightarrow>
             Inr (put_module this
                    (m\<lparr>output_infos := smap_set n (Some (info\<lparr>info_type := type\<rparr>)) (output_infos m)\<rparr>) h1))))"

definition setInputType :: "int \<Rightarrow> string \<Rightarrow> maddr \<Rightarrow> heap \<Rightarrow> heap result" where
  "setInputType n type this h =
     bindR (get_module h this) (\<lambda>m. bindR (getInput m n) (\<lambda>stream.
       bindR (case stream of None \<Rightarrow> Inr h | Some s \<Rightarrow> setFormat type s h) (\<lambda>h1.
         case getInputInfos m n of
           None \<Rightarrow> Inr h1
         | Some info \<Rightarrow>
             Inr (put_module this
                    (m\<lparr>input_infos := smap_set n (Some (info\<lparr>info_type := type\<rparr>)) (input_infos m)\<rparr>) h1))))"

text \<open>\<open>setInput\<close>. \<open>input_infos[n]\<close> inserts a null pointer when there is no entry.\<close>

definition set_cell :: "int \<Rightarrow> saddr option \<Rightarrow> moModule \<Rightarrow> moModule" where
  "set_cell n s m = m\<lparr>input_map := smap_set n (Cell s) (input_map m)\<rparr>"

definition touch_info :: "int \<Rightarrow> moModule \<Rightarrow> moModule" where
  "touch_info n m =
     (if map_of (input_infos m) n = None then m\<lparr>input_infos := smap_set n None (input_infos m)\<rparr> else m)"

definition input_mismatch_msg :: "int \<Rightarrow> string \<Rightarrow> string \<Rightarrow> string" where
  "input_mismatch_msg n type fmt =
     ''Input '' @ show_int n @ '' accepts <'' @ type @ ''> but got <'' @ fmt @ ''>''"

definition setInput :: "saddr option \<Rightarrow> int \<Rightarrow> maddr \<Rightarrow> heap \<Rightarrow> heap result" where
  "setInput stream n this h =
     bindR (get_module h this) (\<lambda>m.
       case map_of (input_map m) n of
         None \<Rightarrow> upd_module (setError ''Invalid input index'') this h
       | Some StorageNull \<Rightarrow> upd_module (setError ''Invalid input mapping'') this h
       | Some (Cell cur) \<Rightarrow>
           bindR (upd_module (touch_info n) this h) (\<lambda>h0.
           bindR (case cur of None \<Rightarrow> Inr h0 | Some s \<Rightarrow> removeObserver s this h0) (\<lambda>h1.
           bindR (upd_module (set_cell n stream) this h1) (\<lambda>h2.
             case stream of
               None \<Rightarrow> Inr h2
             | Some s \<Rightarrow>
                 (case getInputInfos m n of
                    None \<Rightarrow> Inl NullDeref
                  | Some info \<Rightarrow>
                      bindR (isStreamValid info h2 stream) (\<lambda>valid.
                        if valid then addObserver s this h2
                        else bindR (get_stream h2 s) (\<lambda>d.
                               upd_module (\<lambda>m. set_cell n None
                                 (setError (input_mismatch_msg n (info_type info) (format d)) m))
                                 this h2)))))))"

section \<open>Basic facts\<close>

lemma store_simps [simp]:
  "mods (put_module a m h) = (mods h)(a := Some m)"
  "streams (put_module a m h) = streams h"
  "mods (put_stream s d h) = mods h"
  "streams (put_stream s d h) = (streams h)(s := Some d)"
  "free_mods (put_module a m h) = free_mods h" "free_streams (put_module a m h) = free_streams h"
  "free_mods (put_stream s d h) = free_mods h" "free_streams (put_stream s d h) = free_streams h"
  by (simp_all add: put_module_def put_stream_def)

lemma get_module_eq [simp]: "get_module h a = Inr m \<longleftrightarrow> mods h a = Some m"
  by (simp add: get_module_def split: option.splits)

lemma get_stream_eq [simp]: "get_stream h s = Inr d \<longleftrightarrow> streams h s = Some d"
  by (simp add: get_stream_def split: option.splits)

lemma get_module_Some: "mods h a = Some m \<Longrightarrow> get_module h a = Inr m"
  by simp

lemma get_stream_Some: "streams h s = Some d \<Longrightarrow> get_stream h s = Inr d"
  by simp

lemma upd_module_Some: "mods h a = Some m \<Longrightarrow> upd_module f a h = Inr (put_module a (f m) h)"
  by (simp add: upd_module_def get_module_Some)

lemma upd_stream_Some: "streams h s = Some d \<Longrightarrow> upd_stream f s h = Inr (put_stream s (f d) h)"
  by (simp add: upd_stream_def get_stream_Some)

lemmas store_eval = upd_module_Some upd_stream_Some get_module_Some get_stream_Some

lemma touch_info_fields [simp]:
  "input_map (touch_info n m) = input_map m" "properties (touch_info n m) = properties m"
  "output_map (touch_info n m) = output_map m" "output_infos (touch_info n m) = output_infos m"
  by (simp_all add: touch_info_def)

lemma set_cell_fields [simp]:
  "input_map (set_cell n s m) = smap_set n (Cell s) (input_map m)"
  "input_infos (set_cell n s m) = input_infos m" "properties (set_cell n s m) = properties m"
  "output_map (set_cell n s m) = output_map m" "output_infos (set_cell n s m) = output_infos m"
  by (simp_all add: set_cell_def)

lemma setError_fields [simp]:
  "input_map (setError e m) = input_map m" "input_infos (setError e m) = input_infos m"
  "properties (setError e m) = properties m" "output_map (setError e m) = output_map m"
  "output_infos (setError e m) = output_infos m" "is_error (setError e m)"
  "error_msg (setError e m) = e"
  by (simp_all add: setError_def)

lemma index_loop_SomeD:
  "index_loop get ds i k = Inr j \<Longrightarrow> 0 \<le> j \<Longrightarrow> int i \<le> j \<and> j < int (i + k) \<and> get j = Inr ds"
proof (induction get ds i k rule: index_loop.induct)
  case (2 get ds i k)
  then obtain x where x: "get (int i) = Inr x"
    "(if ds = x then Inr (int i) else index_loop get ds (Suc i) k) = Inr j"
    by (auto simp: bindR_eq_Inr)
  show ?case
  proof (cases "ds = x")
    case True
    with x show ?thesis by auto
  next
    case False
    with x 2 have "int (Suc i) \<le> j \<and> j < int (Suc i + k) \<and> get j = Inr ds" by auto
    then show ?thesis by auto
  qed
qed simp

text \<open>\<open>setInput(NULL, n)\<close> on an attached input.\<close>

lemma setInput_NULL_attached:
  assumes "mods h a = Some m" "map_of (input_map m) n = Some (Cell (Some s))" "streams h s = Some d"
  shows "setInput None n a h = Inr
    (put_module a (set_cell n None (touch_info n m))
      (put_stream s (d\<lparr>observers := erase_first a (observers d)\<rparr>) (put_module a (touch_info n m) h)))"
  using assms by (simp add: setInput_def removeObserver_def store_eval)

section \<open>removeObservers\<close>

text \<open>The two nested loops look for an observer with an input attached to this stream; when
  one is found it is detached and the search starts over.\<close>

fun find_attached :: "heap \<Rightarrow> saddr \<Rightarrow> maddr list \<Rightarrow> (maddr \<times> int) option result" where
  "find_attached h s [] = Inr None"
| "find_attached h s (it # its) =
     bindR (get_module h it) (\<lambda>m. bindR (getInputIndex m (Some s)) (\<lambda>i.
       if 0 \<le> i then Inr (Some (it, i)) else find_attached h s its))"

lemma find_attached_SomeD:
  "find_attached h s its = Inr (Some (a, i)) \<Longrightarrow>
     a \<in> set its \<and> (\<exists>m. mods h a = Some m \<and> getInput m i = Inr (Some s))"
  by (induction h s its rule: find_attached.induct)
    (auto simp: bindR_eq_Inr getInputIndex_def dest: index_loop_SomeD split: if_splits)

lemma getInput_attached [simp]:
  "getInput m i = Inr (Some s) \<longleftrightarrow> map_of (input_map m) i = Some (Cell (Some s))"
  by (auto simp: getInput_def deref_storage_def split: option.splits storage.splits)

lemma length_erase_first: "x \<in> set xs \<Longrightarrow> length (erase_first x xs) < length xs"
  by (induction xs) auto

function removeObservers :: "saddr \<Rightarrow> heap \<Rightarrow> heap result" where
  "removeObservers s h =
     (case get_stream h s of
        Inl e \<Rightarrow> Inl e
      | Inr d \<Rightarrow>
          (case find_attached h s (observers d) of
             Inl e \<Rightarrow> Inl e
           | Inr None \<Rightarrow> upd_stream (\<lambda>d. d\<lparr>observers := []\<rparr>) s h
           | Inr (Some (it, i)) \<Rightarrow>
               (case setInput None i it h of
                  Inl e \<Rightarrow> Inl e
                | Inr h' \<Rightarrow> removeObservers s h')))"
  by pat_completeness auto

lemma removeObservers_step_decreases:
  assumes "streams h s = Some d" "find_attached h s (observers d) = Inr (Some (it, i))"
    and "setInput None i it h = Inr h'"
  shows "\<exists>d'. streams h' s = Some d' \<and> length (observers d') < length (observers d)"
proof -
  obtain m where m: "it \<in> set (observers d)" "mods h it = Some m"
    "map_of (input_map m) i = Some (Cell (Some s))"
    using find_attached_SomeD [OF assms(2)] by auto
  with assms(1,3) setInput_NULL_attached [OF m(2,3) assms(1)] show ?thesis
    by (auto simp: length_erase_first)
qed

termination removeObservers
proof (relation "measure (\<lambda>(s, h). case streams h s of None \<Rightarrow> 0 | Some d \<Rightarrow> length (observers d))",
    goal_cases)
  case (2 s h d x y it i h')
  then show ?case
    using removeObservers_step_decreases [of h s d it i h'] by auto
qed simp

declare removeObservers.simps [simp del]

section \<open>The invariant\<close>

text \<open>The inputs of a module are declared at the indices \<open>0, 1, \<dots>\<close>, each with a storage and
  an information record, and so are its outputs; its properties are well formed.\<close>

definition io_ok :: "(int, storage) smap \<Rightarrow> (int, moDataStreamInfo option) smap \<Rightarrow> bool" where
  "io_ok im infos \<longleftrightarrow>
     map fst im = map int [0..<length im] \<and> map fst infos = map fst im \<and>
     StorageNull \<notin> snd ` set im \<and> None \<notin> snd ` set infos"

definition module_ok :: "moModule \<Rightarrow> bool" where
  "module_ok m \<longleftrightarrow>
     io_ok (input_map m) (input_infos m) \<and> io_ok (output_map m) (output_infos m) \<and>
     smap_wf (properties m) \<and> (\<forall>p \<in> snd ` set (properties m). prop_wf p)"

text \<open>How many inputs of the module are attached to the stream.\<close>

definition cells_to :: "moModule \<Rightarrow> saddr \<Rightarrow> nat" where
  "cells_to m s = length (filter (\<lambda>c. snd c = Cell (Some s)) (input_map m))"

text \<open>A stream is published when it is an output of some module.\<close>

definition published :: "heap \<Rightarrow> saddr \<Rightarrow> bool" where
  "published h s \<longleftrightarrow> (\<exists>b m n. mods h b = Some m \<and> map_of (output_map m) n = Some (Cell (Some s)))"

lemma published_cong:
  assumes "\<And>b. map_option output_map (mods h' b) = map_option output_map (mods h b)"
  shows "published h' s = published h s"
proof -
  have "published k s \<longleftrightarrow> (\<exists>b om n. map_option output_map (mods k b) = Some om \<and>
      map_of om n = Some (Cell (Some s)))" for k
    by (auto simp: published_def)
  then show ?thesis using assms by (simp only:)
qed

definition attached :: "heap \<Rightarrow> maddr \<Rightarrow> saddr \<Rightarrow> nat" where
  "attached h a s = (case mods h a of None \<Rightarrow> 0 | Some m \<Rightarrow> cells_to m s)"

text \<open>No pointer of the graph dangles; a module never observes a stream more often than it has
  inputs attached to it, and exactly as often when the stream is an output. (The web stream
  module starts with its input on a private stream that it does not observe.)\<close>

definition graph_ok :: "heap \<Rightarrow> bool" where
  "graph_ok h \<longleftrightarrow>
     (\<forall>a m. mods h a = Some m \<longrightarrow>
        module_ok m \<and>
        (\<forall>n s. map_of (input_map m) n = Some (Cell (Some s)) \<longrightarrow> streams h s \<noteq> None) \<and>
        (\<forall>n s. map_of (output_map m) n = Some (Cell (Some s)) \<longrightarrow> streams h s \<noteq> None)) \<and>
     (\<forall>s d a. streams h s = Some d \<longrightarrow>
        count_list (observers d) a \<le> attached h a s \<and>
        (published h s \<longrightarrow> count_list (observers d) a = attached h a s))"

lemma graph_okD:
  assumes "graph_ok h"
  shows "mods h a = Some m \<Longrightarrow> module_ok m"
    and "mods h a = Some m \<Longrightarrow> map_of (input_map m) n = Some (Cell (Some s)) \<Longrightarrow> \<exists>d. streams h s = Some d"
    and "mods h a = Some m \<Longrightarrow> map_of (output_map m) n = Some (Cell (Some s)) \<Longrightarrow> \<exists>d. streams h s = Some d"
    and "streams h s = Some d \<Longrightarrow> mods h a = Some m \<Longrightarrow> count_list (observers d) a \<le> cells_to m s"
    and "streams h s = Some d \<Longrightarrow> a \<in> set (observers d) \<Longrightarrow> \<exists>m. mods h a = Some m"
    and "streams h s = Some d \<Longrightarrow> published h s \<Longrightarrow> count_list (observers d) a = attached h a s"
    and "streams h s = Some d \<Longrightarrow> count_list (observers d) a \<le> attached h a s"
proof -
  show "count_list (observers d) a \<le> cells_to m s" if "streams h s = Some d" "mods h a = Some m"
  proof -
    have "count_list (observers d) a \<le> attached h a s"
      using assms that unfolding graph_ok_def by blast
    with that show ?thesis by (simp add: attached_def)
  qed
  show "\<exists>m. mods h a = Some m" if "streams h s = Some d" "a \<in> set (observers d)"
  proof (rule ccontr)
    assume "\<not> ?thesis"
    then have "mods h a = None" by auto
    then have "attached h a s = 0" by (simp add: attached_def)
    moreover have "count_list (observers d) a \<le> attached h a s"
      using assms that unfolding graph_ok_def by blast
    ultimately show False using that(2) by (simp add: count_list_0_iff)
  qed
  show "module_ok m" if "mods h a = Some m" using assms that unfolding graph_ok_def by blast
  show "\<exists>d. streams h s = Some d" if "mods h a = Some m" "map_of (input_map m) n = Some (Cell (Some s))"
    using assms that unfolding graph_ok_def by fast
  show "\<exists>d. streams h s = Some d" if "mods h a = Some m" "map_of (output_map m) n = Some (Cell (Some s))"
    using assms that unfolding graph_ok_def by fast
  show "count_list (observers d) a = attached h a s" if "streams h s = Some d" "published h s"
    using assms that unfolding graph_ok_def by fast
  show "count_list (observers d) a \<le> attached h a s" if "streams h s = Some d"
    using assms that unfolding graph_ok_def by fast
qed

lemma sorted_int_upt: "sorted_wrt (<) (map int [0..<k])"
  by (simp add: sorted_wrt_map)

lemma io_ok_wf: "io_ok im infos \<Longrightarrow> smap_wf im \<and> smap_wf infos"
  unfolding io_ok_def smap_wf_def using sorted_int_upt by metis

lemma smap_set_present:
  "smap_wf m \<Longrightarrow> map_of m k = Some v \<Longrightarrow>
     map fst (smap_set k w m) = map fst m \<and> length (smap_set k w m) = length m"
proof (induction m)
  case (Cons p m)
  obtain k' v' where p: "p = (k', v')" by (cases p)
  show ?case
  proof (cases "k = k'")
    case False
    with Cons.prems p have "map_of m k = Some v" by simp
    moreover from this have "k \<in> fst ` set m" by (metis domI dom_map_of_conv_image_fst)
    ultimately show ?thesis using Cons p False by (auto simp: smap_wf_Cons)
  qed (use p in simp)
qed simp

lemma set_smap_set: "set (smap_set k w m) \<subseteq> insert (k, w) (set m)"
  by (induction k w m rule: smap_set.induct) auto

lemma io_ok_set_cell:
  assumes "io_ok im infos" "map_of im n = Some c"
  shows "io_ok (smap_set n (Cell s) im) infos"
  using assms smap_set_present [of im n c "Cell s"] io_ok_wf [OF assms(1)]
    set_smap_set [of n "Cell s" im]
  unfolding io_ok_def by auto

lemma io_ok_info:
  assumes "io_ok im infos" "map_of im n = Some c"
  obtains i where "map_of infos n = Some (Some i)"
proof -
  have "n \<in> fst ` set im" using assms(2) by (metis domI dom_map_of_conv_image_fst)
  then have "n \<in> fst ` set infos" using assms(1) unfolding io_ok_def by (metis list.set_map)
  then obtain x where x: "map_of infos n = Some x" by (metis domD dom_map_of_conv_image_fst)
  then have "(n, x) \<in> set infos" by (rule map_of_SomeD)
  then have "x \<noteq> None" using assms(1) unfolding io_ok_def by (metis image_eqI snd_conv)
  with x show ?thesis using that by auto
qed

lemma touch_info_id: "module_ok m \<Longrightarrow> map_of (input_map m) n = Some c \<Longrightarrow> touch_info n m = m"
  by (auto simp: touch_info_def module_ok_def elim: io_ok_info)

lemma module_ok_set_cell:
  "module_ok m \<Longrightarrow> map_of (input_map m) n = Some c \<Longrightarrow> module_ok (set_cell n s m)"
  by (auto simp: module_ok_def intro: io_ok_set_cell)

lemma module_ok_setError [simp]: "module_ok (setError e m) = module_ok m"
  by (simp add: module_ok_def)

lemma filter_smap_set:
  "smap_wf m \<Longrightarrow> map_of m k = Some v \<Longrightarrow>
     length (filter (\<lambda>c. snd c = x) (smap_set k w m)) + (if v = x then 1 else 0) =
     length (filter (\<lambda>c. snd c = x) m) + (if w = x then 1 else 0)"
proof (induction m)
  case (Cons p m)
  obtain k' v' where p: "p = (k', v')" by (cases p)
  show ?case
  proof (cases "k = k'")
    case False
    with Cons.prems p have "map_of m k = Some v" by simp
    moreover from this have "k \<in> fst ` set m" by (metis domI dom_map_of_conv_image_fst)
    ultimately show ?thesis using Cons p False by (auto simp: smap_wf_Cons)
  qed (use Cons p in simp)
qed simp

lemma cells_to_set_cell:
  assumes "module_ok m" "map_of (input_map m) n = Some (Cell c)"
  shows "cells_to (set_cell n c' m) s + (if c = Some s then 1 else 0) =
    cells_to m s + (if c' = Some s then 1 else 0)"
  using filter_smap_set [of "input_map m" n "Cell c" "Cell (Some s)" "Cell c'"] assms io_ok_wf
  unfolding module_ok_def cells_to_def by auto

lemma cells_to_setError [simp]: "cells_to (setError e m) s = cells_to m s"
  by (simp add: cells_to_def)

section \<open>setInput keeps the graph consistent\<close>

lemma put_module_same [simp]: "mods h a = Some m \<Longrightarrow> put_module a m h = h"
  by (simp add: put_module_def fun_upd_idem)

lemma graph_ok_rewire:
  assumes ok: "graph_ok h" and a: "mods h a = Some m"
    and cell: "map_of (input_map m) n = Some (Cell c)"
    and m': "input_map m' = smap_set n (Cell c') (input_map m)" "output_map m' = output_map m" "module_ok m'"
    and mods': "mods h' = (mods h)(a := Some m')"
    and live: "\<And>s. c' = Some s \<Longrightarrow> streams h s \<noteq> None"
    and dom': "\<And>s. streams h' s \<noteq> None \<longleftrightarrow> streams h s \<noteq> None"
    and obs: "\<And>s d d' b. streams h s = Some d \<Longrightarrow> streams h' s = Some d' \<Longrightarrow>
       count_list (observers d') b =
         (if b = a then count_list (observers d) a - (if c = Some s then 1 else 0) + (if c' = Some s then 1 else 0)
          else count_list (observers d) b)"
  shows "graph_ok h'"
proof -
  have cells: "cells_to m' s + (if c = Some s then 1 else 0) = cells_to m s + (if c' = Some s then 1 else 0)" for s
    using cells_to_set_cell [OF graph_okD(1) [OF ok a] cell, of c' s] m'
    by (simp add: cells_to_def)
  have inp: "streams h' s \<noteq> None"
    if "mods h' b = Some mb" "map_of (input_map mb) k = Some (Cell (Some s))" for b mb k s
  proof (cases "b = a \<and> k = n")
    case True
    with that mods' m' live dom' show ?thesis by auto
  next
    case False
    with that mods' m' a have "\<exists>mm. mods h b = Some mm \<and> map_of (input_map mm) k = Some (Cell (Some s))"
      by (auto split: if_splits)
    with graph_okD(2) [OF ok] dom' show ?thesis by fastforce
  qed
  have outp: "streams h' s \<noteq> None"
    if "mods h' b = Some mb" "map_of (output_map mb) k = Some (Cell (Some s))" for b mb k s
  proof -
    have "\<exists>mm. mods h b = Some mm \<and> map_of (output_map mm) k = Some (Cell (Some s))"
      using that mods' m' a by (auto split: if_splits)
    with graph_okD(3) [OF ok] dom' show ?thesis by fastforce
  qed
  have mok: "module_ok mb" if "mods h' b = Some mb" for b mb
    using that mods' m' graph_okD(1) [OF ok] by (auto split: if_splits)
  have pub: "published h' s = published h s" for s
    by (rule published_cong) (simp add: mods' m'(2) a)
  have cnt: "count_list (observers d') b \<le> attached h' b s \<and>
      (published h' s \<longrightarrow> count_list (observers d') b = attached h' b s)"
    if d': "streams h' s = Some d'" for s d' b
  proof -
    from d' dom' [of s] obtain d where d: "streams h s = Some d" by auto
    have le: "count_list (observers d) b \<le> attached h b s"
      and eq: "published h s \<Longrightarrow> count_list (observers d) b = attached h b s"
      using graph_okD(6,7) [OF ok d] by auto
    show ?thesis
    proof (cases "b = a")
      case True
      have "c = Some s \<Longrightarrow> 1 \<le> cells_to m s"
        using cells_to_set_cell [OF graph_okD(1) [OF ok a] cell, of None s] by simp
      with True obs [OF d d', of b] cells [of s] le eq a pub [of s] mods'
      show ?thesis by (auto simp: attached_def split: if_splits)
    next
      case False
      then have "attached h' b s = attached h b s" by (simp add: attached_def mods')
      with False obs [OF d d', of b] le eq pub [of s] show ?thesis by simp
    qed
  qed
  show ?thesis unfolding graph_ok_def using inp outp mok cnt by blast
qed

lemma graph_ok_update_module:
  assumes "graph_ok h" "mods h a = Some m" "module_ok m'"
    and "input_map m' = input_map m" "output_map m' = output_map m"
  shows "graph_ok (put_module a m' h)"
proof -
  have att: "attached (put_module a m' h) b s = attached h b s" for b s
    using assms(2,4) by (simp add: attached_def cells_to_def)
  have pub: "published (put_module a m' h) s = published h s" for s
    by (rule published_cong) (simp add: assms(2,5))
  show ?thesis
    using assms unfolding graph_ok_def att pub by (auto split: if_splits)
qed

text \<open>The store after the old connection of an input is dropped and the new one written.\<close>

definition detach :: "saddr option \<Rightarrow> maddr \<Rightarrow> heap \<Rightarrow> heap" where
  "detach c a h =
     (case c of None \<Rightarrow> h
      | Some s \<Rightarrow> (case streams h s of None \<Rightarrow> h
                  | Some d \<Rightarrow> put_stream s (d\<lparr>observers := erase_first a (observers d)\<rparr>) h))"

lemma mods_detach [simp]: "mods (detach c a h) = mods h"
  by (simp add: detach_def split: option.splits)

lemma streams_detach:
  "streams (detach c a h) s = map_option (\<lambda>d.
     if c = Some s then d\<lparr>observers := erase_first a (observers d)\<rparr> else d) (streams h s)"
  by (cases "streams h s") (auto simp: detach_def split: option.splits)

lemma setInput_prefix:
  assumes "graph_ok h" "mods h a = Some m" "map_of (input_map m) n = Some (Cell c)"
  obtains info where "getInputInfos m n = Some info"
    and "\<forall>stream. setInput stream n a h =
      (let h2 = put_module a (set_cell n stream m) (detach c a h) in
       case stream of None \<Rightarrow> Inr h2
       | Some s \<Rightarrow> bindR (isStreamValid info h2 stream) (\<lambda>valid.
           if valid then addObserver s a h2
           else bindR (get_stream h2 s) (\<lambda>d.
             upd_module (\<lambda>m. set_cell n None
               (setError (input_mismatch_msg n (info_type info) (format d)) m)) a h2)))"
proof -
  have mok: "module_ok m" using graph_okD(1) [OF assms(1,2)] .
  then obtain info where info: "map_of (input_infos m) n = Some (Some info)"
    using assms(3) by (auto simp: module_ok_def elim: io_ok_info)
  have det: "(case c of None \<Rightarrow> Inr h | Some s \<Rightarrow> removeObserver s a h) = Inr (detach c a h)"
  proof (cases c)
    case (Some s)
    with assms(3) graph_okD(2) [OF assms(1,2)] obtain d where "streams h s = Some d" by blast
    with Some show ?thesis by (simp add: removeObserver_def detach_def store_eval)
  qed (simp add: detach_def)
  show thesis
  proof (rule that)
    show inf: "getInputInfos m n = Some info" using info by (simp add: getInputInfos_def)
    show "\<forall>stream. setInput stream n a h =
      (let h2 = put_module a (set_cell n stream m) (detach c a h) in
       case stream of None \<Rightarrow> Inr h2
       | Some s \<Rightarrow> bindR (isStreamValid info h2 stream) (\<lambda>valid.
           if valid then addObserver s a h2
           else bindR (get_stream h2 s) (\<lambda>d.
             upd_module (\<lambda>m. set_cell n None
               (setError (input_mismatch_msg n (info_type info) (format d)) m)) a h2)))"
      using assms(2,3) det inf touch_info_id [OF mok assms(3)]
      by (simp add: setInput_def store_eval Let_def split: option.split)
  qed
qed

text \<open>The formats an input accepts.\<close>

definition accepts :: "moDataStreamInfo \<Rightarrow> string \<Rightarrow> bool" where
  "accepts info fmt \<longleftrightarrow>
     info_type info = ''*'' \<or> (fmt \<noteq> [] \<and> fmt \<in> set (split_on (CHR '','') (info_type info)))"

lemma isStreamValid_ok:
  "streams h s = Some d \<Longrightarrow> isStreamValid info h (Some s) = Inr (accepts info (format d))"
  by (auto simp: isStreamValid_def accepts_def store_eval inList_runs runs_split_on)

lemma setInput_NULL_ok:
  assumes "graph_ok h" "mods h a = Some m" "map_of (input_map m) n = Some (Cell c)"
  shows "setInput None n a h = Inr (put_module a (set_cell n None m) (detach c a h)) \<and>
    graph_ok (put_module a (set_cell n None m) (detach c a h))"
proof
  show "setInput None n a h = Inr (put_module a (set_cell n None m) (detach c a h))"
    using setInput_prefix [OF assms] by (metis (no_types, lifting) option.simps(4))
  show "graph_ok (put_module a (set_cell n None m) (detach c a h))"
    using assms(3) module_ok_set_cell [OF graph_okD(1) [OF assms(1,2)] assms(3)]
    by (intro graph_ok_rewire [OF assms, of _ None])
      (auto simp: streams_detach count_list_erase_first split: if_splits)
qed

lemma setInput_stream_ok:
  assumes "graph_ok h" "mods h a = Some m" "map_of (input_map m) n = Some (Cell c)"
    and "streams h s = Some d"
  obtains info h' where "getInputInfos m n = Some info" "setInput (Some s) n a h = Inr h'" "graph_ok h'"
    and "if accepts info (format d)
         then mods h' = (mods h)(a := Some (set_cell n (Some s) m)) \<and>
              streams h' = streams (put_stream s (the (streams (detach c a h) s)
                \<lparr>observers := observers (the (streams (detach c a h) s)) @ [a]\<rparr>) (detach c a h))
         else mods h' = (mods h)(a := Some (set_cell n None
                (setError (input_mismatch_msg n (info_type info) (format d)) (set_cell n (Some s) m)))) \<and>
              streams h' = streams (detach c a h)"
proof -
  obtain info where info: "getInputInfos m n = Some info"
    and eq: "\<forall>stream. setInput stream n a h =
      (let h2 = put_module a (set_cell n stream m) (detach c a h) in
       case stream of None \<Rightarrow> Inr h2
       | Some s \<Rightarrow> bindR (isStreamValid info h2 stream) (\<lambda>valid.
           if valid then addObserver s a h2
           else bindR (get_stream h2 s) (\<lambda>d.
             upd_module (\<lambda>m. set_cell n None
               (setError (input_mismatch_msg n (info_type info) (format d)) m)) a h2)))"
    by (rule setInput_prefix [OF assms(1-3)])
  let ?h2 = "put_module a (set_cell n (Some s) m) (detach c a h)"
  define d2 where "d2 = (if c = Some s then d\<lparr>observers := erase_first a (observers d)\<rparr> else d)"
  have d2: "streams (detach c a h) s = Some d2" "format d2 = format d"
    using assms(4) by (simp_all add: streams_detach d2_def)
  then have s2: "streams ?h2 s = Some d2" by simp
  have mok: "module_ok m" using graph_okD(1) [OF assms(1,2)] .
  show thesis
  proof (cases "accepts info (format d)")
    case True
    let ?h' = "put_stream s (d2\<lparr>observers := observers d2 @ [a]\<rparr>) ?h2"
    have set: "setInput (Some s) n a h = Inr ?h'"
      using True s2 d2 by (simp add: eq [rule_format] Let_def isStreamValid_ok [OF s2] addObserver_def store_eval)
    moreover have "graph_ok ?h'"
      using assms(3,4) module_ok_set_cell [OF mok assms(3)]
      by (intro graph_ok_rewire [OF assms(1-3), of _ "Some s"])
        (auto simp: streams_detach count_list_erase_first d2_def split: if_splits)
    ultimately show thesis using True d2 info by (intro that [of info ?h']) auto
  next
    case False
    let ?m' = "set_cell n None (setError (input_mismatch_msg n (info_type info) (format d)) (set_cell n (Some s) m))"
    let ?h' = "put_module a ?m' ?h2"
    have set: "setInput (Some s) n a h = Inr ?h'"
      using False s2 d2 by (simp add: eq [rule_format] Let_def isStreamValid_ok [OF s2] store_eval)
    have wf: "smap_wf (input_map m)" using mok io_ok_wf by (auto simp: module_ok_def)
    have "module_ok ?m'"
      using module_ok_set_cell [OF module_ok_set_cell [OF mok assms(3), of "Some s"], of n "Cell (Some s)" None]
        module_ok_set_cell [of "setError (input_mismatch_msg n (info_type info) (format d)) (set_cell n (Some s) m)"
          n "Cell (Some s)" None] module_ok_set_cell [OF mok assms(3)] by simp
    then have "graph_ok ?h'"
      using wf by (intro graph_ok_rewire [OF assms(1-3), of ?m' None])
        (auto simp: streams_detach count_list_erase_first sm.upd_upd_same split: if_splits)
    with set False d2 info show thesis by (intro that [of info ?h']) auto
  qed
qed

lemma setInput_ok:
  assumes "graph_ok h" "mods h a = Some m" "\<And>s. stream = Some s \<Longrightarrow> streams h s \<noteq> None"
  obtains h' where "setInput stream n a h = Inr h'" "graph_ok h'"
proof (cases "map_of (input_map m) n")
  case None
  then have "setInput stream n a h = Inr (put_module a (setError ''Invalid input index'' m) h)"
    using assms(2) by (simp add: setInput_def store_eval)
  moreover have "graph_ok (put_module a (setError ''Invalid input index'' m) h)"
    by (rule graph_ok_update_module [OF assms(1,2)]) (use graph_okD(1) [OF assms(1,2)] in simp_all)
  ultimately show thesis by (rule that)
next
  case (Some st)
  have "StorageNull \<notin> snd ` set (input_map m)"
    using graph_okD(1) [OF assms(1,2)] by (simp add: module_ok_def io_ok_def)
  with Some obtain c where c: "st = Cell c"
    by (cases st) (auto dest!: map_of_SomeD simp: image_iff)
  with Some have cell: "map_of (input_map m) n = Some (Cell c)" by simp
  show thesis
  proof (cases stream)
    case None
    with setInput_NULL_ok [OF assms(1,2) cell] show thesis by (auto intro: that)
  next
    case (Some s)
    with assms(3) obtain d where "streams h s = Some d" by blast
    from setInput_stream_ok [OF assms(1,2) cell this] Some show thesis by (metis that)
  qed
qed

section \<open>What rewiring leaves alone\<close>

definition inner :: "moModule \<Rightarrow> string \<times> (string, moProperty) smap \<times> bool \<times> bool option \<times> bool option \<times> (int, storage) smap" where
  "inner m = (class_name m, properties m, use_thread m, thread m, thread_trigger m, output_map m)"

text \<open>Only connections, observers and error states differ.\<close>

definition calm :: "heap \<Rightarrow> heap \<Rightarrow> bool" where
  "calm h h' \<longleftrightarrow>
     (\<forall>b. map_option inner (mods h' b) = map_option inner (mods h b)) \<and>
     (\<forall>s. (streams h' s = None) = (streams h s = None)) \<and>
     free_mods h' = free_mods h \<and> free_streams h' = free_streams h"

lemma calm_refl [simp]: "calm h h"
  by (simp add: calm_def)

lemma calm_trans: "calm h h' \<Longrightarrow> calm h' h'' \<Longrightarrow> calm h h''"
  by (simp add: calm_def)

lemma calm_upd_module: "upd_module f a h = Inr h' \<Longrightarrow> (\<And>m. inner (f m) = inner m) \<Longrightarrow> calm h h'"
  by (cases "mods h a") (auto simp: upd_module_def get_module_def calm_def)

lemma calm_upd_stream: "upd_stream f s h = Inr h' \<Longrightarrow> calm h h'"
  by (cases "streams h s") (auto simp: upd_stream_def get_stream_def calm_def split: if_splits)

lemma inner_simps [simp]:
  "inner (setError e m) = inner m" "inner (set_cell n c m) = inner m" "inner (touch_info n m) = inner m"
  by (simp_all add: inner_def setError_def set_cell_def touch_info_def)

lemma setInput_calm:
  assumes "setInput stream n a h = Inr h'"
  shows "calm h h'"
proof -
  obtain m where m: "mods h a = Some m" using assms by (auto simp: setInput_def bindR_eq_Inr)
  show ?thesis
  proof (cases "\<exists>cur. map_of (input_map m) n = Some (Cell cur)")
    case False
    then have "\<exists>e. upd_module (setError e) a h = Inr h'"
      using assms m by (auto simp: setInput_def store_eval split: option.splits storage.splits)
    then show ?thesis using calm_upd_module by fastforce
  next
    case True
    then obtain cur where cur: "map_of (input_map m) n = Some (Cell cur)" by blast
    obtain h0 h1 h2 where h0: "upd_module (touch_info n) a h = Inr h0"
      and h1: "(case cur of None \<Rightarrow> Inr h0 | Some s \<Rightarrow> removeObserver s a h0) = Inr h1"
      and h2: "upd_module (set_cell n stream) a h1 = Inr h2"
      and t: "(case stream of None \<Rightarrow> Inr h2
        | Some s \<Rightarrow> (case getInputInfos m n of None \<Rightarrow> Inl NullDeref
           | Some info \<Rightarrow> bindR (isStreamValid info h2 stream) (\<lambda>valid.
               if valid then addObserver s a h2
               else bindR (get_stream h2 s) (\<lambda>d. upd_module (\<lambda>m. set_cell n None
                      (setError (input_mismatch_msg n (info_type info) (format d)) m)) a h2)))) = Inr h'"
      using assms m cur by (simp add: setInput_def get_module_Some bindR_eq_Inr) blast
    have r: "stream = None \<and> h' = h2 \<or> (\<exists>s. addObserver s a h2 = Inr h') \<or>
        (\<exists>e. upd_module (\<lambda>m. set_cell n None (setError e m)) a h2 = Inr h')"
    proof (cases stream)
      case (Some s)
      with t obtain info v where i: "getInputInfos m n = Some info"
        "isStreamValid info h2 stream = Inr v" by (auto simp: bindR_eq_Inr split: option.splits)
      with t Some show ?thesis by (cases v) (auto simp: bindR_eq_Inr)
    qed (use t in simp)
    have c1: "calm h0 h1" using h1 calm_upd_stream by (cases cur) (auto simp: removeObserver_def)
    have c2: "calm h2 h'" using r calm_upd_stream calm_upd_module by (fastforce simp: addObserver_def)
    show ?thesis
      using calm_trans [OF calm_trans [OF calm_trans [OF calm_upd_module [OF h0] c1] calm_upd_module [OF h2]] c2]
      by simp
  qed
qed

lemma calm_life:
  assumes "calm h h'" "mods h' a = Some m'"
  shows "\<exists>m. mods h a = Some m \<and> inner m' = inner m"
proof -
  have "map_option inner (mods h' a) = map_option inner (mods h a)" using assms(1) by (simp add: calm_def)
  then have "map_option inner (mods h a) = Some (inner m')" using assms(2) by simp
  then show ?thesis by auto
qed

section \<open>removeObservers detaches everybody\<close>

lemma getInput_ok: "module_ok m \<Longrightarrow> \<exists>c. getInput m n = Inr c"
proof (cases "map_of (input_map m) n")
  case (Some st)
  assume "module_ok m"
  then have "StorageNull \<notin> snd ` set (input_map m)" by (simp add: module_ok_def io_ok_def)
  with Some show ?thesis
    by (cases st) (auto simp: getInput_def deref_storage_def image_iff dest!: map_of_SomeD)
qed (simp add: getInput_def deref_storage_def)

lemma getOutput_ok: "module_ok m \<Longrightarrow> \<exists>c. getOutput m n = Inr c"
proof (cases "map_of (output_map m) n")
  case (Some st)
  assume "module_ok m"
  then have "StorageNull \<notin> snd ` set (output_map m)" by (simp add: module_ok_def io_ok_def)
  with Some show ?thesis
    by (cases st) (auto simp: getOutput_def deref_storage_def image_iff dest!: map_of_SomeD)
qed (simp add: getOutput_def deref_storage_def)

lemma index_loop_ok: "(\<And>n. \<exists>c. get n = Inr c) \<Longrightarrow> \<exists>j. index_loop get ds i k = Inr j"
proof (induction get ds i k rule: index_loop.induct)
  case (2 get ds i k)
  then obtain x where "get (int i) = Inr x" by blast
  with 2 show ?case by simp
qed simp

lemma getInputIndex_ok: "module_ok m \<Longrightarrow> \<exists>j. getInputIndex m ds = Inr j"
  unfolding getInputIndex_def by (rule index_loop_ok) (rule getInput_ok)

lemma find_attached_ok:
  "graph_ok h \<Longrightarrow> \<forall>a \<in> set its. mods h a \<noteq> None \<Longrightarrow> \<exists>r. find_attached h s its = Inr r"
proof (induction its)
  case (Cons it its)
  then obtain m where m: "mods h it = Some m" by auto
  obtain j where "getInputIndex m (Some s) = Inr j"
    using getInputIndex_ok graph_okD(1) [OF Cons.prems(1) m] by blast
  with Cons m show ?case by (auto simp: store_eval)
qed simp

text \<open>What may change in the modules when a stream is detached: cells that held it become
  NULL.\<close>

definition cells_cleared :: "saddr \<Rightarrow> moModule \<Rightarrow> moModule \<Rightarrow> bool" where
  "cells_cleared s m m' \<longleftrightarrow>
     m' = m\<lparr>input_map := input_map m'\<rparr> \<and> map fst (input_map m') = map fst (input_map m) \<and>
     (\<forall>n. map_of (input_map m') n = map_of (input_map m) n \<or>
          (map_of (input_map m) n = Some (Cell (Some s)) \<and> map_of (input_map m') n = Some (Cell None)))"

lemma cells_cleared_refl [simp]: "cells_cleared s m m"
  by (simp add: cells_cleared_def)

lemma cells_cleared_trans: "cells_cleared s m m' \<Longrightarrow> cells_cleared s m' m'' \<Longrightarrow> cells_cleared s m m''"
proof -
  assume 1: "cells_cleared s m m'" and 2: "cells_cleared s m' m''"
  have "m'' = m'\<lparr>input_map := input_map m''\<rparr>" "m' = m\<lparr>input_map := input_map m'\<rparr>"
    using 1 2 by (simp_all add: cells_cleared_def)
  then have "m'' = m\<lparr>input_map := input_map m''\<rparr>"
    by (cases m, cases m', cases m'') simp
  with 1 2 show ?thesis unfolding cells_cleared_def by metis
qed

lemma cells_cleared_outputs: "cells_cleared s m m' \<Longrightarrow> output_map m' = output_map m"
proof -
  assume "cells_cleared s m m'"
  then have "output_map m' = output_map (m\<lparr>input_map := input_map m'\<rparr>)" unfolding cells_cleared_def by (metis (no_types))
  then show ?thesis by simp
qed

lemma cells_cleared_set_cell:
  assumes "module_ok m" "map_of (input_map m) n = Some (Cell (Some s))"
  shows "cells_cleared s m (set_cell n None m)"
proof -
  have "smap_wf (input_map m)" using assms(1) io_ok_wf by (auto simp: module_ok_def)
  from smap_set_present [OF this assms(2)] assms(2) show ?thesis
    by (auto simp: cells_cleared_def set_cell_def)
qed

lemma nth_smap_io: "io_ok im infos \<Longrightarrow> i < length im \<Longrightarrow> map_of im (int i) = Some (snd (im ! i))"
proof -
  assume ok: "io_ok im infos" and i: "i < length im"
  then have "fst (im ! i) = int i" unfolding io_ok_def by (metis add_0 diff_zero length_map length_upt nth_map nth_upt)
  moreover have "distinct (map fst im)" using ok io_ok_wf smap_wf_distinct by blast
  ultimately show ?thesis using i by (metis map_of_eq_Some_iff nth_mem prod.collapse)
qed

lemma io_ok_length: "io_ok im infos \<Longrightarrow> length infos = length im"
  unfolding io_ok_def by (metis length_map)

lemma index_loop_finds:
  "(\<And>n. \<exists>c. get n = Inr c) \<Longrightarrow> i \<le> j \<Longrightarrow> j < i + k \<Longrightarrow> get (int j) = Inr ds \<Longrightarrow>
     \<exists>r. index_loop get ds i k = Inr r \<and> 0 \<le> r"
proof (induction get ds i k rule: index_loop.induct)
  case (2 get ds i k)
  obtain x where x: "get (int i) = Inr x" using 2(2) by blast
  show ?case
  proof (cases "ds = x")
    case False
    with x 2(5) have "i \<noteq> j" by auto
    with 2 False x show ?thesis by auto
  qed (use x in simp)
qed simp

lemma cells_to_index:
  assumes "module_ok m" "0 < cells_to m s"
  shows "\<exists>r. getInputIndex m (Some s) = Inr r \<and> 0 \<le> r"
proof -
  obtain c where c: "c \<in> set (input_map m)" "snd c = Cell (Some s)"
    using assms(2) unfolding cells_to_def by (auto simp: filter_empty_conv)
  then obtain j where j: "j < length (input_map m)" "input_map m ! j = c"
    by (meson in_set_conv_nth)
  have io: "io_ok (input_map m) (input_infos m)" using assms(1) by (simp add: module_ok_def)
  have "getInput m (int j) = Inr (Some s)"
    using nth_smap_io [OF io j(1)] j c by simp
  then show ?thesis unfolding getInputIndex_def
    using getInput_ok [OF assms(1)] j(1) io_ok_length [OF io]
    by (intro index_loop_finds [of _ 0 j]) (auto simp: getInputCount_def)
qed

lemma find_attached_None:
  assumes "graph_ok h" "streams h s = Some d" "find_attached h s (observers d) = Inr None"
  shows "observers d = []"
proof (rule ccontr)
  assume "observers d \<noteq> []"
  then obtain a its where obs: "observers d = a # its" by (cases "observers d") auto
  then obtain m where m: "mods h a = Some m" using graph_okD(5) [OF assms(1,2), of a] by auto
  have "0 < count_list (observers d) a" using obs by simp
  with graph_okD(4) [OF assms(1,2) m] have "0 < cells_to m s" by linarith
  from cells_to_index [OF graph_okD(1) [OF assms(1) m] this] obs m assms(3) show False
    by (auto simp: store_eval)
qed

lemma removeObservers_ok:
  assumes "graph_ok h" "streams h s = Some d"
  shows "\<exists>h'. removeObservers s h = Inr h' \<and> graph_ok h' \<and>
    streams h' = (streams h)(s := Some (d\<lparr>observers := []\<rparr>)) \<and>
    (\<forall>a. rel_option (cells_cleared s) (mods h a) (mods h' a))"
  using assms
proof (induction "length (observers d)" arbitrary: h d rule: less_induct)
  case less
  note ok = less(2) and d = less(3)
  obtain r where r: "find_attached h s (observers d) = Inr r"
    using find_attached_ok [OF ok, of "observers d" s] graph_okD(5) [OF ok d] by auto
  show ?case
  proof (cases r)
    case None
    with find_attached_None [OF ok d] r have "observers d = []" by simp
    then have dd: "d\<lparr>observers := []\<rparr> = d" by simp
    have "removeObservers s h = Inr (put_stream s (d\<lparr>observers := []\<rparr>) h)"
      using d r None by (subst removeObservers.simps) (simp add: store_eval)
    moreover have "put_stream s d h = h" using d by (simp add: put_stream_def fun_upd_idem)
    ultimately show ?thesis using ok d dd
      by (auto simp: fun_upd_idem option.rel_refl)
  next
    case (Some ai)
    obtain a i where ai: "ai = (a, i)" by (cases ai)
    with Some r have f: "find_attached h s (observers d) = Inr (Some (a, i))" by simp
    obtain m where m: "a \<in> set (observers d)" "mods h a = Some m"
      "map_of (input_map m) i = Some (Cell (Some s))"
      using find_attached_SomeD [OF f] by auto
    let ?d' = "d\<lparr>observers := erase_first a (observers d)\<rparr>"
    let ?h' = "put_module a (set_cell i None m) (detach (Some s) a h)"
    have step: "setInput None i a h = Inr ?h'" "graph_ok ?h'"
      using setInput_NULL_ok [OF ok m(2,3)] by auto
    have str: "streams ?h' = (streams h)(s := Some ?d')" using d by (auto simp: detach_def)
    have "\<exists>h''. removeObservers s ?h' = Inr h'' \<and> graph_ok h'' \<and>
      streams h'' = (streams ?h')(s := Some (?d'\<lparr>observers := []\<rparr>)) \<and>
      (\<forall>b. rel_option (cells_cleared s) (mods ?h' b) (mods h'' b))"
      using step(2) str m(1) by (intro less(1)) (auto simp: length_erase_first)
    then obtain h'' where h'': "removeObservers s ?h' = Inr h''" "graph_ok h''"
      "streams h'' = (streams ?h')(s := Some (?d'\<lparr>observers := []\<rparr>))"
      "\<forall>b. rel_option (cells_cleared s) (mods ?h' b) (mods h'' b)" by blast
    have "removeObservers s h = Inr h''"
      using d f step(1) h''(1) by (subst removeObservers.simps) (simp add: store_eval)
    moreover have "rel_option (cells_cleared s) (mods h b) (mods h'' b)" for b
    proof (cases "b = a")
      case True
      from h''(4) [rule_format, of a] obtain m'' where "mods h'' a = Some m''"
        "cells_cleared s (set_cell i None m) m''" by (auto simp: option_rel_Some1)
      with True m cells_cleared_trans [OF cells_cleared_set_cell [OF graph_okD(1) [OF ok m(2)] m(3)]]
      show ?thesis by simp
    qed (use h''(4) [rule_format, of b] in simp)
    ultimately show ?thesis using h'' str by (auto simp: fun_upd_upd)
  qed
qed

lemma removeObservers_unattached:
  assumes "graph_ok h'" "streams h' s = Some d" "observers d = []" "published h' s"
  shows "attached h' a s = 0"
  using graph_okD(6) [OF assms(1,2,4), of a] assms(3) by simp

section \<open>A small graph for the witnesses\<close>

definition demo_info :: moDataStreamInfo where
  "demo_info = \<lparr>info_name = ''image'', info_type = ''IplImage,IplImage8'', info_description = ''''\<rparr>"

definition demo_src :: moModule where
  "demo_src = (moModule_ctor ''Image'' '''' '''' MO_MODULE_OUTPUT 0)
     \<lparr>output_map := [(0, Cell (Some 0))], output_infos := [(0, Some demo_info)]\<rparr>"

definition demo_sink :: moModule where
  "demo_sink = (moModule_ctor ''Dump'' '''' '''' MO_MODULE_INPUT 1)
     \<lparr>input_map := [(0, Cell (Some 0))], input_infos := [(0, Some demo_info)]\<rparr>"

definition demo_stream :: moDataStream where
  "demo_stream = \<lparr>format = ''IplImage'', data = None, observers = [1]\<rparr>"

definition demo_heap :: heap where
  "demo_heap = \<lparr>mods = [0 \<mapsto> demo_src, 1 \<mapsto> demo_sink], streams = [0 \<mapsto> demo_stream], idcount = 2,
     free_mods = [2, 3], free_streams = [1, 2, 3]\<rparr>"

lemmas demo_defs = demo_heap_def demo_src_def demo_sink_def demo_info_def

lemma ctor_props [simp]: "module_ok (moModule_ctor c d u k a)"
proof -
  have "prop_wf ((new_cstr [] [])\<lparr>callbacks := [(module_gui_feedback_addr, a)]\<rparr>)"
    by (simp add: new_simps prop_init_def prop_wf_def smap_wf_def)
  then show ?thesis by (simp add: module_ok_def moModule_ctor_def io_ok_def smap_wf_def)
qed

lemma demo_graph_ok: "graph_ok demo_heap"
proof -
  have "module_ok demo_src" "module_ok demo_sink"
    using ctor_props [of "''Image''" "''''" "''''" MO_MODULE_OUTPUT 0]
      ctor_props [of "''Dump''" "''''" "''''" MO_MODULE_INPUT 1]
    by (auto simp: module_ok_def demo_defs io_ok_def)
  moreover have "output_map demo_src = [(0, Cell (Some 0))]" "input_map demo_src = []"
    "input_map demo_sink = [(0, Cell (Some 0))]" "output_map demo_sink = []"
    by (simp_all add: demo_defs moModule_ctor_def)
  ultimately show ?thesis
    by (auto simp: graph_ok_def demo_heap_def demo_stream_def attached_def cells_to_def split: if_splits)
qed

section \<open>Properties\<close>

text \<open>C12. Connecting an input. From a consistent graph, \<open>setInput\<close> with an existing stream never
  touches a dangling pointer and leaves the graph consistent. With a valid index, the input
  holds the stream afterwards and the stream is observed by the module exactly when the input
  accepts the stream's format; otherwise the input is left unconnected and the module carries
  the error message.\<close>

theorem setInput_connects:
  assumes "graph_ok h" and "mods h a = Some m" and "map_of (input_map m) n = Some (Cell c)"
    and "streams h s = Some d"
  shows "\<exists>info h' m'. getInputInfos m n = Some info \<and> setInput (Some s) n a h = Inr h' \<and> graph_ok h' \<and>
    mods h' a = Some m' \<and>
    (if accepts info (format d)
     then getInput m' n = Inr (Some s) \<and> is_error m' = is_error m \<and>
          (\<exists>d'. streams h' s = Some d' \<and> a \<in> set (observers d'))
     else getInput m' n = Inr None \<and> is_error m' \<and>
          error_msg m' = input_mismatch_msg n (info_type info) (format d))"
proof -
  obtain info h' where i: "getInputInfos m n = Some info" "setInput (Some s) n a h = Inr h'" "graph_ok h'"
    and post: "if accepts info (format d)
         then mods h' = (mods h)(a := Some (set_cell n (Some s) m)) \<and>
              streams h' = streams (put_stream s (the (streams (detach c a h) s)
                \<lparr>observers := observers (the (streams (detach c a h) s)) @ [a]\<rparr>) (detach c a h))
         else mods h' = (mods h)(a := Some (set_cell n None
                (setError (input_mismatch_msg n (info_type info) (format d)) (set_cell n (Some s) m)))) \<and>
              streams h' = streams (detach c a h)"
    by (rule setInput_stream_ok [OF assms])
  have err: "is_error (set_cell n x k) = is_error k" "error_msg (set_cell n x k) = error_msg k" for x k
    by (simp_all add: set_cell_def)
  have none: "getInput (set_cell n None k) n = Inr None" for k
    by (simp add: getInput_def deref_storage_def)
  show ?thesis
  proof (cases "accepts info (format d)")
    case True
    with post have mm: "mods h' a = Some (set_cell n (Some s) m)"
      and ss: "\<exists>d'. streams h' s = Some d' \<and> a \<in> set (observers d')" by auto
    show ?thesis using i mm ss True err by auto
  next
    case False
    with post have mm: "mods h' a = Some (set_cell n None
        (setError (input_mismatch_msg n (info_type info) (format d)) (set_cell n (Some s) m)))" by simp
    show ?thesis using i mm False err none by auto
  qed
qed

theorem setInput_connects_witness:
  "graph_ok demo_heap \<and> (\<exists>info h' m'. getInputInfos demo_sink 0 = Some info \<and>
     setInput (Some 0) 0 1 demo_heap = Inr h' \<and> graph_ok h' \<and> mods h' 1 = Some m' \<and>
     getInput m' 0 = Inr (Some 0))"
proof -
  have cell: "map_of (input_map demo_sink) 0 = Some (Cell (Some 0))"
    and md: "mods demo_heap 1 = Some demo_sink"
    and st: "streams demo_heap 0 = Some demo_stream"
    by (simp_all add: demo_defs)
  have acc: "getInputInfos demo_sink 0 = Some info \<Longrightarrow> accepts info (format demo_stream)" for info
    by (auto simp: demo_defs getInputInfos_def accepts_def demo_stream_def)
  show ?thesis
    using demo_graph_ok setInput_connects [OF demo_graph_ok md cell st] acc by fastforce
qed

text \<open>C18. Removing the observers of a stream. The loop, which starts over after every change,
  terminates; it never follows a dangling pointer; afterwards the stream has no observers,
  every other stream is as before, the modules differ only in that inputs that held the
  stream are unconnected, and the graph is consistent. When the stream is an output of a module, no input of any module
  holds it any more.\<close>

theorem removeObservers_detaches:
  assumes "graph_ok h" and "streams h s = Some d"
  shows "\<exists>h'. removeObservers s h = Inr h' \<and> graph_ok h' \<and>
    streams h' = (streams h)(s := Some (d\<lparr>observers := []\<rparr>)) \<and>
    (\<forall>a. rel_option (cells_cleared s) (mods h a) (mods h' a)) \<and>
    (published h s \<longrightarrow> (\<forall>a m n. mods h' a = Some m \<longrightarrow> map_of (input_map m) n \<noteq> Some (Cell (Some s))))"
proof -
  obtain h' where h': "removeObservers s h = Inr h'" "graph_ok h'" "streams h' = (streams h)(s := Some (d\<lparr>observers := []\<rparr>))"
    "\<forall>a. rel_option (cells_cleared s) (mods h a) (mods h' a)" using removeObservers_ok [OF assms] by blast
  have "map_of (input_map m) n \<noteq> Some (Cell (Some s))" if p: "published h s" and m: "mods h' a = Some m" for a m n
  proof -
    have "map_option output_map (mods h' b) = map_option output_map (mods h b)" for b
      using h'(4) [rule_format, of b] by (cases rule: option.rel_cases) (auto dest: cells_cleared_outputs)
    then have "published h' s" using p published_cong by blast
    then have "cells_to m s = 0" using removeObservers_unattached [OF h'(2), of s "d\<lparr>observers := []\<rparr>" a] h'(3) m by (simp add: attached_def)
    then show ?thesis by (force simp: cells_to_def filter_empty_conv dest: map_of_SomeD)
  qed
  then show ?thesis using h' by blast
qed

theorem removeObservers_detaches_witness:
  "graph_ok demo_heap \<and> streams demo_heap 0 = Some demo_stream \<and> observers demo_stream = [1] \<and> published demo_heap 0 \<and>
   (\<exists>h'. removeObservers 0 demo_heap = Inr h' \<and> graph_ok h' \<and>
     streams h' = (streams demo_heap)(0 := Some (demo_stream\<lparr>observers := []\<rparr>)))"
proof -
  have st: "streams demo_heap 0 = Some demo_stream" by (simp add: demo_heap_def)
  have "mods demo_heap 0 = Some demo_src" "map_of (output_map demo_src) 0 = Some (Cell (Some 0))" by (simp_all add: demo_defs)
  then have "published demo_heap 0" unfolding published_def by blast
  then show ?thesis
    using demo_graph_ok st removeObservers_detaches [OF demo_graph_ok st]
    by (auto simp: demo_stream_def)
qed

end
