(* ===== verification/Movid_Module.thy ===== *)
theory Movid_Module
  imports Movid_Graph
begin

unbundle bit_operations_syntax

text \<open>
  The life cycle of a module (\<open>src/moModule.cpp\<close>): property access with the callbacks it
  fires, start, stop, polling, the update flag, errors, the GUI list, the text a module is
  described and saved as, and the destructor.
  Line ends are the character 10.
\<close>

abbreviation endl :: string where
  "endl \<equiv> [CHR 0x0A]"

section \<open>Properties of a module\<close>

text \<open>\<open>module_gui_feedback_cb(property, userdata)\<close>, with the value the property has.\<close>

definition module_gui_feedback_cb :: "dispatch \<Rightarrow> moProperty \<Rightarrow> userdata \<Rightarrow> heap \<Rightarrow> heap result" where
  "module_gui_feedback_cb vt property userdata h =
     bindR (asString property) (\<lambda>s.
       if s = '''' then Inr h
       else bindR (tokenize s '';'') (\<lambda>tokens.
         if length tokens \<noteq> 3 then Inr h
         else bindR (get_module h userdata) (\<lambda>m.
           vt_guiFeedback (vt (class_name m)) (tokens ! 0)
             (atof (c_str (tokens ! 1))) (atof (c_str (tokens ! 2))) userdata h)))"

text \<open>\<open>fireCallback\<close> calls every callback with the property; a callback finds the property of
  the module \<open>this\<close> by the pointer it is given.\<close>

fun run_fired :: "dispatch \<Rightarrow> fired \<Rightarrow> string \<Rightarrow> maddr \<Rightarrow> heap \<Rightarrow> heap result" where
  "run_fired vt [] name this h = Inr h"
| "run_fired vt ((cb, ud) # cbs) name this h =
     bindR (get_module h this) (\<lambda>m.
       case map_of (properties m) name of
         None \<Rightarrow> Inl Undefined
       | Some p \<Rightarrow>
           bindR (if cb = module_gui_feedback_addr then module_gui_feedback_cb vt p ud h
                  else bindR (get_module h ud) (\<lambda>mu. vt_callback (vt (class_name mu)) cb name ud h))
             (run_fired vt cbs name this))"

text \<open>\<open>module->property(name).set(value)\<close> with a string.\<close>

definition property_set :: "dispatch \<Rightarrow> string \<Rightarrow> string \<Rightarrow> maddr \<Rightarrow> heap \<Rightarrow> heap result" where
  "property_set vt name value this h =
     bindR (get_module h this) (\<lambda>m.
       let (m1, p) = module_property name m in
       bindR (set_string value p) (\<lambda>(p', fired).
         run_fired vt fired name this
           (put_module this (m1\<lparr>properties := smap_set name p' (properties m1)\<rparr>) h)))"

text \<open>\<open>module->property(name).asString()\<close>: reading may create the property.\<close>

definition property_get :: "string \<Rightarrow> maddr \<Rightarrow> heap \<Rightarrow> (string \<times> heap) result" where
  "property_get name this h =
     bindR (get_module h this) (\<lambda>m.
       let (m1, p) = module_property name m in
       mapR (\<lambda>s. (s, put_module this m1 h)) (asString p))"

text \<open>\<open>module->property(name).setText(true)\<close> and \<open>setReadOnly(true)\<close>.\<close>

definition property_modify :: "(moProperty \<Rightarrow> moProperty) \<Rightarrow> string \<Rightarrow> maddr \<Rightarrow> heap \<Rightarrow> heap result" where
  "property_modify f name this h =
     bindR (get_module h this) (\<lambda>m.
       let (m1, p) = module_property name m in
       Inr (put_module this (m1\<lparr>properties := smap_set name (f p) (properties m1)\<rparr>) h))"

section \<open>Start, stop, poll\<close>

definition moModule_start :: "double \<Rightarrow> maddr \<Rightarrow> heap \<Rightarrow> heap result" where
  "moModule_start now this h =
     bindR (get_module h this) (\<lambda>m.
       let (m1, p) = module_property ''use_thread'' m in
       bindR (asBool p) (\<lambda>ut.
         let m2 = m1\<lparr>use_thread := ut, stats := stats_init now (stats m1)\<rparr>;
             m3 = (if ut
                   then m2\<lparr>thread_trigger := (case thread_trigger m2 of None \<Rightarrow> Some False | Some t \<Rightarrow> Some t),
                           thread := Some False\<rparr>
                   else m2)
         in Inr (put_module this (m3\<lparr>is_started := True\<rparr>) h)))"

text \<open>\<open>stop\<close> asks the thread to quit, posts the trigger, and waits for the thread.\<close>

definition moModule_stop :: "maddr \<Rightarrow> heap \<Rightarrow> heap result" where
  "moModule_stop this h =
     bindR (get_module h this) (\<lambda>m.
       bindR (if use_thread m \<and> thread m \<noteq> None
              then (case thread_trigger m of
                      None \<Rightarrow> Inl NullDeref
                    | Some _ \<Rightarrow> Inr (m\<lparr>thread_trigger := Some True, thread := None, use_thread := False\<rparr>))
              else Inr m) (\<lambda>m1.
         Inr (put_module this (m1\<lparr>need_update := False, is_started := False\<rparr>) h)))"

definition notifyUpdate :: "dispatch \<Rightarrow> double \<Rightarrow> maddr \<Rightarrow> heap \<Rightarrow> heap result" where
  "notifyUpdate vt now this h =
     bindR (get_module h this) (\<lambda>m0.
     bindR (if \<not> is_started m0 then vt_start (vt (class_name m0)) now this h else Inr h) (\<lambda>h1.
     bindR (get_module h1 this) (\<lambda>m.
       let m1 = m\<lparr>need_update := True\<rparr> in
       if use_thread m1
       then (case thread_trigger m1 of
               None \<Rightarrow> Inl NullDeref
             | Some _ \<Rightarrow> Inr (put_module this (m1\<lparr>thread_trigger := Some True\<rparr>) h1))
       else Inr (put_module this m1 h1))))"

text \<open>\<open>needUpdate()\<close> without the lock argument, as \<open>poll\<close> calls it; the waiting form is the
  worker thread's and belongs to the thread protocol.\<close>

definition needUpdate :: "moModule \<Rightarrow> bool \<times> moModule" where
  "needUpdate m = (if need_update m then (True, m\<lparr>need_update := False\<rparr>) else (False, m))"

definition moModule_poll :: "dispatch \<Rightarrow> double \<Rightarrow> double \<Rightarrow> maddr \<Rightarrow> heap \<Rightarrow> heap result" where
  "moModule_poll vt now now' this h =
     bindR (get_module h this) (\<lambda>m.
       if use_thread m then Inr h
       else (let (need, m1) = needUpdate m in
             if need
             then (let h1 = put_module this (m1\<lparr>stats := stats_wait now (stats m1)\<rparr>) h in
                   bindR (vt_update (vt (class_name m)) now this h1)
                     (upd_module (\<lambda>m2. m2\<lparr>stats := stats_process now' (stats m2)\<rparr>) this))
             else Inr (put_module this m1 h)))"

definition getGui :: "dispatch \<Rightarrow> maddr \<Rightarrow> heap \<Rightarrow> (string list \<times> heap) result" where
  "getGui vt this h =
     bindR (get_module h this) (\<lambda>m.
       if capabilities m AND MO_MODULE_GUI = 0 then Inl AssertFailed
       else bindR (if need_gui_build m
                   then vt_guiBuild (vt (class_name m)) this
                          (put_module this (m\<lparr>need_gui_build := False\<rparr>) h)
                   else Inr h) (\<lambda>h1.
              mapR (\<lambda>m1. (gui m1, h1)) (get_module h1 this)))"

definition notifyGui :: "moModule \<Rightarrow> moModule" where
  "notifyGui m = m\<lparr>need_gui_build := True\<rparr>"

text \<open>The destructor. \<open>frees\<close> are the streams the destructor of the class deletes.\<close>

definition delete_module :: "(moModule \<Rightarrow> saddr list) \<Rightarrow> maddr \<Rightarrow> heap \<Rightarrow> heap result" where
  "delete_module frees this h =
     bindR (get_module h this) (\<lambda>m.
     bindR (moModule_stop this h) (\<lambda>h1.
       Inr (h1\<lparr>mods := (mods h1)(this := None),
               streams := (\<lambda>s. if s \<in> set (frees m) then None else streams h1 s)\<rparr>)))"

section \<open>The text of a module\<close>

definition describe_caps :: "nat \<Rightarrow> string" where
  "describe_caps c =
     (if c AND MO_MODULE_INPUT \<noteq> 0 then ''input,'' else '''') @
     (if c AND MO_MODULE_OUTPUT \<noteq> 0 then ''output,'' else '''') @
     (if c AND MO_MODULE_GUI \<noteq> 0 then ''gui,'' else '''')"

fun describe_props :: "(string \<times> moProperty) list \<Rightarrow> string result" where
  "describe_props [] = Inr ''''"
| "describe_props ((k, p) # ps) =
     bindR (asString p) (\<lambda>v. mapR (\<lambda>r.
       '' '' @ k @ '': '' @ ''type='' @ getPropertyTypeName (ptype p) @ '', '' @ ''default='' @ v @ endl @ r)
       (describe_props ps))"

fun describe_io :: "(int \<Rightarrow> moDataStreamInfo option) \<Rightarrow> nat \<Rightarrow> nat \<Rightarrow> string result" where
  "describe_io infos i 0 = Inr ''''"
| "describe_io infos i (Suc k) =
     (case infos (int i) of
        None \<Rightarrow> Inl NullDeref
      | Some f \<Rightarrow> mapR (\<lambda>r. '' '' @ show_int (int i) @ '': name='' @ info_name f @ '', type='' @ info_type f @
                              '', desc='' @ info_description f @ endl @ r)
                 (describe_io infos (Suc i) k))"

definition module_describe :: "moModule \<Rightarrow> string result" where
  "module_describe m =
     bindR (describe_props (properties m)) (\<lambda>props.
     bindR (if capabilities m AND MO_MODULE_INPUT \<noteq> 0
            then mapR (\<lambda>r. endl @ ''Input :'' @ endl @ r) (describe_io (getInputInfos m) 0 (getInputCount m))
            else Inr '''') (\<lambda>ins.
     bindR (if capabilities m AND MO_MODULE_OUTPUT \<noteq> 0
            then mapR (\<lambda>r. endl @ ''Output :'' @ endl @ r) (describe_io (getOutputInfos m) 0 (getOutputCount m))
            else Inr '''') (\<lambda>outs.
       Inr (''Module: '' @ class_name m @ endl @ ''Author: '' @ class_author m @ endl @
            ''Description: '' @ class_description m @ endl @
            ''Capabilities: '' @ describe_caps (capabilities m) @ endl @
            (if properties m \<noteq> [] then endl @ ''Properties: '' @ endl @ props else '''') @
            ins @ outs @ endl))))"

definition PIPELINE_BOUNDARY :: string where
  "PIPELINE_BOUNDARY = ''==============================''"

text \<open>One line for each property: a text property is announced with \<open>settext\<close> and its value
  follows in the data part of the file.\<close>

definition serialize_prop :: "string \<Rightarrow> string \<times> moProperty \<Rightarrow> string result" where
  "serialize_prop i kp =
     (case kp of (k, p) \<Rightarrow>
        if is_text p then Inr (''pipeline settext '' @ i @ '' '' @ k @ '' '' @ i @ ''_'' @ k @ endl)
        else mapR (\<lambda>v. ''pipeline set '' @ i @ '' '' @ k @ '' '' @ v @ endl) (asString p))"

definition serialize_text :: "string \<Rightarrow> string \<times> moProperty \<Rightarrow> string result" where
  "serialize_text i kp =
     (case kp of (k, p) \<Rightarrow>
        if is_text p
        then mapR (\<lambda>v. PIPELINE_BOUNDARY @ '' '' @ i @ ''_'' @ k @ endl @ v @ endl) (asString p)
        else Inr '''')"

fun concatR :: "('a \<Rightarrow> string result) \<Rightarrow> 'a list \<Rightarrow> string result" where
  "concatR f [] = Inr ''''"
| "concatR f (x # xs) = bindR (f x) (\<lambda>s. mapR (\<lambda>r. s @ r) (concatR f xs))"

text \<open>\<open>serializeCreation(oss, do_data)\<close>: what is appended to the stream, and the object
  (reading the id may create it).\<close>

definition serializeCreation :: "bool \<Rightarrow> moModule \<Rightarrow> (string \<times> moModule) result" where
  "serializeCreation do_data m =
     (let (m1, p) = module_property ''id'' m in
      bindR (asString p) (\<lambda>i.
        if \<not> do_data
        then mapR (\<lambda>ps. (''pipeline create '' @ class_name m1 @ '' '' @ i @ endl @ ps @ endl, m1))
               (concatR (serialize_prop i) (properties m1))
        else mapR (\<lambda>ps. (ps @ (if \<exists>kp \<in> set (properties m1). is_text (snd kp)
                               then PIPELINE_BOUNDARY @ endl else ''''), m1))
               (concatR (serialize_text i) (properties m1))))"

text \<open>The inner loop of \<open>serializeConnections\<close> over the observers of one output.\<close>

fun serialize_observers :: "string \<Rightarrow> nat \<Rightarrow> saddr \<Rightarrow> maddr list \<Rightarrow> heap \<Rightarrow> (string \<times> heap) result" where
  "serialize_observers i out s [] h = Inr ('''', h)"
| "serialize_observers i out s (ob # obs) h =
     bindR (get_module h ob) (\<lambda>m.
       if is_internal m then serialize_observers i out s obs h
       else bindR (property_get ''id'' ob h) (\<lambda>(oid, h1).
            bindR (getInputIndex m (Some s)) (\<lambda>k.
              mapR (\<lambda>(r, h2). (''pipeline connect '' @ i @ '' '' @ show_int (int out) @ '' '' @ oid @ '' '' @
                                 show_int k @ '' '' @ endl @ r, h2))
                (serialize_observers i out s obs h1))))"

fun serialize_outputs :: "maddr \<Rightarrow> string \<Rightarrow> nat \<Rightarrow> nat \<Rightarrow> heap \<Rightarrow> (string \<times> heap) result" where
  "serialize_outputs this i out 0 h = Inr ('''', h)"
| "serialize_outputs this i out (Suc k) h =
     bindR (get_module h this) (\<lambda>m. bindR (getOutput m (int out)) (\<lambda>ds.
       bindR (case ds of
                None \<Rightarrow> Inr ('''', h)
              | Some s \<Rightarrow> bindR (get_stream h s) (\<lambda>d. serialize_observers i out s (observers d) h)) (\<lambda>(t, h1).
         mapR (\<lambda>(r, h2). (t @ r, h2)) (serialize_outputs this i (Suc out) k h1))))"

definition serializeConnections :: "maddr \<Rightarrow> heap \<Rightarrow> (string \<times> heap) result" where
  "serializeConnections this h =
     bindR (property_get ''id'' this h) (\<lambda>(i, h1).
     bindR (get_module h1 this) (\<lambda>m. serialize_outputs this i 0 (getOutputCount m) h1))"


section \<open>What every operation keeps\<close>

text \<open>A module that runs threaded, or whose thread object exists, has a trigger; the callbacks of
  its properties carry the module itself as user data.\<close>

definition life_ok :: "maddr \<Rightarrow> moModule \<Rightarrow> bool" where
  "life_ok a m \<longleftrightarrow>
     (use_thread m \<or> thread m \<noteq> None \<longrightarrow> thread_trigger m \<noteq> None) \<and>
     (\<forall>p \<in> snd ` set (properties m). \<forall>c \<in> set (callbacks p). snd c = a)"

definition heap_ok :: "heap \<Rightarrow> bool" where
  "heap_ok h \<longleftrightarrow> graph_ok h \<and> (\<forall>a m. mods h a = Some m \<longrightarrow> life_ok a m)"

text \<open>The connections: the classes and cells of the modules, the formats and observers of the
  streams, and the unused memory.\<close>

definition module_wires :: "moModule \<Rightarrow> string \<times> (int, storage) smap \<times> (int, storage) smap" where
  "module_wires m = (class_name m, input_map m, output_map m)"

definition stream_wires :: "moDataStream \<Rightarrow> string \<times> maddr list" where
  "stream_wires d = (format d, observers d)"

definition same_wires :: "heap \<Rightarrow> heap \<Rightarrow> bool" where
  "same_wires h h' \<longleftrightarrow>
     (\<forall>a. map_option module_wires (mods h' a) = map_option module_wires (mods h a)) \<and>
     (\<forall>s. map_option stream_wires (streams h' s) = map_option stream_wires (streams h s)) \<and>
     free_mods h' = free_mods h \<and> free_streams h' = free_streams h"

text \<open>No property disappears and a read-only property is unchanged.\<close>

definition props_kept :: "moModule \<Rightarrow> moModule \<Rightarrow> bool" where
  "props_kept m m' \<longleftrightarrow>
     (\<forall>k p. map_of (properties m) k = Some p \<longrightarrow>
        (\<exists>p'. map_of (properties m') k = Some p' \<and> (readonly p \<longrightarrow> p' = p)))"

lemma props_keptD:
  "props_kept m m' \<Longrightarrow> map_of (properties m) k = Some p \<Longrightarrow>
     \<exists>p'. map_of (properties m') k = Some p' \<and> (readonly p \<longrightarrow> p' = p)"
  by (simp add: props_kept_def)

lemma props_kept_same [simp]: "properties m' = properties m \<Longrightarrow> props_kept m m'"
  by (simp add: props_kept_def)

lemma props_kept_trans: "props_kept m m' \<Longrightarrow> props_kept m' m'' \<Longrightarrow> props_kept m m''"
  unfolding props_kept_def by metis

lemma props_kept_keys: "props_kept m m' \<Longrightarrow> fst ` set (properties m) \<subseteq> fst ` set (properties m')"
  unfolding props_kept_def by (auto simp flip: dom_map_of_conv_image_fst)

lemma props_kept_set:
  "(\<And>q. map_of (properties m) k = Some q \<Longrightarrow> readonly q \<Longrightarrow> p = q) \<Longrightarrow>
     properties m' = smap_set k p (properties m) \<Longrightarrow> props_kept m m'"
  by (auto simp: props_kept_def)

text \<open>An operation that keeps the store: the invariant holds, the connections and the read-only
  properties are as they were, no property disappears and no stream loses its data.\<close>

definition keeps :: "heap \<Rightarrow> heap \<Rightarrow> bool" where
  "keeps h h' \<longleftrightarrow>
     heap_ok h' \<and> same_wires h h' \<and>
     (\<forall>a m m'. mods h a = Some m \<longrightarrow> mods h' a = Some m' \<longrightarrow>
        props_kept m m') \<and>
     (\<forall>s d d'. streams h s = Some d \<longrightarrow> streams h' s = Some d' \<longrightarrow> data d \<noteq> None \<longrightarrow> data d' \<noteq> None)"

lemma heap_okD:
  assumes "heap_ok h"
  shows "graph_ok h" "mods h a = Some m \<Longrightarrow> life_ok a m" "mods h a = Some m \<Longrightarrow> module_ok m"
proof -
  show g: "graph_ok h" using assms by (simp add: heap_ok_def)
  show "life_ok a m" if "mods h a = Some m" using assms that by (simp add: heap_ok_def)
  show "module_ok m" if "mods h a = Some m" using graph_okD(1) [OF g that] .
qed

lemma keepsD:
  assumes "keeps h h'"
  shows "heap_ok h'"
    and "mods h a = Some m \<Longrightarrow> \<exists>m'. mods h' a = Some m' \<and> module_wires m' = module_wires m \<and>
           props_kept m m'"
    and "streams h s = Some d \<Longrightarrow> \<exists>d'. streams h' s = Some d' \<and> stream_wires d' = stream_wires d \<and>
           (data d \<noteq> None \<longrightarrow> data d' \<noteq> None)"
proof -
  show "heap_ok h'" using assms by (simp add: keeps_def)
  show "\<exists>m'. mods h' a = Some m' \<and> module_wires m' = module_wires m \<and>
      props_kept m m'" if "mods h a = Some m"
  proof -
    have "map_option module_wires (mods h' a) = Some (module_wires m)"
      using assms that by (simp add: keeps_def same_wires_def)
    then obtain m' where m': "mods h' a = Some m'" "module_wires m' = module_wires m" by auto
    moreover have "\<forall>a m m'. mods h a = Some m \<longrightarrow> mods h' a = Some m' \<longrightarrow>
        props_kept m m'"
      using assms unfolding keeps_def by (elim conjE)
    then have "props_kept m m'" using that m'(1) by simp
    ultimately show ?thesis by simp
  qed
  show "\<exists>d'. streams h' s = Some d' \<and> stream_wires d' = stream_wires d \<and>
      (data d \<noteq> None \<longrightarrow> data d' \<noteq> None)" if "streams h s = Some d"
  proof -
    have "map_option stream_wires (streams h' s) = Some (stream_wires d)"
      using assms that by (simp add: keeps_def same_wires_def)
    then obtain d' where d': "streams h' s = Some d'" "stream_wires d' = stream_wires d" by auto
    moreover have "\<forall>s d d'. streams h s = Some d \<longrightarrow> streams h' s = Some d' \<longrightarrow>
        data d \<noteq> None \<longrightarrow> data d' \<noteq> None"
      using assms unfolding keeps_def by (elim conjE)
    then have "data d \<noteq> None \<longrightarrow> data d' \<noteq> None" using that d'(1) by simp
    ultimately show ?thesis by simp
  qed
qed

lemma keeps_refl: "heap_ok h \<Longrightarrow> keeps h h"
  by (auto simp: keeps_def same_wires_def)

lemma keeps_trans: "keeps h h' \<Longrightarrow> keeps h' h'' \<Longrightarrow> keeps h h''"
proof -
  assume a: "keeps h h'" and b: "keeps h' h''"
  have w: "same_wires h h''" using a b by (simp add: keeps_def same_wires_def)
  have p: "props_kept m m''"
    if q: "mods h x = Some m" "mods h'' x = Some m''" for x m m''
  proof -
    obtain m1 where 1: "mods h' x = Some m1" "props_kept m m1"
      using keepsD(2) [OF a q(1)] by blast
    obtain m2 where 2: "mods h'' x = Some m2" "props_kept m1 m2"
      using keepsD(2) [OF b 1(1)] by blast
    from 1(2) 2 q(2) show ?thesis by (auto intro: props_kept_trans)
  qed
  have d: "data e'' \<noteq> None"
    if q: "streams h s = Some e" "streams h'' s = Some e''" "data e \<noteq> None" for s e e''
  proof -
    obtain e1 where 1: "streams h' s = Some e1" "data e1 \<noteq> None"
      using keepsD(3) [OF a q(1)] q(3) by blast
    obtain e2 where 2: "streams h'' s = Some e2" "data e2 \<noteq> None"
      using keepsD(3) [OF b 1(1)] 1(2) by blast
    from 2 q(2) show ?thesis by simp
  qed
  show ?thesis unfolding keeps_def
    by (intro conjI allI impI; (rule keepsD(1) [OF b] w p d; assumption)?)
qed

lemma keeps_put_module:
  assumes "heap_ok h" "mods h a = Some m" "module_ok m'" "life_ok a m'"
    and "module_wires m' = module_wires m" "props_kept m m'"
  shows "keeps h (put_module a m' h)"
proof -
  have "graph_ok (put_module a m' h)"
    by (rule graph_ok_update_module [OF heap_okD(1) [OF assms(1)] assms(2,3)])
      (use assms(5) in \<open>auto simp: module_wires_def\<close>)
  moreover have "\<forall>b mb. mods (put_module a m' h) b = Some mb \<longrightarrow> life_ok b mb"
    using assms(1,4) by (auto simp: heap_ok_def split: if_splits)
  ultimately have "heap_ok (put_module a m' h)" by (simp add: heap_ok_def)
  moreover have "same_wires h (put_module a m' h)" using assms(2,5) by (simp add: same_wires_def)
  ultimately show ?thesis using assms(2,6) by (simp add: keeps_def)
qed

lemma keeps_put_data:
  assumes "heap_ok h" "streams h s = Some d" "p \<noteq> None"
  shows "keeps h (put_stream s (d\<lparr>data := p\<rparr>) h)"
proof -
  let ?h = "put_stream s (d\<lparr>data := p\<rparr>) h"
  have m: "mods ?h = mods h" by simp
  have "graph_ok ?h"
    unfolding graph_ok_def
  proof (intro conjI allI impI)
    fix a x assume "mods ?h a = Some x"
    with m have x: "mods h a = Some x" by simp
    show "module_ok x" using graph_okD(1) [OF heap_okD(1) [OF assms(1)] x] .
    show "streams ?h t \<noteq> None" if "map_of (input_map x) n = Some (Cell (Some t))" for n t
      using graph_okD(2) [OF heap_okD(1) [OF assms(1)] x that] by auto
    show "streams ?h t \<noteq> None" if "map_of (output_map x) n = Some (Cell (Some t))" for n t
      using graph_okD(3) [OF heap_okD(1) [OF assms(1)] x that] by auto
  next
    fix t e a assume "streams ?h t = Some e"
    then obtain e0 where e0: "streams h t = Some e0" "observers e = observers e0"
      using assms(2) by (auto split: if_splits)
    have at: "attached ?h a t = attached h a t" by (simp add: attached_def)
    have pb: "published ?h t = published h t" by (simp add: published_def)
    show "count_list (observers e) a \<le> attached ?h a t"
      using graph_okD(7) [OF heap_okD(1) [OF assms(1)] e0(1)] e0(2) at by simp
    show "count_list (observers e) a = attached ?h a t" if "published ?h t"
      using graph_okD(6) [OF heap_okD(1) [OF assms(1)] e0(1)] e0(2) at pb that by simp
  qed
  moreover have "\<forall>a x. mods ?h a = Some x \<longrightarrow> life_ok a x" using assms(1) m by (simp add: heap_ok_def)
  ultimately have "heap_ok ?h" by (simp add: heap_ok_def)
  moreover have "same_wires h ?h" using assms(2) by (simp add: same_wires_def stream_wires_def)
  ultimately show ?thesis using assms(2,3) by (auto simp: keeps_def split: if_splits)
qed


lemma smap_all_set: "\<forall>q \<in> snd ` set ps. P q \<Longrightarrow> P p \<Longrightarrow> \<forall>q \<in> snd ` set (smap_set k p ps). P q"
  using set_smap_set [of k p ps] by fastforce

lemma module_property_ok:
  assumes "module_ok m" "life_ok a m" "module_property name m = (m1, p)"
  shows "module_ok m1 \<and> life_ok a m1 \<and> module_wires m1 = module_wires m \<and> need_update m1 = need_update m \<and>
    is_started m1 = is_started m \<and> use_thread m1 = use_thread m \<and>
    props_kept m m1 \<and>
    map_of (properties m1) name = Some p \<and> prop_wf p"
proof (cases "map_of (properties m) name")
  case None
  let ?p = "new_cstr '''' ''?? auto created ??''"
  let ?ps = "smap_set name ?p (properties m)"
  have m1: "m1 = m\<lparr>properties := ?ps\<rparr>" "p = ?p"
    using assms(3) None by (auto simp: module_property_def Let_def)
  have "callbacks ?p = []" by (simp add: new_simps prop_init_def)
  then have cb: "\<forall>c \<in> set (callbacks ?p). snd c = a" by simp
  have old: "\<forall>q \<in> snd ` set (properties m). prop_wf q"
    "\<forall>q \<in> snd ` set (properties m). \<forall>c \<in> set (callbacks q). snd c = a"
    using assms(1,2) unfolding module_ok_def life_ok_def by fast+
  have wf: "prop_wf ?p" by simp
  note new = smap_all_set [where P = prop_wf and k = name, OF old(1) wf]
    smap_all_set [where P = "\<lambda>q. \<forall>c \<in> set (callbacks q). snd c = a" and k = name, OF old(2) cb]
  have "module_ok m1" using assms(1) m1 new(1) by (simp add: module_ok_def)
  moreover have "life_ok a m1" using assms(2) m1 new(2) by (simp add: life_ok_def)
  moreover have "props_kept m m1" by (rule props_kept_set [of m name ?p]) (use None m1 in simp_all)
  ultimately show ?thesis using m1 wf by (auto simp: module_wires_def)
next
  case (Some q)
  then have "q \<in> snd ` set (properties m)" by (force dest: map_of_SomeD)
  with Some assms show ?thesis by (auto simp: module_property_def module_ok_def)
qed

lemma moModule_start_keeps:
  assumes "heap_ok h" "mods h a = Some m"
  shows "\<exists>h' m'. moModule_start now a h = Inr h' \<and> keeps h h' \<and> mods h' a = Some m' \<and> is_started m'"
proof -
  obtain m1 p where mp: "module_property ''use_thread'' m = (m1, p)" by fastforce
  note ok = module_property_ok [OF heap_okD(3,2) [OF assms(1)], OF assms(2,2) mp]
  obtain ut where ut: "asBool p = Inr ut" using asBool_ok ok by blast
  define m3 where "m3 = (let m2 = m1\<lparr>use_thread := ut, stats := stats_init now (stats m1)\<rparr>;
             m3 = (if ut
                   then m2\<lparr>thread_trigger := (case thread_trigger m2 of None \<Rightarrow> Some False | Some t \<Rightarrow> Some t),
                           thread := Some False\<rparr>
                   else m2) in m3\<lparr>is_started := True\<rparr>)"
  have r: "moModule_start now a h = Inr (put_module a m3 h)"
    using assms(2) mp ut by (simp add: moModule_start_def store_eval Let_def m3_def)
  have f: "input_map m3 = input_map m1" "output_map m3 = output_map m1" "input_infos m3 = input_infos m1"
    "output_infos m3 = output_infos m1" "properties m3 = properties m1" "class_name m3 = class_name m1"
    "is_started m3"
    by (simp_all add: m3_def Let_def)
  have t: "use_thread m3 \<or> thread m3 \<noteq> None \<longrightarrow> thread_trigger m3 \<noteq> None"
    using ok by (auto simp: m3_def Let_def life_ok_def split: option.splits)
  have pk: "props_kept m m3" using ok f(5) by (simp add: props_kept_def)
  have "keeps h (put_module a m3 h)"
  proof (rule keeps_put_module [OF assms _ _ _ pk])
    have "module_ok m3 = module_ok m1" using f by (simp add: module_ok_def)
    then show "module_ok m3" using ok by simp
    show "life_ok a m3" using ok f t by (simp add: life_ok_def)
    have "module_wires m3 = module_wires m1" using f by (simp add: module_wires_def)
    then show "module_wires m3 = module_wires m" using ok by simp
  qed
  with r f(7) show ?thesis by auto
qed

lemma moModule_stop_keeps:
  assumes "heap_ok h" "mods h a = Some m"
  shows "\<exists>h' m'. moModule_stop a h = Inr h' \<and> keeps h h' \<and> mods h' a = Some m' \<and>
    \<not> is_started m' \<and> \<not> need_update m' \<and> (use_thread m \<longrightarrow> thread m' = None)"
proof -
  let ?m1 = "if use_thread m \<and> thread m \<noteq> None
    then m\<lparr>thread_trigger := Some True, thread := None, use_thread := False\<rparr> else m"
  let ?m2 = "?m1\<lparr>need_update := False, is_started := False\<rparr>"
  note ok = heap_okD(3) [OF assms] heap_okD(2) [OF assms]
  have r: "moModule_stop a h = Inr (put_module a ?m2 h)"
    using assms(2) ok(2) by (auto simp: moModule_stop_def store_eval life_ok_def)
  have "keeps h (put_module a ?m2 h)"
    by (rule keeps_put_module [OF assms])
      (use ok in \<open>auto simp: module_ok_def life_ok_def module_wires_def\<close>)
  with r show ?thesis by auto
qed

section \<open>The contract of a class\<close>

text \<open>What the base class and the streams rely on when they call an overridden method: on a
  consistent store, for a live module, it returns, and it keeps the store.\<close>

locale class_contract =
  fixes vt :: dispatch
  assumes start_keeps: "heap_ok h \<Longrightarrow> mods h a = Some m \<Longrightarrow>
      \<exists>h' m'. vt_start (vt (class_name m)) now a h = Inr h' \<and> keeps h h' \<and> mods h' a = Some m' \<and> is_started m'"
    and update_keeps: "heap_ok h \<Longrightarrow> mods h a = Some m \<Longrightarrow>
      \<exists>h'. vt_update (vt (class_name m)) now a h = Inr h' \<and> keeps h h'"
    and notifyData_keeps: "heap_ok h \<Longrightarrow> mods h a = Some m \<Longrightarrow> streams h s = Some d \<Longrightarrow>
      a \<in> set (observers d) \<Longrightarrow> data d \<noteq> None \<Longrightarrow>
      \<exists>h'. vt_notifyData (vt (class_name m)) s a h = Inr h' \<and> keeps h h'"
    and guiFeedback_keeps: "heap_ok h \<Longrightarrow> mods h a = Some m \<Longrightarrow>
      \<exists>h'. vt_guiFeedback (vt (class_name m)) t x y a h = Inr h' \<and> keeps h h'"
    and callback_keeps: "heap_ok h \<Longrightarrow> mods h a = Some m \<Longrightarrow>
      \<exists>h'. vt_callback (vt (class_name m)) cb name a h = Inr h' \<and> keeps h h'"
    and stop_keeps: "heap_ok h \<Longrightarrow> mods h a = Some m \<Longrightarrow>
      \<exists>h'. vt_stop (vt (class_name m)) a h = Inr h' \<and> keeps h h'"
begin

lemma notifyObservers_loop_keeps:
  assumes "heap_ok h" "streams h s = Some d" "data d \<noteq> None" "set its \<subseteq> set (observers d)"
  shows "\<exists>h'. notifyObservers_loop vt s its h = Inr h' \<and> keeps h h'"
  using assms
proof (induction its arbitrary: h d)
  case Nil
  then show ?case by (simp add: keeps_refl)
next
  case (Cons a its)
  obtain m where m: "mods h a = Some m"
    using graph_okD(5) [OF heap_okD(1) [OF Cons.prems(1)] Cons.prems(2), of a] Cons.prems(4) by auto
  obtain h1 where h1: "vt_notifyData (vt (class_name m)) s a h = Inr h1" "keeps h h1"
    using notifyData_keeps [OF Cons.prems(1) m Cons.prems(2) _ Cons.prems(3)] Cons.prems(4) by auto
  obtain d1 where d1: "streams h1 s = Some d1" "stream_wires d1 = stream_wires d" "data d1 \<noteq> None"
    using keepsD(3) [OF h1(2) Cons.prems(2)] Cons.prems(3) by blast
  obtain h2 where h2: "notifyObservers_loop vt s its h1 = Inr h2" "keeps h1 h2"
    using Cons.IH [OF keepsD(1) [OF h1(2)] d1(1,3)] d1(2) Cons.prems(4) by (auto simp: stream_wires_def)
  show ?case using m h1 h2 keeps_trans [OF h1(2) h2(2)] by (simp add: store_eval)
qed

lemma push_keeps:
  assumes "heap_ok h" "streams h s = Some d" "p \<noteq> None"
  shows "\<exists>h'. stream_push vt p s h = Inr h' \<and> keeps h h'"
proof -
  let ?h = "put_stream s (d\<lparr>data := p\<rparr>) h"
  have k: "keeps h ?h" by (rule keeps_put_data [OF assms])
  have "streams ?h s = Some (d\<lparr>data := p\<rparr>)" by simp
  then obtain h' where h': "notifyObservers_loop vt s (observers d) ?h = Inr h'" "keeps ?h h'"
    using notifyObservers_loop_keeps [OF keepsD(1) [OF k], of s "d\<lparr>data := p\<rparr>" "observers d"] assms(3)
    by auto
  then show ?thesis
    using assms(2) keeps_trans [OF k] by (auto simp: stream_push_def notifyObservers_def store_eval)
qed

text \<open>A notified module is started and has its update pending.\<close>

lemma notifyUpdate_keeps:
  assumes "heap_ok h" "mods h a = Some m"
  shows "\<exists>h' m'. notifyUpdate vt now a h = Inr h' \<and> keeps h h' \<and> mods h' a = Some m' \<and>
    need_update m' \<and> is_started m' \<and> (use_thread m' \<longrightarrow> thread_trigger m' = Some True)"
proof -
  obtain h1 m1 where h1: "(if \<not> is_started m then vt_start (vt (class_name m)) now a h else Inr h) = Inr h1"
    "keeps h h1" "mods h1 a = Some m1" "is_started m1"
    using start_keeps [OF assms, of now] keeps_refl [OF assms(1)] assms(2) by (cases "is_started m") auto
  have ok: "module_ok m1" "life_ok a m1" using heap_okD(3,2) [OF keepsD(1) [OF h1(2)] h1(3)] by auto
  let ?m2 = "m1\<lparr>need_update := True\<rparr>"
  let ?m3 = "if use_thread m1 then ?m2\<lparr>thread_trigger := Some True\<rparr> else ?m2"
  have r: "notifyUpdate vt now a h = Inr (put_module a ?m3 h1)"
    using assms(2) h1(1,3) ok(2) by (auto simp: notifyUpdate_def store_eval Let_def life_ok_def)
  have "keeps h1 (put_module a ?m3 h1)"
    by (rule keeps_put_module [OF keepsD(1) [OF h1(2)] h1(3)])
      (use ok in \<open>auto simp: module_ok_def life_ok_def module_wires_def\<close>)
  from r keeps_trans [OF h1(2) this] h1(4) show ?thesis by auto
qed

lemma poll_keeps:
  assumes "heap_ok h" "mods h a = Some m"
  shows "\<exists>h'. moModule_poll vt now now' a h = Inr h' \<and> keeps h h'"
proof (cases "use_thread m \<or> \<not> need_update m")
  case True
  then show ?thesis
    using assms keeps_refl [OF assms(1)] by (auto simp: moModule_poll_def needUpdate_def store_eval)
next
  case False
  let ?m1 = "m\<lparr>need_update := False, stats := stats_wait now (stats m)\<rparr>"
  note ok = heap_okD(3) [OF assms] heap_okD(2) [OF assms]
  have k1: "keeps h (put_module a ?m1 h)"
    by (rule keeps_put_module [OF assms])
      (use ok in \<open>auto simp: module_ok_def life_ok_def module_wires_def\<close>)
  obtain h2 where h2: "vt_update (vt (class_name m)) now a (put_module a ?m1 h) = Inr h2"
    "keeps (put_module a ?m1 h) h2"
    using update_keeps [OF keepsD(1) [OF k1], of a ?m1 now] by auto
  obtain m2 where m2: "mods h2 a = Some m2" using keepsD(2) [OF h2(2), of a ?m1] by auto
  let ?m3 = "m2\<lparr>stats := stats_process now' (stats m2)\<rparr>"
  have ok2: "module_ok m2" "life_ok a m2" using heap_okD(3,2) [OF keepsD(1) [OF h2(2)] m2] by auto
  have k3: "keeps h2 (put_module a ?m3 h2)"
    by (rule keeps_put_module [OF keepsD(1) [OF h2(2)] m2])
      (use ok2 in \<open>auto simp: module_ok_def life_ok_def module_wires_def\<close>)
  have "moModule_poll vt now now' a h = Inr (put_module a ?m3 h2)"
    using False assms(2) h2(1) m2 by (simp add: moModule_poll_def needUpdate_def store_eval Let_def)
  with keeps_trans [OF keeps_trans [OF k1 h2(2)] k3] show ?thesis by blast
qed

end

section \<open>Assigning a property\<close>

lemma set_string_ok:
  assumes "prop_wf p"
  shows "\<exists>p' f. set_string s p = Inr (p', f) \<and> prop_wf p' \<and> callbacks p' = callbacks p \<and>
    set f \<subseteq> set (callbacks p)"
proof -
  obtain l where l: "convertToPointList MO_PROPERTY_STRING (Some (VString s)) = Inr l"
    using convertToPointList_ok [of "VString s" MO_PROPERTY_STRING] by auto
  have "\<exists>p'. autoconvert MO_PROPERTY_STRING (Some (VString s)) p = Inr p'"
    using l by (cases "ptype p") (simp_all add: autoconvert.simps del: convertToPointList.simps)
  then have "\<exists>q. set_string s p = Inr q" by (auto simp: set_string_def set_value_def)
  then obtain p' f where r: "set_string s p = Inr (p', f)" by auto
  then have v: "set_value MO_PROPERTY_STRING (VString s) p = Inr (p', f)" by (simp add: set_string_def)
  then have "set f \<subseteq> set (callbacks p)" by (cases rule: set_value_cases) auto
  with r set_string_wf [OF assms r] set_value_fields(2) [OF v] show ?thesis by blast
qed

lemma tokenize_ok: "\<exists>ts. tokenize s [c] = Inr ts"
  by (simp add: tokenize_split_on)

context class_contract
begin

lemma gui_feedback_keeps:
  assumes "heap_ok h" "mods h a = Some m" "prop_wf p"
  shows "\<exists>h'. module_gui_feedback_cb vt p a h = Inr h' \<and> keeps h h'"
proof -
  obtain s where s: "asString p = Inr s" using asString_ok [OF assms(3)] by blast
  obtain ts where ts: "tokenize s '';'' = Inr ts" using tokenize_ok by blast
  show ?thesis
  proof (cases "s = '''' \<or> length ts \<noteq> 3")
    case True
    then show ?thesis using s ts keeps_refl [OF assms(1)] by (auto simp: module_gui_feedback_cb_def)
  next
    case False
    then show ?thesis
      using s ts assms(2) guiFeedback_keeps [OF assms(1,2)]
      by (simp add: module_gui_feedback_cb_def store_eval)
  qed
qed

lemma run_fired_keeps:
  assumes "heap_ok h" "mods h a = Some m" "name \<in> fst ` set (properties m)" "\<forall>c \<in> set f. snd c = a"
  shows "\<exists>h'. run_fired vt f name a h = Inr h' \<and> keeps h h'"
  using assms
proof (induction f arbitrary: h m)
  case Nil
  then show ?case by (simp add: keeps_refl)
next
  case (Cons c f)
  obtain cb where c: "c = (cb, a)" using Cons.prems(4) by (cases c) auto
  obtain p where p: "map_of (properties m) name = Some p"
    using Cons.prems(3) by (metis domD dom_map_of_conv_image_fst)
  then have "p \<in> snd ` set (properties m)" by (force dest: map_of_SomeD)
  then have wf: "prop_wf p"
    using heap_okD(3) [OF Cons.prems(1,2)] unfolding module_ok_def by blast
  obtain h1 where h1: "(if cb = module_gui_feedback_addr then module_gui_feedback_cb vt p a h
      else vt_callback (vt (class_name m)) cb name a h) = Inr h1" "keeps h h1"
    using gui_feedback_keeps [OF Cons.prems(1,2) wf] callback_keeps [OF Cons.prems(1,2)]
    by (cases "cb = module_gui_feedback_addr") auto
  obtain m1 where m1: "mods h1 a = Some m1" "props_kept m m1"
    using keepsD(2) [OF h1(2) Cons.prems(2)] by blast
  obtain h2 where h2: "run_fired vt f name a h1 = Inr h2" "keeps h1 h2"
    using Cons.IH [OF keepsD(1) [OF h1(2)] m1(1)] props_kept_keys [OF m1(2)] Cons.prems(3,4) by auto
  have "run_fired vt (c # f) name a h = Inr h2"
    using c p h1(1) h2(1) Cons.prems(2) by (auto simp: store_eval)
  with keeps_trans [OF h1(2) h2(2)] show ?case by blast
qed

lemma property_set_keeps:
  assumes "heap_ok h" "mods h a = Some m"
  shows "\<exists>h'. property_set vt name value a h = Inr h' \<and> keeps h h'"
proof -
  obtain m1 p where mp: "module_property name m = (m1, p)" by fastforce
  note ok = module_property_ok [OF heap_okD(3,2) [OF assms(1)], OF assms(2,2) mp]
  have wf: "prop_wf p" using ok by simp
  obtain p' f where p': "set_string value p = Inr (p', f)" "prop_wf p'" "callbacks p' = callbacks p"
    "set f \<subseteq> set (callbacks p)" using set_string_ok [OF wf] by blast
  have "p \<in> snd ` set (properties m1)" using ok by (force dest: map_of_SomeD)
  then have cb: "\<forall>c \<in> set (callbacks p'). snd c = a"
    using ok p'(3) unfolding life_ok_def by auto
  let ?m2 = "m1\<lparr>properties := smap_set name p' (properties m1)\<rparr>"
  have old: "\<forall>q \<in> snd ` set (properties m1). prop_wf q"
    "\<forall>q \<in> snd ` set (properties m1). \<forall>c \<in> set (callbacks q). snd c = a"
    using ok unfolding module_ok_def life_ok_def by fast+
  note new = smap_all_set [where P = prop_wf and k = name, OF old(1) p'(2)]
    smap_all_set [where P = "\<lambda>q. \<forall>c \<in> set (callbacks q). snd c = a" and k = name, OF old(2) cb]
  have m2: "module_ok ?m2" "life_ok a ?m2"
    using ok new by (simp_all add: module_ok_def life_ok_def)
  have "props_kept m1 ?m2"
  proof (rule props_kept_set)
    show "p' = q" if "map_of (properties m1) name = Some q" "readonly q" for q
      using that ok p'(1) by (simp add: set_string_def set_value_def)
  qed simp
  then have pk: "props_kept m ?m2" using ok props_kept_trans by blast
  have k: "keeps h (put_module a ?m2 h)"
    by (rule keeps_put_module [OF assms m2 _ pk]) (use ok in \<open>simp add: module_wires_def\<close>)
  have fa: "\<forall>c \<in> set f. snd c = a" using cb p'(3,4) by auto
  have nm: "name \<in> fst ` set (properties ?m2)" by (simp add: keys_smap_set)
  obtain h' where h': "run_fired vt f name a (put_module a ?m2 h) = Inr h'" "keeps (put_module a ?m2 h) h'"
    using run_fired_keeps [OF keepsD(1) [OF k] _ nm fa] by auto
  have "property_set vt name value a h = Inr h'"
    using assms(2) mp p'(1) h'(1) by (simp add: property_set_def store_eval Let_def)
  with keeps_trans [OF k h'(2)] show ?thesis by blast
qed

end

section \<open>The classes that override nothing but notifyData\<close>

text \<open>The methods of \<open>moModule\<close> itself, with the empty \<open>update\<close> that \<open>moPipeline\<close> and
  \<open>moDumpModule\<close> give; these classes register no callback of their own.\<close>

definition base_vtable :: vtable where
  "base_vtable =
     \<lparr>vt_start = moModule_start, vt_stop = moModule_stop, vt_update = (\<lambda>_ _ h. Inr h),
      vt_notifyData = (\<lambda>_ _ h. Inr h), vt_guiFeedback = (\<lambda>_ _ _ _ h. Inr h),
      vt_guiBuild = (\<lambda>_ h. Inr h), vt_callback = (\<lambda>_ _ _ h. Inr h)\<rparr>"

text \<open>\<open>moDumpModule::notifyData\<close> reads the image or the list behind the stream to log its size.\<close>

definition dump_notifyData :: "saddr \<Rightarrow> maddr \<Rightarrow> heap \<Rightarrow> heap result" where
  "dump_notifyData s this h =
     bindR (get_stream h s) (\<lambda>d.
       if format d = ''IplImage'' then (if data d = None then Inl NullDeref else Inr h)
       else if format d = ''blob'' \<or> format d = ''trackedblob''
       then (if data d = None then Inl NullDeref else Inr h)
       else Inr h)"

definition movid_vt :: dispatch where
  "movid_vt c = (if c = ''Dump'' then base_vtable\<lparr>vt_notifyData := dump_notifyData\<rparr> else base_vtable)"

lemma movid_vt_simps [simp]:
  "vt_start (movid_vt c) = moModule_start" "vt_stop (movid_vt c) = moModule_stop"
  "vt_update (movid_vt c) now a h = Inr h" "vt_guiFeedback (movid_vt c) t x y a h = Inr h"
  "vt_guiBuild (movid_vt c) a h = Inr h" "vt_callback (movid_vt c) cb n a h = Inr h"
  "vt_notifyData (movid_vt c) = (if c = ''Dump'' then dump_notifyData else (\<lambda>_ _ h. Inr h))"
  by (simp_all add: movid_vt_def base_vtable_def)

lemma dump_notifyData_keeps:
  "heap_ok h \<Longrightarrow> streams h s = Some d \<Longrightarrow> data d \<noteq> None \<Longrightarrow> dump_notifyData s a h = Inr h"
  by (auto simp: dump_notifyData_def store_eval)

interpretation mv: class_contract movid_vt
proof (unfold_locales, goal_cases)
  case (1 h a m now)
  then show ?case using moModule_start_keeps by simp
next
  case (3 h a m s d)
  then show ?case using dump_notifyData_keeps [OF 3(1,3,5)] keeps_refl by auto
next
  case (6 h a m)
  then show ?case using moModule_stop_keeps by (simp, blast)
qed (simp_all add: keeps_refl)

section \<open>Properties\<close>

lemma demo_heap_ok: "heap_ok demo_heap"
proof -
  have "life_ok 0 demo_src" "life_ok 1 demo_sink"
    by (simp_all add: life_ok_def demo_src_def demo_sink_def moModule_ctor_def new_simps prop_init_def)
  with demo_graph_ok show ?thesis by (auto simp: heap_ok_def demo_heap_def split: if_splits)
qed





text \<open>The frame counters of the statistics together count the calls of \<open>stats_process\<close>.\<close>

definition frames :: "mo_module_stats_t \<Rightarrow> nat" where
  "frames st = u64 (st_process_frame st + total_process_frame st)"

lemma frames_stats_process [simp]: "frames (stats_process t st) = u64 (frames st + 1)"
  by (simp add: frames_def stats_process_def u64_def Let_def mod_simps ac_simps)

lemma frames_stats_wait [simp]: "frames (stats_wait t st) = frames st"
  by (simp add: frames_def stats_wait_def)



end
