(* ===== verification/Movid_Classes.thy ===== *)
theory Movid_Classes
  imports Movid_Module
begin

text \<open>
  The constructors of the module classes (\<open>src/modules/*.cpp\<close>) and the factory
  (\<open>src/moFactory.cpp\<close>).

  A constructor is the list of the statements that act on the state of \<open>moModule\<close>, the
  statements of the base class first; \<open>exec_instr\<close> runs one of them with the operations of
  \<open>moModule\<close>. Members that only the image processing of the class uses are not part of the
  state. A static check of such a list (\<open>instrs_ok\<close>) is proved to be enough for the
  constructor to run without a failed assertion and to leave a consistent store; it is
  evaluated on every registered class.
\<close>

section \<open>Constructors\<close>

datatype cinstr =
    CInit
  | CInitAs string
  | CIn int moDataStreamInfo
  | COut int string moDataStreamInfo
  | CInType int string
  | COutType int string
  | CProp string moProperty
  | CMin string int
  | CMax string int
  | CChoices string string
  | CCallback string callback
  | CSet string string
  | CGui

record class_decl =
  cd_name :: string
  cd_description :: string
  cd_caps :: nat
  cd_ctor :: "cinstr list"

text \<open>\<open>new moDataStream(format)\<close>\<close>

definition alloc_stream :: "string \<Rightarrow> heap \<Rightarrow> (saddr \<times> heap) result" where
  "alloc_stream fmt h =
     (case free_streams h of
        [] \<Rightarrow> Inl BadAlloc
      | s # ss \<Rightarrow> Inr (s, (put_stream s (new_stream fmt) h)\<lparr>free_streams := ss\<rparr>))"

text \<open>\<open>this->properties[k]->f(...)\<close>: a missing key gives a null pointer.\<close>

definition on_prop :: "(moProperty \<Rightarrow> moProperty result) \<Rightarrow> string \<Rightarrow> moModule \<Rightarrow> moModule result" where
  "on_prop f k m =
     (case map_of (properties m) k of
        None \<Rightarrow> Inl NullDeref
      | Some p \<Rightarrow> mapR (\<lambda>p'. m\<lparr>properties := smap_set k p' (properties m)\<rparr>) (f p))"

definition on_module :: "(moModule \<Rightarrow> moModule result) \<Rightarrow> maddr \<Rightarrow> heap \<Rightarrow> heap result" where
  "on_module f this h = bindR (get_module h this) (\<lambda>m. mapR (\<lambda>m'. put_module this m' h) (f m))"

text \<open>A property that is set in a constructor has no callback yet.\<close>

definition set_quiet :: "string \<Rightarrow> moProperty \<Rightarrow> moProperty result" where
  "set_quiet v p = bindR (set_string v p) (\<lambda>(p', fired). if fired = [] then Inr p' else Inl Undefined)"

fun exec_instr :: "string \<Rightarrow> cinstr \<Rightarrow> maddr \<Rightarrow> heap \<Rightarrow> heap result" where
  "exec_instr nm CInit this h =
     (let (i, h1) = createId nm h
      in on_module (\<lambda>m. Inr (m\<lparr>properties := smap_set ''id'' (new_string i '''') (properties m)\<rparr>)) this h1)"
| "exec_instr nm (CInitAs base) this h =
     (let (i, h1) = createId base h
      in on_module (\<lambda>m. Inr (m\<lparr>properties := smap_set ''id'' (new_string i '''') (properties m)\<rparr>)) this h1)"
| "exec_instr nm (CIn n info) this h = on_module (declareInput n (Cell None) (Some info)) this h"
| "exec_instr nm (COut n fmt info) this h =
     bindR (alloc_stream fmt h) (\<lambda>(s, h1).
       on_module (declareOutput n (Cell (Some s)) (Some info)) this h1)"
| "exec_instr nm (CInType n t) this h = setInputType n t this h"
| "exec_instr nm (COutType n t) this h = setOutputType n t this h"
| "exec_instr nm (CProp k p) this h =
     on_module (\<lambda>m. Inr (m\<lparr>properties := smap_set k p (properties m)\<rparr>)) this h"
| "exec_instr nm (CMin k v) this h = on_module (on_prop (\<lambda>p. Inr (setMin v p)) k) this h"
| "exec_instr nm (CMax k v) this h = on_module (on_prop (\<lambda>p. Inr (setMax v p)) k) this h"
| "exec_instr nm (CChoices k v) this h = on_module (on_prop (\<lambda>p. Inr (setChoices v p)) k) this h"
| "exec_instr nm (CCallback k cb) this h = on_module (on_prop (addCallback cb this) k) this h"
| "exec_instr nm (CSet k v) this h = on_module (on_prop (set_quiet v) k) this h"
| "exec_instr nm CGui this h = on_module (\<lambda>m. Inr (notifyGui m)) this h"

fun exec_instrs :: "string \<Rightarrow> cinstr list \<Rightarrow> maddr \<Rightarrow> heap \<Rightarrow> heap result" where
  "exec_instrs nm [] this h = Inr h"
| "exec_instrs nm (i # is) this h = bindR (exec_instr nm i this h) (exec_instrs nm is this)"

text \<open>\<open>new moXModule()\<close>: the memory of the object, the base class constructor, the body.\<close>

definition construct :: "class_decl \<Rightarrow> heap \<Rightarrow> (maddr \<times> heap) result" where
  "construct cd h =
     (case free_mods h of
        [] \<Rightarrow> Inl BadAlloc
      | a # as \<Rightarrow>
          mapR (\<lambda>h'. (a, h'))
            (exec_instrs (cd_name cd) (cd_ctor cd) a
               (put_module a (moModule_ctor (cd_name cd) (cd_description cd) ''native'' (cd_caps cd) a)
                  (h\<lparr>free_mods := as\<rparr>))))"

section \<open>The classes\<close>

abbreviation info :: "string \<Rightarrow> string \<Rightarrow> string \<Rightarrow> moDataStreamInfo" where
  "info n t d \<equiv> \<lparr>info_name = n, info_type = t, info_description = d\<rparr>"

abbreviation (input) MO_IO :: nat where
  "MO_IO \<equiv> 3"

lemma MO_IO_or: "MO_MODULE_INPUT OR MO_MODULE_OUTPUT = MO_IO"
  unfolding MO_MODULE_INPUT_def MO_MODULE_OUTPUT_def by code_simp

definition quoted :: "string \<Rightarrow> string \<Rightarrow> string" where
  "quoted s q = s @ [CHR 0x27] @ q @ [CHR 0x27]"

definition ImageFilter_ctor :: "cinstr list" where
  "ImageFilter_ctor =
     [CIn 0 (info ''image'' ''IplImage'' ''Input image stream''),
      COut 0 ''IplImage'' (info ''image'' ''IplImage'' ''Output image stream'')]"

definition ImageFilter8_ctor :: "cinstr list" where
  "ImageFilter8_ctor =
     ImageFilter_ctor @
     [CInType 0 ''IplImage,IplImage8'',
      COut 1 ''IplImage8'' (info ''image8'' ''IplImage8'' ''Output image stream (1 channel)'')]"

text \<open>A class derived from \<open>moImageFilterModule\<close> or \<open>moImageFilterModule8\<close>.\<close>

abbreviation image_filter :: "string \<Rightarrow> string \<Rightarrow> cinstr list \<Rightarrow> class_decl" where
  "image_filter n d is \<equiv> \<lparr>cd_name = n, cd_description = d, cd_caps = MO_IO, cd_ctor = ImageFilter_ctor @ is\<rparr>"

abbreviation image_filter8 :: "string \<Rightarrow> string \<Rightarrow> cinstr list \<Rightarrow> class_decl" where
  "image_filter8 n d is \<equiv> \<lparr>cd_name = n, cd_description = d, cd_caps = MO_IO, cd_ctor = ImageFilter8_ctor @ is\<rparr>"

abbreviation pint :: "string \<Rightarrow> int \<Rightarrow> cinstr" where "pint k v \<equiv> CProp k (new_int v '''')"
abbreviation pdbl :: "string \<Rightarrow> double \<Rightarrow> cinstr" where "pdbl k v \<equiv> CProp k (new_double v '''')"
abbreviation pbool :: "string \<Rightarrow> bool \<Rightarrow> cinstr" where "pbool k v \<equiv> CProp k (new_bool v '''')"
abbreviation pstr :: "string \<Rightarrow> string \<Rightarrow> cinstr" where "pstr k v \<equiv> CProp k (new_cstr v '''')"

definition Amplify :: class_decl where
  "Amplify = image_filter ''Amplify''
     ''Amplifies input image (for every pixel: p = p^amp, so larger values get larger quicker''
     [CInit, pdbl ''amplification'' (dbl (2/10))]"

definition BackgroundSubtract :: class_decl where
  "BackgroundSubtract = image_filter8 ''BackgroundSubtract''
     (''Subtracts the background from the current input image.'' @ endl @
      ''If 'toggle' is set to true, subtract each second frame.'' @ endl @
      ''Otherwise stores next frame as background once when 'recapture is set to true.'' @ [CHR 0x27])
     [CInit, pbool ''recapture'' True, pbool ''toggle'' False, pbool ''absolute'' False]"

definition BinaryMask :: class_decl where
  "BinaryMask = \<lparr>cd_name = ''BinaryMask'',
     cd_description = ''Everything that's black in the second image is black in the output image. Rest unchanged.'',
     cd_caps = MO_IO,
     cd_ctor = [CInit,
       CIn 0 (info ''image'' ''IplImage8'' ''Original image''),
       CIn 1 (info ''mask'' ''IplImage8'' ''Binary mask image.''),
       COut 0 ''IplImage8'' (info ''masked'' ''IplImage8'' ''Result of the masking.'')]\<rparr>"

definition BlobFinder :: class_decl where
  "BlobFinder = image_filter ''BlobFinder'' ''ContourBlobs Description''
     [CInit, COut 1 ''blob'' (info ''data'' ''blob'' ''Data stream with Blob info''),
      CInType 0 ''IplImage8'', pint ''min_size'' 4, pint ''max_size'' 2500]"

text \<open>The callbacks a class registers, by number.\<close>

definition calibration_update_size :: callback where "calibration_update_size = 2"
definition calibration_activate :: callback where "calibration_activate = 3"
definition calibration_surfacepoints :: callback where "calibration_surfacepoints = 4"
definition huobject_register :: callback where "huobject_register = 5"
definition image_file_changed :: callback where "image_file_changed = 6"
definition mask_saveas :: callback where "mask_saveas = 7"
definition mask_file_changed :: callback where "mask_file_changed = 8"

text \<open>The constructor ends with \<open>buildScreenPoints\<close> for the three rows and columns it has just
  set: the points \<open>(x / 2, y / 2)\<close>.\<close>

definition Calibration :: class_decl where
  "Calibration = \<lparr>cd_name = ''Calibration'', cd_description = ''Calibration'', cd_caps = 7,
     cd_ctor = [CInit,
       CIn 0 (info ''data'' ''trackedblob'' (quoted ''Data stream with type of '' ''trackedblob'')),
       COut 0 ''trackedblob'' (info ''data'' ''trackedblob'' (quoted ''Data stream with type of '' ''trackedblob'')),
       pint ''rows'' 3, CMin ''rows'' 2, CCallback ''rows'' calibration_update_size,
       pint ''cols'' 3, CMin ''cols'' 2, CCallback ''cols'' calibration_update_size,
       CProp ''screenPoints'' (new_points [] ''''), CProp ''surfacePoints'' (new_points [] ''''),
       CCallback ''surfacePoints'' calibration_surfacepoints,
       pbool ''calibrate'' False, CCallback ''calibrate'' calibration_activate,
       pint ''duration_per_point'' 50, CCallback ''duration_per_point'' calibration_activate,
       CSet ''screenPoints'' ''0,0;0,0.5;0,1;0.5,0;0.5,0.5;0.5,1;1,0;1,0.5;1,1;'', CGui]\<rparr>"

definition Camera :: class_decl where
  "Camera = \<lparr>cd_name = ''Camera'', cd_description = ''Fetch camera stream'', cd_caps = MO_MODULE_OUTPUT,
     cd_ctor = [CInit,
       COut 0 ''IplImage'' (info ''camera'' ''IplImage'' ''Image stream of the camera''),
       COut 1 ''IplImage8'' (info ''camera'' ''IplImage8'' ''Image stream of the camera''),
       pint ''index'' 0]\<rparr>"

definition Canny :: class_decl where
  "Canny = image_filter ''Canny'' ''Apply the Canny edge detector to an image''
     [CInit, pint ''lower_threshold'' 100, CMin ''lower_threshold'' 0, CMax ''lower_threshold'' 500,
      pint ''upper_threshold'' 200, CMin ''upper_threshold'' 0, CMax ''upper_threshold'' 500,
      CInType 0 ''IplImage8'', COutType 0 ''IplImage8'']"

definition Combine :: class_decl where
  "Combine = \<lparr>cd_name = ''Combine'', cd_description = ''Take the maximum color from 2 image'', cd_caps = MO_IO,
     cd_ctor = [CInit,
       CIn 0 (info ''image1'' ''IplImage'' ''Background image''),
       CIn 1 (info ''image2'' ''IplImage'' ''Image to combine to background (black is transparent)''),
       COut 0 ''IplImage'' (info ''combine'' ''IplImage'' ''Result of the combine'')]\<rparr>"

definition Dilate :: class_decl where
  "Dilate = image_filter ''Dilate'' ''Dilates the image (make bright regions bigger)''
     [CInit, pint ''iterations'' 1, CInType 0 ''IplImage8'', COutType 0 ''IplImage8'']"

definition DistanceTransform :: class_decl where
  "DistanceTransform = image_filter ''DistanceTransform''
     ''Assign each pixel a color representing pixel's distance to the closest contour.''
     [CInit, pint ''scale'' 5, CMin ''scale'' 1, CMax ''scale'' 255,
      pstr ''mask_size'' ''5'', CChoices ''mask_size'' ''3;5;Precise'',
      pstr ''metric'' ''L2'', CChoices ''metric'' ''L2;L1;L12;Fair;Welsch'']"

text \<open>The constructor of \<open>moDumpModule\<close> has no \<open>MODULE_INIT\<close>: the module has no id.\<close>

definition Dump :: class_decl where
  "Dump = \<lparr>cd_name = ''Dump'', cd_description = ''Dump all data informations in console'',
     cd_caps = MO_MODULE_INPUT,
     cd_ctor = [CIn 0 (info ''data'' ''*'' ''Show any data input in text format'')]\<rparr>"

definition Erode :: class_decl where
  "Erode = image_filter ''Erode'' ''Erodes the image (make bright regions smaller)''
     [CInit, pint ''iterations'' 1, CInType 0 ''IplImage8'', COutType 0 ''IplImage8'']"

definition EqualizeHist :: class_decl where
  "EqualizeHist = image_filter8 ''EqualizeHist'' ''EqualizeHist an image with one of several filters'' [CInit]"

definition FiducialFinder :: class_decl where
  "FiducialFinder = image_filter ''FiducialFinder'' ''Find Fiducials''
     [CInit, COut 1 ''blob'' (info ''data'' ''blob'' ''Data stream with fiducial info''), CInType 0 ''IplImage8'']"

definition FingerTipFinder :: class_decl where
  "FingerTipFinder = image_filter ''FingerTipFinder''
     (''Module capable of detecting hands in an image. Detection is based on color-segmentation, '' @
      ''contour-shape and distance transform. Finds fingertips & centerpoint of the palm.'')
     [CInit, COut 1 ''blob'' (info ''data'' ''blob'' ''Data stream with blobs''),
      pdbl ''min_distance'' 20, pdbl ''min_area'' 150, pdbl ''merge_distance'' 25,
      CMin ''merge_distance'' 0, CMax ''merge_distance'' 100, pbool ''adaptive_merge'' True,
      CInType 0 ''IplImage8'', COutType 0 ''IplImage8'']"

definition GrayScale :: class_decl where
  "GrayScale = image_filter ''GrayScale'' ''Converts input image to a one bit channel image''
     [CInit, COutType 0 ''IplImage8'']"

text \<open>\<open>moAbstractBlobTrackerModule\<close> runs \<open>MODULE_INIT\<close> with its own module name, and the
  derived class again with its name.\<close>

definition AbstractBlobTracker_ctor :: "cinstr list" where
  "AbstractBlobTracker_ctor =
     [CInitAs ''AbstractBlobTracker'', CIn 0 (info ''data'' ''blob'' (quoted ''Data stream of type '' ''blob'')),
      COut 0 ''trackedblob'' (info ''data'' ''trackedblob'' (quoted ''Data stream of type '' ''trackedblob'')),
      pint ''max_age'' 10, pint ''min_age'' 3, pint ''max_rotation_speed'' 46]"

definition GreedyBlobTracker :: class_decl where
  "GreedyBlobTracker = \<lparr>cd_name = ''GreedyBlobTracker'',
     cd_description = ''Track Blobs based on a simple greedy algorithm'', cd_caps = MO_IO,
     cd_ctor = AbstractBlobTracker_ctor @ [CInit, pdbl ''max_distance'' (dbl (1/10))]\<rparr>"

definition Highpass :: class_decl where
  "Highpass = image_filter ''Highpass'' ''Highpass filter'' [CInit, pint ''size'' 2, pint ''blur'' 2]"

definition Hsv :: class_decl where
  "Hsv = image_filter ''Hsv'' ''Hsv filter (can be used for color tracking)''
     [CInit, pint ''hmin'' 0, CMin ''hmin'' 0, CMax ''hmin'' 180,
      pint ''hmax'' 20, CMin ''hmax'' 0, CMax ''hmax'' 180,
      pint ''smin'' 0, CMin ''smin'' 0, CMax ''smin'' 255,
      pint ''smax'' 20, CMin ''smax'' 0, CMax ''smax'' 255,
      pint ''vmin'' 0, CMin ''vmin'' 0, CMax ''vmin'' 255,
      pint ''vmax'' 255, CMin ''vmax'' 0, CMax ''vmax'' 255, COutType 0 ''IplImage8'']"

definition HuObjectFinder :: class_decl where
  "HuObjectFinder = image_filter ''HuObjectFinder'' ''Find objects based on Hu moments''
     [CInit, COut 1 ''blob'' (info ''data'' ''blob'' ''Data stream with blobs''),
      COut 2 ''IplImage8'' (info ''data'' ''IplImage8''
        ''Binary image mask. Found objects are black, else white.''),
      CInType 0 ''IplImage8'', COutType 0 ''IplImage8'',
      pint ''min_id'' 513, pint ''max_size_difference'' 1500, pdbl ''max_match_score'' (1/2),
      pdbl ''min_area'' 150, CMin ''min_area'' 0, CMax ''min_area'' 1000,
      pbool ''register'' False, CCallback ''register'' huobject_register,
      pbool ''consider_holes'' False, pbool ''consider_shape'' True, pbool ''draw_bounding_box'' True]"

definition Image :: class_decl where
  "Image = \<lparr>cd_name = ''Image'', cd_description = ''Use a static image as source'', cd_caps = MO_MODULE_OUTPUT,
     cd_ctor = [CInit, COut 0 ''IplImage'' (info ''image'' ''IplImage'' ''Image stream on a static image''),
       pstr ''filename'' '''', CCallback ''filename'' image_file_changed]\<rparr>"

text \<open>The window name carries the static counter \<open>_count\<close>.\<close>

definition ImageDisplay :: "nat \<Rightarrow> class_decl" where
  "ImageDisplay count = \<lparr>cd_name = ''ImageDisplay'', cd_description = ''Display image on a window'',
     cd_caps = MO_MODULE_INPUT,
     cd_ctor = [CInit, CIn 0 (info ''image'' ''IplImage,IplImage8'' ''Show image stream in a window''),
       CProp ''name'' (new_string (''Movid'' @ show_nat count) '''')]\<rparr>"

definition Invert :: class_decl where
  "Invert = image_filter8 ''Invert'' ''Calculate the invert of an image'' [CInit]"

definition Justify :: class_decl where
  "Justify = \<lparr>cd_name = ''Justify'',
     cd_description = ''Justify the x/y data: (X/Y) = ((ma,mb)/(mc,md)) * (x/y) + (dx/dy)'', cd_caps = MO_IO,
     cd_ctor = [CInit, pdbl ''dx'' 0, pdbl ''dx'' 0, pdbl ''ma'' 1, pdbl ''mb'' 0, pdbl ''mc'' 0, pdbl ''md'' 1,
       CIn 0 (info ''data'' ''blob'' ''Data stream with type of blob''),
       COut 0 ''GenericTouch'' (info ''data'' ''blob'' ''Result of the justify'')]\<rparr>"

definition Mask :: class_decl where
  "Mask = image_filter ''Mask'' ''Mask Description''
     [CInit, pstr ''saveas'' '''', CCallback ''saveas'' mask_saveas,
      pstr ''filename'' '''', CCallback ''filename'' mask_file_changed]"

definition MirrorImage :: class_decl where
  "MirrorImage = image_filter ''MirrorImage'' ''Mirror an image. Flip it around x or y axis or both.''
     [CInit, pstr ''mirrorAxis'' ''x'']"

definition MunkresBlobTracker :: class_decl where
  "MunkresBlobTracker = \<lparr>cd_name = ''MunkresBlobTracker'',
     cd_description = ''Track Blobs based on munkres algorithm.'', cd_caps = MO_IO,
     cd_ctor = AbstractBlobTracker_ctor @ [CInit]\<rparr>"

definition PeakFinder :: class_decl where
  "PeakFinder = image_filter ''PeakFinder'' ''PeakFinder Description''
     [CInit, pdbl ''min_value'' 0, pdbl ''max_value'' 255, pint ''max_peaks'' 1, pdbl ''merge_distance'' 4]"

definition Roi :: class_decl where
  "Roi = image_filter ''Roi'' ''Roi filter''
     [CInit, pint ''left'' 20, pint ''top'' 10, pint ''width'' 200, pint ''height'' 100]"

definition Smooth :: class_decl where
  "Smooth = image_filter8 ''Smooth'' ''Smooth an image with one of several filters''
     [CInit, pint ''size'' 1, CMin ''size'' 1, CMax ''size'' 6,
      pstr ''filter'' ''median'', CChoices ''filter'' ''median;gaussian;blur;blur_no_scale'']"

definition Threshold :: class_decl where
  "Threshold = image_filter ''Threshold''
     ''Thresholding to throw away all values below or above certain threshold''
     [CInit, pint ''threshold'' 50, CMin ''threshold'' 0, CMax ''threshold'' 255,
      pbool ''adaptive'' False, pint ''block_size'' 21,
      pstr ''mode'' ''mean'', CChoices ''mode'' ''mean;gaussian'',
      pstr ''type'' ''binary'', CChoices ''type'' ''binary;binary_inv;trunc;tozero;tozero_inv'',
      CInType 0 ''IplImage8'', COutType 0 ''IplImage8'']"

definition Tuio :: class_decl where
  "Tuio = \<lparr>cd_name = ''Tuio'', cd_description = ''Convert stream to TUIO format (touch & fiducial)'',
     cd_caps = MO_MODULE_INPUT,
     cd_ctor = [CInit, CIn 0 (info ''data'' ''trackedblob'' (quoted ''Data stream with type of '' ''trackedblob'')),
       pstr ''ip'' ''127.0.0.1'', pint ''port'' 3333, pbool ''sendsize'' True]\<rparr>"

definition Tuio2 :: class_decl where
  "Tuio2 = \<lparr>cd_name = ''Tuio2'', cd_description = ''Convert stream to TUIO2 format'',
     cd_caps = MO_MODULE_INPUT,
     cd_ctor = [CInit, pstr ''ip'' ''127.0.0.1'', pint ''port'' 3333,
       CIn 0 (info ''data'' ''trackedblob'' (quoted ''Data stream with type of '' ''trackedblob''))]\<rparr>"

definition Video :: class_decl where
  "Video = \<lparr>cd_name = ''Video'', cd_description = ''Provide a stream from a video file'',
     cd_caps = MO_MODULE_OUTPUT,
     cd_ctor = [CInit, COut 0 ''IplImage'' (info ''video'' ''IplImage'' ''Video image stream''),
       pstr ''filename'' '''', pbool ''loop'' True]\<rparr>"

definition YCrCbThreshold :: class_decl where
  "YCrCbThreshold = image_filter ''YCrCbThreshold'' ''YCrCbThreshold filter (can be used for color tracking)''
     [CInit, pint ''Y_min'' 0, CMin ''Y_min'' 0, CMax ''Y_min'' 255,
      pint ''Y_max'' 255, CMin ''Y_max'' 0, CMax ''Y_max'' 255,
      pint ''Cr_min'' 145, CMin ''Cr_min'' 0, CMax ''Cr_min'' 255,
      pint ''Cr_max'' 175, CMin ''Cr_max'' 0, CMax ''Cr_max'' 255,
      pint ''Cb_min'' 100, CMin ''Cb_min'' 0, CMax ''Cb_min'' 255,
      pint ''Cb_max'' 130, CMin ''Cb_max'' 0, CMax ''Cb_max'' 255, COutType 0 ''IplImage8'']"

section \<open>The factory\<close>

type_synonym factory = "(string, class_decl) smap"

definition registerModule :: "string \<Rightarrow> class_decl \<Rightarrow> factory \<Rightarrow> factory" where
  "registerModule name cd database = smap_set name cd database"

text \<open>\<open>moFactory::init\<close>. \<open>count\<close> is the number of windows made so far.\<close>

definition all_classes :: "nat \<Rightarrow> class_decl list" where
  "all_classes count =
     [Amplify, BackgroundSubtract, BinaryMask, BlobFinder, Calibration, Camera, Canny, Combine, Dilate,
      DistanceTransform, Dump, Erode, EqualizeHist, FiducialFinder, FingerTipFinder, GrayScale,
      GreedyBlobTracker, Highpass, Hsv, HuObjectFinder, Image, ImageDisplay count, Invert, Justify, Mask,
      MirrorImage, MunkresBlobTracker, PeakFinder, Roi, Smooth, Threshold, Tuio, Tuio2, Video, YCrCbThreshold]"

definition factory_init :: "nat \<Rightarrow> factory" where
  "factory_init count = fold (\<lambda>cd db. registerModule (cd_name cd) cd db) (all_classes count) []"

text \<open>The name without the prefix \<open>mo\<close> and the suffix \<open>Module\<close>.\<close>

definition factory_sname :: "string \<Rightarrow> string" where
  "factory_sname name =
     (let s1 = (if length name > 2 \<and> take 2 name = ''mo'' then drop 2 name else name)
      in if length s1 > 6 \<and> drop (length s1 - 6) s1 = ''Module'' then take (length s1 - 6) s1 else s1)"

definition factory_create :: "factory \<Rightarrow> string \<Rightarrow> heap \<Rightarrow> (maddr option \<times> heap) result" where
  "factory_create database name h =
     (case map_of database (factory_sname name) of
        None \<Rightarrow> Inr (None, h)
      | Some cd \<Rightarrow> mapR (\<lambda>(a, h'). (Some a, h')) (construct cd h))"

definition factory_list :: "factory \<Rightarrow> string list" where
  "factory_list database = map fst database"

section \<open>Adding to the store\<close>

lemma attached_dead: "graph_ok h \<Longrightarrow> streams h s = None \<Longrightarrow> attached h a s = 0"
proof (rule ccontr)
  assume ok: "graph_ok h" and dead: "streams h s = None" and pos: "attached h a s \<noteq> 0"
  then obtain m where m: "mods h a = Some m" by (auto simp: attached_def split: option.splits)
  with pos have "filter (\<lambda>c. snd c = Cell (Some s)) (input_map m) \<noteq> []"
    by (auto simp: attached_def cells_to_def)
  then obtain n where n: "(n, Cell (Some s)) \<in> set (input_map m)" by (auto simp: filter_empty_conv)
  have "smap_wf (input_map m)" using graph_okD(1) [OF ok m] io_ok_wf by (auto simp: module_ok_def)
  with n have "map_of (input_map m) n = Some (Cell (Some s))"
    by (simp add: map_of_eq_Some_iff smap_wf_distinct)
  from graph_okD(2) [OF ok m this] dead show False by simp
qed

lemma graph_ok_extend:
  assumes ok: "graph_ok h"
    and mods': "mods h' = (mods h)(a := Some m')"
    and mok: "module_ok m'"
    and cells: "\<And>s. cells_to m' s = attached h a s"
    and inl: "\<And>n s. map_of (input_map m') n = Some (Cell (Some s)) \<Longrightarrow> streams h' s \<noteq> None"
    and outl: "\<And>n s. map_of (output_map m') n = Some (Cell (Some s)) \<Longrightarrow> streams h' s \<noteq> None"
    and old: "\<And>s d. streams h s = Some d \<Longrightarrow> \<exists>d'. streams h' s = Some d' \<and> observers d' = observers d"
    and new: "\<And>s d'. streams h' s = Some d' \<Longrightarrow> streams h s = None \<Longrightarrow> observers d' = []"
    and pub: "\<And>s. published h' s \<Longrightarrow> streams h s \<noteq> None \<Longrightarrow> published h s"
  shows "graph_ok h'"
proof -
  have att: "attached h' b s = attached h b s" for b s
    using mods' cells by (simp add: attached_def)
  have live: "streams h s \<noteq> None \<Longrightarrow> streams h' s \<noteq> None" for s using old by fastforce
  show ?thesis
    unfolding graph_ok_def
  proof (intro conjI allI impI)
    fix b mb assume b: "mods h' b = Some mb"
    show "module_ok mb"
      using b mods' mok graph_okD(1) [OF ok, of b mb] by (cases "b = a") auto
    show "streams h' s \<noteq> None" if "map_of (input_map mb) n = Some (Cell (Some s))" for n s
      using b mods' inl [of n s] graph_okD(2) [OF ok, of b mb n s] live [of s] that by (cases "b = a") auto
    show "streams h' s \<noteq> None" if "map_of (output_map mb) n = Some (Cell (Some s))" for n s
      using b mods' outl [of n s] graph_okD(3) [OF ok, of b mb n s] live [of s] that by (cases "b = a") auto
  next
    fix s d' b assume d': "streams h' s = Some d'"
    have both: "count_list (observers d') b \<le> attached h b s \<and>
        (published h' s \<longrightarrow> count_list (observers d') b = attached h b s)"
    proof (cases "streams h s")
      case None
      then show ?thesis using new [OF d' None] attached_dead [OF ok None] by simp
    next
      case (Some d)
      with old [OF Some] d' have "observers d' = observers d" by simp
      then show ?thesis using graph_okD(6,7) [OF ok Some] pub [of s] Some by simp
    qed
    show "count_list (observers d') b \<le> attached h' b s" using both att by simp
    show "count_list (observers d') b = attached h' b s" if "published h' s" using both att that by simp
  qed
qed

lemma smap_set_end: "\<forall>x \<in> fst ` set m. x < k \<Longrightarrow> smap_set k v m = m @ [(k, v)]"
  by (induction m) auto

lemma io_ok_extend:
  assumes "io_ok im infos" "c \<noteq> StorageNull"
  shows "smap_set (int (length im)) c im = im @ [(int (length im), c)]"
    and "io_ok (smap_set (int (length im)) c im) (smap_set (int (length im)) (Some i) infos)"
proof -
  let ?k = "int (length im)"
  have keys: "fst ` set im = int ` {0..<length im}" "fst ` set infos = fst ` set im"
    using assms(1) unfolding io_ok_def by (metis list.set_map atLeastLessThan_upt)+
  then have lt: "\<forall>x \<in> fst ` set im. x < ?k" "\<forall>x \<in> fst ` set infos. x < ?k" by auto
  show e: "smap_set ?k c im = im @ [(?k, c)]" by (rule smap_set_end [OF lt(1)])
  show "io_ok (smap_set ?k c im) (smap_set ?k (Some i) infos)"
    using assms unfolding e smap_set_end [OF lt(2)] io_ok_def by auto
qed

text \<open>The unused memory is unused.\<close>

definition mem_ok :: "heap \<Rightarrow> bool" where
  "mem_ok h \<longleftrightarrow>
     distinct (free_mods h) \<and> distinct (free_streams h) \<and>
     (\<forall>a \<in> set (free_mods h). mods h a = None) \<and> (\<forall>s \<in> set (free_streams h). streams h s = None)"

text \<open>Nothing but the new object and streams changes.\<close>

definition grown :: "maddr \<Rightarrow> heap \<Rightarrow> heap \<Rightarrow> bool" where
  "grown a h0 h \<longleftrightarrow>
     (\<forall>b. b \<noteq> a \<longrightarrow> mods h b = mods h0 b) \<and> (\<forall>s. streams h0 s \<noteq> None \<longrightarrow> streams h s = streams h0 s)"

section \<open>The static check of a constructor\<close>

fun instr_next :: "cinstr \<Rightarrow> nat \<Rightarrow> nat \<Rightarrow> (string \<times> callback list) list \<Rightarrow>
    (nat \<times> nat \<times> (string \<times> callback list) list) option" where
  "instr_next CInit i j ks = Some (i, j, (''id'', []) # ks)"
| "instr_next (CInitAs b) i j ks = Some (i, j, (''id'', []) # ks)"
| "instr_next (CIn n f) i j ks = (if n = int i then Some (Suc i, j, ks) else None)"
| "instr_next (COut n t f) i j ks = (if n = int j then Some (i, Suc j, ks) else None)"
| "instr_next (CInType n t) i j ks = Some (i, j, ks)"
| "instr_next (COutType n t) i j ks = Some (i, j, ks)"
| "instr_next (CProp k p) i j ks =
     (if prop_wf p \<and> callbacks p = [] then Some (i, j, (k, []) # ks) else None)"
| "instr_next (CMin k v) i j ks = (if map_of ks k = None then None else Some (i, j, ks))"
| "instr_next (CMax k v) i j ks = (if map_of ks k = None then None else Some (i, j, ks))"
| "instr_next (CChoices k v) i j ks = (if map_of ks k = None then None else Some (i, j, ks))"
| "instr_next (CCallback k cb) i j ks =
     (case map_of ks k of None \<Rightarrow> None
      | Some cs \<Rightarrow> if cb \<in> set cs then None else Some (i, j, (k, cb # cs) # ks))"
| "instr_next (CSet k v) i j ks = (if map_of ks k = Some [] then Some (i, j, ks) else None)"
| "instr_next CGui i j ks = Some (i, j, ks)"

fun instrs_ok :: "cinstr list \<Rightarrow> nat \<Rightarrow> nat \<Rightarrow> (string \<times> callback list) list \<Rightarrow> bool" where
  "instrs_ok [] i j ks = True"
| "instrs_ok (c # cs) i j ks =
     (case instr_next c i j ks of None \<Rightarrow> False | Some (i', j', ks') \<Rightarrow> instrs_ok cs i' j' ks')"

definition base_keys :: "(string \<times> callback list) list" where
  "base_keys = [(''gui_feedback'', [module_gui_feedback_addr]), (''use_thread'', [])]"

fun outs :: "cinstr list \<Rightarrow> nat" where
  "outs [] = 0"
| "outs (COut n t f # cs) = Suc (outs cs)"
| "outs (_ # cs) = outs cs"

text \<open>What holds between two statements of a constructor.\<close>

definition keys_ok :: "(string \<times> callback list) list \<Rightarrow> moModule \<Rightarrow> bool" where
  "keys_ok ks m \<longleftrightarrow>
     (\<forall>k cs. map_of ks k = Some cs \<longrightarrow>
        (\<exists>p. map_of (properties m) k = Some p \<and> fst ` set (callbacks p) = set cs))"

definition built :: "heap \<Rightarrow> maddr \<Rightarrow> nat \<Rightarrow> nat \<Rightarrow> (string \<times> callback list) list \<Rightarrow> heap \<Rightarrow> moModule \<Rightarrow> bool" where
  "built h0 a i j ks h m \<longleftrightarrow>
     heap_ok h \<and> mem_ok h \<and> grown a h0 h \<and> mods h a = Some m \<and>
     length (input_map m) = i \<and> length (output_map m) = j \<and> keys_ok ks m \<and>
     (\<forall>n c. map_of (input_map m) n = Some (Cell c) \<longrightarrow> c = None) \<and>
     (\<forall>n s. map_of (output_map m) n = Some (Cell (Some s)) \<longrightarrow> streams h0 s = None)"

lemma mem_ok_put_module: "mem_ok h \<Longrightarrow> mods h a \<noteq> None \<Longrightarrow> mem_ok (put_module a m h)"
  by (auto simp: mem_ok_def)

lemma grown_put_module: "grown a h0 h \<Longrightarrow> grown a h0 (put_module a m h)"
  by (auto simp: grown_def)

lemma built_put:
  assumes b: "built h0 a i j ks h m"
    and m': "input_map m' = input_map m" "output_map m' = output_map m" "module_ok m'" "life_ok a m'" "keys_ok ks' m'"
  shows "built h0 a i j ks' (put_module a m' h) m'"
proof -
  from b have h: "heap_ok h" "mem_ok h" "grown a h0 h" "mods h a = Some m" by (simp_all add: built_def)
  have "graph_ok (put_module a m' h)"
    by (rule graph_ok_update_module [OF heap_okD(1) [OF h(1)] h(4) m'(3,1,2)])
  moreover have "\<forall>c mc. mods (put_module a m' h) c = Some mc \<longrightarrow> life_ok c mc"
    using h(1) m'(4) by (auto simp: heap_ok_def)
  ultimately have "heap_ok (put_module a m' h)" by (simp add: heap_ok_def)
  moreover have "mem_ok (put_module a m' h)" using h(2,4) mem_ok_put_module by simp
  moreover have "grown a h0 (put_module a m' h)" using h(3) by (rule grown_put_module)
  ultimately show ?thesis using b m' unfolding built_def by simp
qed

lemma builtD:
  assumes "built h0 a i j ks h m"
  shows "heap_ok h" "mem_ok h" "grown a h0 h" "mods h a = Some m" "module_ok m" "life_ok a m" "keys_ok ks m"
    "length (input_map m) = i" "length (output_map m) = j"
  using assms heap_okD(2,3) [of h a m] by (simp_all add: built_def)

lemma built_props:
  assumes b: "built h0 a i j ks h m" and p: "prop_wf p" "\<forall>c \<in> set (callbacks p). snd c = a"
    and cs: "fst ` set (callbacks p) = set cs"
    and k: "ks' = (k, cs) # ks \<or> ks' = ks \<and> (\<forall>cs'. map_of ks k = Some cs' \<longrightarrow> set cs' = set cs)"
  shows "built h0 a i j ks' (put_module a (m\<lparr>properties := smap_set k p (properties m)\<rparr>) h)
    (m\<lparr>properties := smap_set k p (properties m)\<rparr>)"
proof (rule built_put [OF b])
  have old: "\<forall>q \<in> snd ` set (properties m). prop_wf q"
    "\<forall>q \<in> snd ` set (properties m). \<forall>c \<in> set (callbacks q). snd c = a"
    using builtD(5,6) [OF b] unfolding module_ok_def life_ok_def by fast+
  note new = smap_all_set [where P = prop_wf and k = k, OF old(1) p(1)]
    smap_all_set [where P = "\<lambda>q. \<forall>c \<in> set (callbacks q). snd c = a" and k = k, OF old(2) p(2)]
  show "module_ok (m\<lparr>properties := smap_set k p (properties m)\<rparr>)"
    using builtD(5) [OF b] new(1) by (simp add: module_ok_def)
  show "life_ok a (m\<lparr>properties := smap_set k p (properties m)\<rparr>)"
    using builtD(6) [OF b] new(2) by (simp add: life_ok_def)
  show "keys_ok ks' (m\<lparr>properties := smap_set k p (properties m)\<rparr>)"
    using builtD(7) [OF b] k cs by (auto simp: keys_ok_def)
qed simp_all

lemma on_prop_built:
  assumes b: "built h0 a i j ks h m" and k: "map_of ks k = Some cs"
    and f: "\<And>p. prop_wf p \<Longrightarrow> \<forall>c \<in> set (callbacks p). snd c = a \<Longrightarrow> fst ` set (callbacks p) = set cs \<Longrightarrow>
       \<exists>p'. f p = Inr p' \<and> prop_wf p' \<and> (\<forall>c \<in> set (callbacks p'). snd c = a) \<and> fst ` set (callbacks p') = set cs'"
    and ks': "ks' = (k, cs') # ks \<or> ks' = ks \<and> set cs' = set cs"
  shows "\<exists>h' m'. on_module (on_prop f k) a h = Inr h' \<and> built h0 a i j ks' h' m'"
proof -
  obtain p where p: "map_of (properties m) k = Some p" "fst ` set (callbacks p) = set cs"
    using builtD(7) [OF b] k unfolding keys_ok_def by blast
  have "p \<in> snd ` set (properties m)" using p(1) by (force dest: map_of_SomeD)
  then have wf: "prop_wf p" "\<forall>c \<in> set (callbacks p). snd c = a"
    using builtD(5,6) [OF b] unfolding module_ok_def life_ok_def by blast+
  obtain p' where p': "f p = Inr p'" "prop_wf p'" "\<forall>c \<in> set (callbacks p'). snd c = a"
    "fst ` set (callbacks p') = set cs'" using f [OF wf p(2)] by blast
  have ks'': "ks' = (k, cs') # ks \<or> ks' = ks \<and> (\<forall>cs2. map_of ks k = Some cs2 \<longrightarrow> set cs2 = set cs')"
    using ks' k by auto
  show ?thesis
    using built_props [OF b p'(2,3,4) ks''] p(1) p'(1) builtD(4) [OF b]
    by (auto simp: on_module_def on_prop_def store_eval)
qed

lemma quiet_setters:
  "callbacks (setMin v p) = callbacks p" "prop_wf (setMin v p) = prop_wf p"
  "callbacks (setMax v p) = callbacks p" "prop_wf (setMax v p) = prop_wf p"
  "callbacks (setChoices w p) = callbacks p" "prop_wf (setChoices w p) = prop_wf p"
  by (simp_all add: setMin_def setMax_def setChoices_def prop_wf_def cong: option.case_cong)

lemma built_quiet:
  assumes "built h0 a i j ks h m" "map_of ks k \<noteq> None" "f = setMin v \<or> f = setMax v \<or> f = setChoices w"
  shows "\<exists>h' m'. on_module (on_prop (\<lambda>p. Inr (f p)) k) a h = Inr h' \<and> built h0 a i j ks h' m'"
proof -
  obtain cs where cs: "map_of ks k = Some cs" using assms(2) by auto
  have f: "callbacks (f p) = callbacks p \<and> prop_wf (f p) = prop_wf p" for p
    using assms(3) by (elim disjE) (simp_all add: quiet_setters)
  show ?thesis
    by (rule on_prop_built [OF assms(1) cs, where cs' = cs]) (simp_all add: f)
qed

lemma built_in:
  assumes b: "built h0 a i j ks h m"
  shows "\<exists>h' m'. on_module (declareInput (int i) (Cell None) (Some f)) a h = Inr h' \<and> built h0 a (Suc i) j ks h' m'"
proof -
  let ?m = "m\<lparr>input_map := smap_set (int i) (Cell None) (input_map m),
              input_infos := smap_set (int i) (Some f) (input_infos m)\<rparr>"
  have io: "io_ok (input_map m) (input_infos m)" using builtD(5) [OF b] by (simp add: module_ok_def)
  have nn: "Cell None \<noteq> StorageNull" by simp
  note ext = io_ok_extend(1) [OF io nn, unfolded builtD(8) [OF b]]
    io_ok_extend(2) [OF io nn, of f, unfolded builtD(8) [OF b]]
  have im: "input_map ?m = input_map m @ [(int i, Cell None)]" using ext(1) by simp
  have mok: "module_ok ?m" using builtD(5) [OF b] ext(2) by (simp add: module_ok_def)
  have lok: "life_ok a ?m" using builtD(6) [OF b] by (simp add: life_ok_def)
  have wires: "map_of (input_map ?m) n = Some (Cell (Some s)) \<Longrightarrow> map_of (input_map m) n = Some (Cell (Some s))" for n s
    by (simp split: if_splits)
  have g: "graph_ok (put_module a ?m h)"
  proof (rule graph_ok_extend [OF heap_okD(1) [OF builtD(1) [OF b]] _ mok])
    show "cells_to ?m s = attached h a s" for s
      using builtD(4) [OF b] im by (simp add: attached_def cells_to_def)
    show "streams (put_module a ?m h) s \<noteq> None" if "map_of (input_map ?m) n = Some (Cell (Some s))" for n s
      using graph_okD(2) [OF heap_okD(1) [OF builtD(1) [OF b]] builtD(4) [OF b] wires [OF that]] by simp
    show "streams (put_module a ?m h) s \<noteq> None" if "map_of (output_map ?m) n = Some (Cell (Some s))" for n s
      using graph_okD(3) [OF heap_okD(1) [OF builtD(1) [OF b]] builtD(4) [OF b], of n s] that by simp
    show "published h s" if "published (put_module a ?m h) s" for s
      using that published_cong [of "put_module a ?m h" h s] builtD(4) [OF b] by simp
  qed simp_all
  have hk: "heap_ok (put_module a ?m h)" using g lok builtD(1) [OF b] by (auto simp: heap_ok_def)
  have mem: "mem_ok (put_module a ?m h)"
    by (rule mem_ok_put_module [OF builtD(2) [OF b]]) (simp add: builtD(4) [OF b])
  have ks: "keys_ok ks ?m" using builtD(7) [OF b] by (simp add: keys_ok_def)
  have len: "length (input_map ?m) = Suc i" unfolding im using builtD(8) [OF b] by simp
  have cells: "\<forall>n c. map_of (input_map ?m) n = Some (Cell c) \<longrightarrow> c = None"
    using b by (auto simp: built_def)
  have "built h0 a (Suc i) j ks (put_module a ?m h) ?m"
    using b hk mem ks len cells grown_put_module [OF builtD(3) [OF b], of ?m] unfolding built_def by simp
  then show ?thesis
    using builtD(4) [OF b] by (auto simp: on_module_def declareInput_def store_eval)
qed

lemma built_out:
  assumes b: "built h0 a i j ks h m" and free: "free_streams h \<noteq> []"
  shows "\<exists>h1 s h' m'. alloc_stream fmt h = Inr (s, h1) \<and>
    on_module (declareOutput (int j) (Cell (Some s)) (Some f)) a h1 = Inr h' \<and>
    built h0 a i (Suc j) ks h' m' \<and> free_streams h' = tl (free_streams h)"
proof -
  obtain s ss where fs: "free_streams h = s # ss" using free by (cases "free_streams h") auto
  have dead: "streams h s = None" using builtD(2) [OF b] fs by (simp add: mem_ok_def)
  let ?h1 = "(put_stream s (new_stream fmt) h)\<lparr>free_streams := ss\<rparr>"
  let ?m = "m\<lparr>output_map := smap_set (int j) (Cell (Some s)) (output_map m),
              output_infos := smap_set (int j) (Some f) (output_infos m)\<rparr>"
  let ?h2 = "put_module a ?m ?h1"
  have io: "io_ok (output_map m) (output_infos m)" using builtD(5) [OF b] by (simp add: module_ok_def)
  have nn: "Cell (Some s) \<noteq> StorageNull" by simp
  note ext = io_ok_extend(1) [OF io nn, unfolded builtD(9) [OF b]]
    io_ok_extend(2) [OF io nn, of f, unfolded builtD(9) [OF b]]
  have mok: "module_ok ?m" using builtD(5) [OF b] ext(2) by (simp add: module_ok_def)
  have lok: "life_ok a ?m" using builtD(6) [OF b] by (simp add: life_ok_def)
  have ok: "graph_ok h" using heap_okD(1) [OF builtD(1) [OF b]] .
  have g: "graph_ok ?h2"
  proof (rule graph_ok_extend [OF ok _ mok])
    show "cells_to ?m t = attached h a t" for t
      using builtD(4) [OF b] by (simp add: attached_def cells_to_def)
    show "streams ?h2 t \<noteq> None" if "map_of (input_map ?m) n = Some (Cell (Some t))" for n t
      using graph_okD(2) [OF ok builtD(4) [OF b], of n t] that by auto
    show "streams ?h2 t \<noteq> None" if "map_of (output_map ?m) n = Some (Cell (Some t))" for n t
      using graph_okD(3) [OF ok builtD(4) [OF b], of n t] that by (auto split: if_splits)
    show "\<exists>d'. streams ?h2 t = Some d' \<and> observers d' = observers d" if "streams h t = Some d" for t d
      using that dead by auto
    show "observers d' = []" if "streams ?h2 t = Some d'" "streams h t = None" for t d'
      using that by (auto simp: new_stream_def split: if_splits)
    show "published h t" if p: "published ?h2 t" "streams h t \<noteq> None" for t
    proof -
      from p(1) obtain c mc n where c: "mods ?h2 c = Some mc" "map_of (output_map mc) n = Some (Cell (Some t))"
        by (auto simp: published_def)
      have ts: "t \<noteq> s" using p(2) dead by auto
      have "\<exists>mc'. mods h c = Some mc' \<and> map_of (output_map mc') n = Some (Cell (Some t))"
        using c ts builtD(4) [OF b] by (cases "c = a") (auto split: if_splits)
      then show ?thesis unfolding published_def by blast
    qed
  qed simp
  have mem: "mem_ok ?h2" using builtD(2,4) [OF b] fs by (auto simp: mem_ok_def)
  have gr: "grown a h0 ?h2" using builtD(3) [OF b] dead by (auto simp: grown_def)
  have s0: "streams h0 s = None" using builtD(3) [OF b] dead by (auto simp: grown_def)
  have "heap_ok ?h2" using g lok builtD(1) [OF b] by (auto simp: heap_ok_def)
  moreover have "keys_ok ks ?m" using builtD(7) [OF b] by (simp add: keys_ok_def)
  moreover have "length (output_map ?m) = Suc j"
    using ext(1) builtD(9) [OF b] by simp
  ultimately have "built h0 a i (Suc j) ks ?h2 ?m"
    using b mem gr s0 unfolding built_def by (auto split: if_splits)
  then show ?thesis
    using builtD(4) [OF b] fs by (auto simp: alloc_stream_def on_module_def declareOutput_def store_eval)
qed

lemma io_ok_set_info:
  assumes "io_ok im infos" "map_of infos n = Some x"
  shows "io_ok im (smap_set n (Some f) infos)"
  using assms smap_set_present [of infos n x "Some f"] io_ok_wf [OF assms(1)] set_smap_set [of n "Some f" infos]
  unfolding io_ok_def by auto

lemma built_inType:
  assumes b: "built h0 a i j ks h m"
  shows "\<exists>h' m'. setInputType n t a h = Inr h' \<and> built h0 a i j ks h' m' \<and> free_streams h' = free_streams h"
proof -
  obtain c where c: "getInput m n = Inr c" using getInput_ok [OF builtD(5) [OF b]] by blast
  have "c = None"
    using c b by (auto simp: built_def getInput_def deref_storage_def split: option.splits storage.splits)
  show ?thesis
  proof (cases "getInputInfos m n")
    case None
    then show ?thesis using b c \<open>c = None\<close> builtD(4) [OF b] by (auto simp: setInputType_def store_eval)
  next
    case (Some f)
    then have f: "map_of (input_infos m) n = Some (Some f)" by (auto simp: getInputInfos_def split: option.splits)
    let ?m = "m\<lparr>input_infos := smap_set n (Some (f\<lparr>info_type := t\<rparr>)) (input_infos m)\<rparr>"
    have io: "io_ok (input_map m) (input_infos m)" using builtD(5) [OF b] by (simp add: module_ok_def)
    have "built h0 a i j ks (put_module a ?m h) ?m"
    proof (rule built_put [OF b])
      show "module_ok ?m" using builtD(5) [OF b] io_ok_set_info [OF io f] by (simp add: module_ok_def)
      show "life_ok a ?m" using builtD(6) [OF b] by (simp add: life_ok_def)
      show "keys_ok ks ?m" using builtD(7) [OF b] by (simp add: keys_ok_def)
    qed simp_all
    then show ?thesis using c \<open>c = None\<close> Some builtD(4) [OF b] by (auto simp: setInputType_def store_eval)
  qed
qed

lemma built_put_format:
  assumes b: "built h0 a i j ks h m" and n: "map_of (output_map m) n = Some (Cell (Some s))"
    and d: "streams h s = Some d"
  shows "built h0 a i j ks (put_stream s (d\<lparr>format := t\<rparr>) h) m"
proof -
  let ?h = "put_stream s (d\<lparr>format := t\<rparr>) h"
  have ok: "graph_ok h" using heap_okD(1) [OF builtD(1) [OF b]] .
  have ma: "mods h a = Some m" using builtD(4) [OF b] .
  have pub: "published ?h x = published h x" for x by (simp add: published_def)
  have "graph_ok ?h"
  proof (rule graph_ok_extend [OF ok, of _ a m])
    show "mods ?h = (mods h)(a := Some m)" using ma by auto
    show "module_ok m" using builtD(5) [OF b] .
    show "cells_to m x = attached h a x" for x using ma by (simp add: attached_def)
    show "streams ?h x \<noteq> None" if "map_of (input_map m) k = Some (Cell (Some x))" for k x
      using graph_okD(2) [OF ok ma that] by auto
    show "streams ?h x \<noteq> None" if "map_of (output_map m) k = Some (Cell (Some x))" for k x
      using graph_okD(3) [OF ok ma that] by auto
  qed (use d pub in \<open>auto split: if_splits\<close>)
  moreover have "streams h0 s = None" using b n by (auto simp: built_def)
  ultimately show ?thesis
    using b d unfolding built_def heap_ok_def by (auto simp: mem_ok_def grown_def)
qed

lemma built_outType:
  assumes b: "built h0 a i j ks h m"
  shows "\<exists>h' m'. setOutputType n t a h = Inr h' \<and> built h0 a i j ks h' m' \<and> free_streams h' = free_streams h"
proof -
  have ok: "graph_ok h" and ma: "mods h a = Some m"
    using heap_okD(1) [OF builtD(1) [OF b]] builtD(4) [OF b] by auto
  obtain c where c: "getOutput m n = Inr c" using getOutput_ok [OF builtD(5) [OF b]] by blast
  obtain h1 where h1: "(case c of None \<Rightarrow> Inr h | Some s \<Rightarrow> setFormat t s h) = Inr h1"
    "built h0 a i j ks h1 m" "free_streams h1 = free_streams h"
  proof (cases c)
    case None
    then show ?thesis using b by (intro that [of h]) auto
  next
    case (Some s)
    then have n: "map_of (output_map m) n = Some (Cell (Some s))"
      using c by (auto simp: getOutput_def deref_storage_def split: option.splits storage.splits)
    obtain d where d: "streams h s = Some d" using graph_okD(3) [OF ok ma n] by blast
    show ?thesis
      using built_put_format [OF b n d, of t] Some d
      by (intro that [of "put_stream s (d\<lparr>format := t\<rparr>) h"]) (auto simp: setFormat_def store_eval)
  qed
  show ?thesis
  proof (cases "getOutputInfos m n")
    case None
    then show ?thesis using h1 c ma by (auto simp: setOutputType_def store_eval)
  next
    case (Some f)
    then have f: "map_of (output_infos m) n = Some (Some f)" by (auto simp: getOutputInfos_def split: option.splits)
    let ?m = "m\<lparr>output_infos := smap_set n (Some (f\<lparr>info_type := t\<rparr>)) (output_infos m)\<rparr>"
    have io: "io_ok (output_map m) (output_infos m)" using builtD(5) [OF b] by (simp add: module_ok_def)
    have "built h0 a i j ks (put_module a ?m h1) ?m"
    proof (rule built_put [OF h1(2)])
      show "module_ok ?m" using builtD(5) [OF b] io_ok_set_info [OF io f] by (simp add: module_ok_def)
      show "life_ok a ?m" using builtD(6) [OF b] by (simp add: life_ok_def)
      show "keys_ok ks ?m" using builtD(7) [OF b] by (simp add: keys_ok_def)
    qed simp_all
    then show ?thesis using h1(1,3) c Some ma by (auto simp: setOutputType_def store_eval)
  qed
qed

text \<open>A constructor statement that passes the check runs, and uses a stream exactly when it
  declares an output.\<close>

abbreviation ran :: "heap \<Rightarrow> maddr \<Rightarrow> nat \<times> nat \<times> (string \<times> callback list) list \<Rightarrow> nat \<Rightarrow> heap \<Rightarrow> heap result \<Rightarrow> bool" where
  "ran h0 a st used h r \<equiv> \<exists>h' m'. r = Inr h' \<and> built h0 a (fst st) (fst (snd st)) (snd (snd st)) h' m' \<and>
     free_streams h' = drop used (free_streams h)"

lemma on_module_free: "on_module f a h = Inr h' \<Longrightarrow> free_streams h' = free_streams h"
  by (auto simp: on_module_def bindR_eq_Inr mapR_eq_Inr)

lemma built_idcount: "built h0 a i j ks h m \<Longrightarrow> built h0 a i j ks (h\<lparr>idcount := n\<rparr>) m"
proof -
  assume b: "built h0 a i j ks h m"
  have "graph_ok (h\<lparr>idcount := n\<rparr>) = graph_ok h"
    unfolding graph_ok_def attached_def published_def by simp
  with b show ?thesis unfolding built_def heap_ok_def mem_ok_def grown_def by simp
qed

lemma exec_init:
  assumes b: "built h0 a i j ks h m"
  shows "\<exists>h' m'. (let (x, h1) = createId base h
      in on_module (\<lambda>m. Inr (m\<lparr>properties := smap_set ''id'' (new_string x '''') (properties m)\<rparr>)) a h1) = Inr h' \<and>
    built h0 a i j ((''id'', []) # ks) h' m'"
proof -
  obtain x n where x: "createId base h = (x, h\<lparr>idcount := n\<rparr>)" by (simp add: createId_def)
  have b': "built h0 a i j ks (h\<lparr>idcount := n\<rparr>) m" using built_idcount [OF b] .
  have "callbacks (new_string x '''') = []" by (simp add: new_simps prop_init_def)
  then show ?thesis
    using built_props [OF b', of "new_string x ''''" "[]" "(''id'', []) # ks" "''id''"] x builtD(4) [OF b']
    by (auto simp: on_module_def store_eval Let_def)
qed

lemma exec_prop:
  assumes b: "built h0 a i j ks h m" and "prop_wf p" "callbacks p = []"
  shows "\<exists>h' m'. on_module (\<lambda>m. Inr (m\<lparr>properties := smap_set k p (properties m)\<rparr>)) a h = Inr h' \<and>
    built h0 a i j ((k, []) # ks) h' m'"
proof (intro exI conjI)
  show "on_module (\<lambda>m. Inr (m\<lparr>properties := smap_set k p (properties m)\<rparr>)) a h =
      Inr (put_module a (m\<lparr>properties := smap_set k p (properties m)\<rparr>) h)"
    using builtD(4) [OF b] by (simp add: on_module_def store_eval)
  show "built h0 a i j ((k, []) # ks) (put_module a (m\<lparr>properties := smap_set k p (properties m)\<rparr>) h)
      (m\<lparr>properties := smap_set k p (properties m)\<rparr>)"
    by (rule built_props [OF b assms(2)]) (simp_all add: assms(3))
qed

lemma exec_callback:
  assumes b: "built h0 a i j ks h m" and k: "map_of ks k = Some cs" and cb: "cb \<notin> set cs"
  shows "\<exists>h' m'. on_module (on_prop (addCallback cb a) k) a h = Inr h' \<and> built h0 a i j ((k, cb # cs) # ks) h' m'"
proof (rule on_prop_built [OF b k])
  fix p assume p: "prop_wf p" "\<forall>c \<in> set (callbacks p). snd c = a" "fst ` set (callbacks p) = set cs"
  have "map_of (callbacks p) cb = None" using p(3) cb by (simp add: map_of_eq_None_iff)
  then have e: "addCallback cb a p = Inr (p\<lparr>callbacks := smap_set cb a (callbacks p)\<rparr>)"
    by (simp add: addCallback_def)
  have "set (smap_set cb a (callbacks p)) \<subseteq> insert (cb, a) (set (callbacks p))" by (rule set_smap_set)
  with p(2) have "\<forall>c \<in> set (smap_set cb a (callbacks p)). snd c = a" by auto
  moreover have "prop_wf (p\<lparr>callbacks := smap_set cb a (callbacks p)\<rparr>)"
    using p(1) by (simp add: prop_wf_def cong: option.case_cong)
  ultimately show "\<exists>p'. addCallback cb a p = Inr p' \<and> prop_wf p' \<and>
      (\<forall>c \<in> set (callbacks p'). snd c = a) \<and> fst ` set (callbacks p') = set (cb # cs)"
    using e p(3) by (simp add: keys_smap_set)
qed simp

lemma exec_set:
  assumes b: "built h0 a i j ks h m" and k: "map_of ks k = Some []"
  shows "\<exists>h' m'. on_module (on_prop (set_quiet v) k) a h = Inr h' \<and> built h0 a i j ks h' m'"
proof (rule on_prop_built [OF b k, where cs' = "[]"])
  fix p assume p: "prop_wf p" "fst ` set (callbacks p) = set []"
  obtain p' f where p': "set_string v p = Inr (p', f)" "prop_wf p'" "callbacks p' = callbacks p"
    "set f \<subseteq> set (callbacks p)" using set_string_ok [OF p(1)] by blast
  then show "\<exists>p'. set_quiet v p = Inr p' \<and> prop_wf p' \<and>
      (\<forall>c \<in> set (callbacks p'). snd c = a) \<and> fst ` set (callbacks p') = set []"
    using p(2) by (simp add: set_quiet_def)
qed simp

lemma exec_gui:
  assumes b: "built h0 a i j ks h m"
  shows "\<exists>h' m'. on_module (\<lambda>m. Inr (notifyGui m)) a h = Inr h' \<and> built h0 a i j ks h' m'"
proof (intro exI conjI)
  show "on_module (\<lambda>m. Inr (notifyGui m)) a h = Inr (put_module a (notifyGui m) h)"
    using builtD(4) [OF b] by (simp add: on_module_def store_eval)
  show "built h0 a i j ks (put_module a (notifyGui m) h) (notifyGui m)"
    by (rule built_put [OF b])
      (use builtD(5,6,7) [OF b] in \<open>simp_all add: notifyGui_def module_ok_def life_ok_def keys_ok_def\<close>)
qed

lemma exec_instr_ok:
  assumes b: "built h0 a i j ks h m" and st: "instr_next c i j ks = Some st"
    and mem: "outs [c] \<le> length (free_streams h)"
  shows "ran h0 a st (outs [c]) h (exec_instr nm c a h)"
proof (cases c)
  case CInit
  then show ?thesis using st exec_init [OF b, of nm] on_module_free
    by (fastforce simp: Let_def createId_def)
next
  case (CInitAs base)
  then show ?thesis using st exec_init [OF b, of base] on_module_free
    by (fastforce simp: Let_def createId_def)
next
  case (CIn n f)
  then show ?thesis using st built_in [OF b, of f] on_module_free by (fastforce split: if_splits)
next
  case (COut n t f)
  with mem have "free_streams h \<noteq> []" by auto
  from built_out [OF b this, of t f] COut st show ?thesis
    by (fastforce simp: drop_Suc split: if_splits)
next
  case (CInType n t)
  then show ?thesis using st built_inType [OF b, of n t] by auto
next
  case (COutType n t)
  then show ?thesis using st built_outType [OF b, of n t] by auto
next
  case (CProp k p)
  then show ?thesis using st exec_prop [OF b, of p k] on_module_free by (fastforce split: if_splits)
next
  case (CMin k v)
  then show ?thesis using st built_quiet [OF b, of k "setMin v" v] on_module_free by (fastforce split: if_splits)
next
  case (CMax k v)
  then show ?thesis using st built_quiet [OF b, of k "setMax v" v] on_module_free by (fastforce split: if_splits)
next
  case (CChoices k v)
  then show ?thesis using st built_quiet [OF b, of k "setChoices v" 0 v] on_module_free by (fastforce split: if_splits)
next
  case (CCallback k cb)
  then show ?thesis using st exec_callback [OF b, of k _ cb] on_module_free
    by (fastforce split: if_splits option.splits)
next
  case (CSet k v)
  then show ?thesis using st exec_set [OF b, of k v] on_module_free by (fastforce split: if_splits)
next
  case CGui
  then show ?thesis using st exec_gui [OF b] on_module_free by fastforce
qed

lemma outs_Cons: "outs (c # cs) = outs [c] + outs cs"
  by (cases c) simp_all

lemma exec_instrs_ok:
  assumes "built h0 a i j ks h m" "instrs_ok cs i j ks" "outs cs \<le> length (free_streams h)"
  shows "\<exists>h' m' i' j' ks'. exec_instrs nm cs a h = Inr h' \<and> built h0 a i' j' ks' h' m'"
  using assms
proof (induction cs arbitrary: i j ks h m)
  case (Cons c cs)
  obtain st where st: "instr_next c i j ks = Some st" "instrs_ok cs (fst st) (fst (snd st)) (snd (snd st))"
    using Cons.prems(2) by (auto split: option.splits)
  have o: "outs [c] \<le> length (free_streams h)" using Cons.prems(3) outs_Cons [of c cs] by simp
  obtain h1 m1 where h1: "exec_instr nm c a h = Inr h1" "built h0 a (fst st) (fst (snd st)) (snd (snd st)) h1 m1"
    "free_streams h1 = drop (outs [c]) (free_streams h)"
    using exec_instr_ok [OF Cons.prems(1) st(1) o, of nm] by blast
  have "outs cs \<le> length (free_streams h1)" using Cons.prems(3) outs_Cons [of c cs] h1(3) by simp
  from Cons.IH [OF h1(2) st(2) this] h1(1) show ?case by simp
qed auto

text \<open>With too little memory a checked constructor ends with \<open>std::bad_alloc\<close>.\<close>

lemma exec_instrs_total:
  assumes "built h0 a i j ks h m" "instrs_ok cs i j ks"
  shows "exec_instrs nm cs a h = Inl BadAlloc \<or>
    (\<exists>h' m' i' j' ks'. exec_instrs nm cs a h = Inr h' \<and> built h0 a i' j' ks' h' m')"
  using assms
proof (induction cs arbitrary: i j ks h m)
  case (Cons c cs)
  obtain st where st: "instr_next c i j ks = Some st" "instrs_ok cs (fst st) (fst (snd st)) (snd (snd st))"
    using Cons.prems(2) by (auto split: option.splits)
  show ?case
  proof (cases "outs [c] \<le> length (free_streams h)")
    case True
    obtain h1 m1 where h1: "exec_instr nm c a h = Inr h1"
      "built h0 a (fst st) (fst (snd st)) (snd (snd st)) h1 m1"
      using exec_instr_ok [OF Cons.prems(1) st(1) True, of nm] by blast
    from Cons.IH [OF h1(2) st(2)] h1(1) show ?thesis by simp
  next
    case False
    then have "free_streams h = []" by (cases c; cases "free_streams h") auto
    moreover from False obtain n t f where "c = COut n t f" by (cases c) auto
    ultimately show ?thesis by (simp add: alloc_stream_def)
  qed
qed auto

lemma built_start:
  assumes ok: "heap_ok h" and mem: "mem_ok h" and fa: "free_mods h = a # as"
  shows "built h a 0 0 base_keys (put_module a (moModule_ctor c d u k a) (h\<lparr>free_mods := as\<rparr>))
    (moModule_ctor c d u k a)"
proof -
  let ?m = "moModule_ctor c d u k a"
  let ?h = "put_module a ?m (h\<lparr>free_mods := as\<rparr>)"
  have dead: "mods h a = None" using mem fa by (simp add: mem_ok_def)
  have mok: "module_ok ?m" by simp
  have lok: "life_ok a ?m" by (simp add: life_ok_def moModule_ctor_def new_simps prop_init_def)
  have io: "input_map ?m = []" "output_map ?m = []" by (simp_all add: moModule_ctor_def)
  have "graph_ok ?h"
  proof (rule graph_ok_extend [OF heap_okD(1) [OF ok] _ mok])
    show "cells_to ?m s = attached h a s" for s using dead io by (simp add: cells_to_def attached_def)
    show "published h s" if "published ?h s" for s
      using that dead io by (auto simp: published_def split: if_splits)
  qed (use io in auto)
  moreover have "\<forall>b mb. mods ?h b = Some mb \<longrightarrow> life_ok b mb" using lok ok by (auto simp: heap_ok_def)
  ultimately have hk: "heap_ok ?h" by (simp add: heap_ok_def)
  have mem': "mem_ok ?h" using mem fa by (auto simp: mem_ok_def)
  have keys: "keys_ok base_keys ?m"
    by (auto simp: keys_ok_def base_keys_def moModule_ctor_def new_simps prop_init_def)
  have gr: "grown a h ?h" by (simp add: grown_def)
  show ?thesis using hk mem' gr keys io unfolding built_def by simp
qed

lemma construct_ok:
  assumes ok: "heap_ok h" and mem: "mem_ok h" and fm: "free_mods h \<noteq> []"
    and fs: "outs (cd_ctor cd) \<le> length (free_streams h)" and chk: "instrs_ok (cd_ctor cd) 0 0 base_keys"
  shows "\<exists>a h' m. construct cd h = Inr (a, h') \<and> a \<in> set (free_mods h) \<and> mods h a = None \<and>
    heap_ok h' \<and> mem_ok h' \<and> grown a h h' \<and> mods h' a = Some m \<and>
    (\<forall>n c. map_of (input_map m) n = Some (Cell c) \<longrightarrow> c = None)"
proof -
  obtain a as where fa: "free_mods h = a # as" using fm by (cases "free_mods h") auto
  let ?m = "moModule_ctor (cd_name cd) (cd_description cd) ''native'' (cd_caps cd) a"
  let ?h = "put_module a ?m (h\<lparr>free_mods := as\<rparr>)"
  have dead: "mods h a = None" using mem fa by (simp add: mem_ok_def)
  have b: "built h a 0 0 base_keys ?h ?m" by (rule built_start [OF ok mem fa])
  have fs': "outs (cd_ctor cd) \<le> length (free_streams ?h)" using fs by simp
  obtain h' m' i' j' ks' where h': "exec_instrs (cd_name cd) (cd_ctor cd) a ?h = Inr h'" "built h a i' j' ks' h' m'"
    using exec_instrs_ok [OF b chk fs'] by blast
  have c: "construct cd h = Inr (a, h')" using h'(1) fa by (simp add: construct_def)
  have "\<forall>n c. map_of (input_map m') n = Some (Cell c) \<longrightarrow> c = None" using h'(2) by (simp add: built_def)
  with c builtD(1-4) [OF h'(2)] dead fa show ?thesis by auto
qed

lemma construct_total:
  assumes ok: "heap_ok h" and mem: "mem_ok h" and chk: "instrs_ok (cd_ctor cd) 0 0 base_keys"
  shows "construct cd h = Inl BadAlloc \<or>
    (\<exists>a h' m. construct cd h = Inr (a, h') \<and> mods h a = None \<and>
       heap_ok h' \<and> mem_ok h' \<and> grown a h h' \<and> mods h' a = Some m \<and>
       (\<forall>n s. map_of (output_map m) n = Some (Cell (Some s)) \<longrightarrow> streams h s = None))"
proof (cases "free_mods h")
  case Nil
  then show ?thesis by (simp add: construct_def)
next
  case (Cons a as)
  let ?m = "moModule_ctor (cd_name cd) (cd_description cd) ''native'' (cd_caps cd) a"
  have b: "built h a 0 0 base_keys (put_module a ?m (h\<lparr>free_mods := as\<rparr>)) ?m"
    by (rule built_start [OF ok mem Cons])
  have dead: "mods h a = None" using mem Cons by (simp add: mem_ok_def)
  from exec_instrs_total [OF b chk, of "cd_name cd"] show ?thesis
  proof
    assume "exec_instrs (cd_name cd) (cd_ctor cd) a (put_module a ?m (h\<lparr>free_mods := as\<rparr>)) = Inl BadAlloc"
    then show ?thesis using Cons by (simp add: construct_def)
  next
    assume "\<exists>h' m' i' j' ks'. exec_instrs (cd_name cd) (cd_ctor cd) a (put_module a ?m (h\<lparr>free_mods := as\<rparr>)) = Inr h' \<and>
      built h a i' j' ks' h' m'"
    then obtain h' m' i' j' ks' where
      e: "exec_instrs (cd_name cd) (cd_ctor cd) a (put_module a ?m (h\<lparr>free_mods := as\<rparr>)) = Inr h'"
      and b': "built h a i' j' ks' h' m'" by blast
    have "construct cd h = Inr (a, h')" using e Cons by (simp add: construct_def)
    moreover have "\<forall>n s. map_of (output_map m') n = Some (Cell (Some s)) \<longrightarrow> streams h s = None"
      using b' by (simp add: built_def)
    ultimately show ?thesis using builtD(1-4) [OF b'] dead by blast
  qed
qed

text \<open>A new module has no id yet, or a writable one without callbacks.\<close>

definition id_fresh :: "moModule \<Rightarrow> bool" where
  "id_fresh m \<longleftrightarrow>
     (case map_of (properties m) ''id'' of None \<Rightarrow> True
      | Some q \<Rightarrow> ptype q = MO_PROPERTY_STRING \<and> \<not> readonly q \<and> callbacks q = [])"

fun instr_key :: "cinstr \<Rightarrow> string option" where
  "instr_key (CProp k p) = Some k" | "instr_key (CMin k v) = Some k" | "instr_key (CMax k v) = Some k"
| "instr_key (CChoices k v) = Some k" | "instr_key (CCallback k cb) = Some k" | "instr_key (CSet k v) = Some k"
| "instr_key _ = None"

lemma on_prop_other: "on_prop f k m = Inr m' \<Longrightarrow> k \<noteq> ''id'' \<Longrightarrow> id_fresh m \<Longrightarrow> id_fresh m'"
  by (auto simp: on_prop_def id_fresh_def mapR_eq_Inr split: option.splits)

lemma id_fresh_io [simp]:
  "id_fresh (m\<lparr>input_infos := x\<rparr>) = id_fresh m" "id_fresh (m\<lparr>output_infos := x\<rparr>) = id_fresh m"
  "id_fresh (m\<lparr>input_map := y\<rparr>) = id_fresh m" "id_fresh (m\<lparr>output_map := y\<rparr>) = id_fresh m"
  by (simp_all add: id_fresh_def)

lemma on_module_post:
  assumes "on_module f a h = Inr h'" "mods h a = Some m" "\<And>m'. f m = Inr m' \<Longrightarrow> P m'"
  shows "\<exists>m'. mods h' a = Some m' \<and> P m'"
proof -
  obtain m' where m': "f m = Inr m'" "h' = put_module a m' h"
    using assms(1,2) by (auto simp: on_module_def store_eval mapR_eq_Inr)
  with assms(3) [OF m'(1)] show ?thesis by simp
qed

lemma exec_instr_id:
  assumes e: "exec_instr nm c a h = Inr h'" and m: "mods h a = Some m" "id_fresh m"
    and k: "instr_key c \<noteq> Some ''id''"
  shows "\<exists>m'. mods h' a = Some m' \<and> id_fresh m'"
proof -
  have new: "id_fresh (k\<lparr>properties := smap_set ''id'' (new_string x '''') (properties k)\<rparr>)" for k x
    by (simp add: id_fresh_def new_simps prop_init_def)
  have init: "\<exists>m'. mods h' a = Some m' \<and> id_fresh m'" if c: "c = CInit \<or> (\<exists>b. c = CInitAs b)"
  proof -
    obtain x n where "on_module (\<lambda>m. Inr (m\<lparr>properties := smap_set ''id'' (new_string x '''') (properties m)\<rparr>)) a
        (h\<lparr>idcount := n\<rparr>) = Inr h'"
      using e c by (auto simp: createId_def Let_def)
    then show ?thesis by (rule on_module_post [where m = m]) (use m(1) new in auto)
  qed
  have via_prop: "\<exists>m'. mods h' a = Some m' \<and> id_fresh m'"
    if "on_module (on_prop f k') a h = Inr h'" "k' \<noteq> ''id''" for f k'
    by (rule on_module_post [OF that(1) m(1)]) (rule on_prop_other [OF _ that(2) m(2)])
  show ?thesis
  proof (cases c)
    case (CInType n t)
    then show ?thesis using e m
      by (auto simp: setInputType_def setFormat_def upd_stream_def store_eval bindR_eq_Inr mapR_eq_Inr split: option.splits)
  next
    case (COutType n t)
    then show ?thesis using e m
      by (auto simp: setOutputType_def setFormat_def upd_stream_def store_eval bindR_eq_Inr mapR_eq_Inr split: option.splits)
  next
    case (CIn n f)
    with e have "on_module (declareInput n (Cell None) (Some f)) a h = Inr h'" by simp
    then show ?thesis using m(1)
      by (rule on_module_post) (use m(2) in \<open>auto simp: declareInput_def\<close>)
  next
    case (COut n t f)
    with e obtain s h1 where h1: "on_module (declareOutput n (Cell (Some s)) (Some f)) a h1 = Inr h'" "mods h1 = mods h"
      by (auto simp: bindR_eq_Inr alloc_stream_def split: list.splits)
    from h1(1) show ?thesis
      by (rule on_module_post [where m = m]) (use m h1(2) in \<open>auto simp: declareOutput_def\<close>)
  next
    case (CProp k' p)
    with e have "on_module (\<lambda>m. Inr (m\<lparr>properties := smap_set k' p (properties m)\<rparr>)) a h = Inr h'" by simp
    then show ?thesis using m(1)
      by (rule on_module_post) (use m(2) CProp k in \<open>auto simp: id_fresh_def\<close>)
  next
    case CGui
    with e have "on_module (\<lambda>m. Inr (notifyGui m)) a h = Inr h'" by simp
    then show ?thesis using m(1)
      by (rule on_module_post) (use m(2) in \<open>auto simp: notifyGui_def id_fresh_def\<close>)
  qed (use e k init via_prop in auto)
qed

lemma exec_instrs_id:
  "exec_instrs nm cs a h = Inr h' \<Longrightarrow> mods h a = Some m \<Longrightarrow> id_fresh m \<Longrightarrow>
     \<forall>c \<in> set cs. instr_key c \<noteq> Some ''id'' \<Longrightarrow> \<exists>m'. mods h' a = Some m' \<and> id_fresh m'"
proof (induction cs arbitrary: h m)
  case (Cons c cs)
  then obtain h1 where h1: "exec_instr nm c a h = Inr h1" "exec_instrs nm cs a h1 = Inr h'"
    by (auto simp: bindR_eq_Inr)
  obtain m1 where "mods h1 a = Some m1" "id_fresh m1"
    using exec_instr_id [OF h1(1) Cons.prems(2,3)] Cons.prems(4) by auto
  with Cons.IH [OF h1(2)] Cons.prems(4) show ?case by auto
qed auto

lemma construct_id:
  assumes "construct cd h = Inr (a, h')" "\<forall>c \<in> set (cd_ctor cd). instr_key c \<noteq> Some ''id''"
  shows "\<exists>m. mods h' a = Some m \<and> id_fresh m"
proof (cases "free_mods h")
  case (Cons b as)
  let ?m = "moModule_ctor (cd_name cd) (cd_description cd) ''native'' (cd_caps cd) a"
  have e: "exec_instrs (cd_name cd) (cd_ctor cd) a (put_module a ?m (h\<lparr>free_mods := as\<rparr>)) = Inr h'"
    using assms(1) Cons by (auto simp: construct_def mapR_eq_Inr)
  have f: "id_fresh ?m" by (simp add: id_fresh_def moModule_ctor_def)
  show ?thesis using exec_instrs_id [OF e _ f assms(2)] by simp
qed (use assms(1) in \<open>simp add: construct_def\<close>)

section \<open>The registered classes\<close>

lemmas class_defs = Amplify_def BackgroundSubtract_def BinaryMask_def BlobFinder_def Calibration_def
  Camera_def Canny_def Combine_def Dilate_def DistanceTransform_def Dump_def Erode_def EqualizeHist_def
  FiducialFinder_def FingerTipFinder_def GrayScale_def GreedyBlobTracker_def Highpass_def Hsv_def
  HuObjectFinder_def Image_def ImageDisplay_def Invert_def Justify_def Mask_def MirrorImage_def
  MunkresBlobTracker_def PeakFinder_def Roi_def Smooth_def Threshold_def Tuio_def Tuio2_def Video_def
  YCrCbThreshold_def ImageFilter_ctor_def ImageFilter8_ctor_def AbstractBlobTracker_ctor_def

lemmas callback_addrs = calibration_update_size_def calibration_activate_def calibration_surfacepoints_def
  image_file_changed_def mask_saveas_def huobject_register_def mask_file_changed_def

lemma new_callbacks [simp]:
  "callbacks (new_bool b d) = []" "callbacks (new_cstr s d) = []" "callbacks (new_string s d) = []"
  "callbacks (new_int i d) = []" "callbacks (new_double x d) = []" "callbacks (new_points l d) = []"
  by (simp_all add: new_simps prop_init_def)

definition class_checked :: "class_decl \<Rightarrow> bool" where
  "class_checked cd \<longleftrightarrow> instrs_ok (cd_ctor cd) 0 0 base_keys \<and> outs (cd_ctor cd) \<le> 3 \<and>
     (\<forall>c \<in> set (cd_ctor cd). instr_key c \<noteq> Some ''id'')"

lemma all_classes_checked: "list_all class_checked (all_classes n)"
  by (simp add: all_classes_def class_checked_def class_defs base_keys_def INT_MIN_def INT_MAX_def callback_addrs)

text \<open>A name that no rule of \<open>factory_sname\<close> changes.\<close>

definition plain_name :: "string \<Rightarrow> bool" where
  "plain_name n \<longleftrightarrow> 2 \<le> length n \<and> take 2 n \<noteq> ''mo'' \<and> \<not> (6 < length n \<and> drop (length n - 6) n = ''Module'')"

lemma all_classes_plain: "list_all (\<lambda>cd. plain_name (cd_name cd)) (all_classes n)"
  by (simp add: all_classes_def plain_name_def class_defs)

lemma all_classes_distinct: "distinct (map cd_name (all_classes n))"
  by (simp add: all_classes_def class_defs)

lemma factory_sname_spellings:
  assumes "plain_name n" "s \<in> {n, ''mo'' @ n, n @ ''Module'', ''mo'' @ n @ ''Module''}"
  shows "factory_sname s = n"
proof -
  have ne: "n \<noteq> []" and t: "take 2 (n @ x) = take 2 n" for x
    using assms(1) by (auto simp: plain_name_def)
  have "factory_sname n = n" using assms(1) by (auto simp: factory_sname_def plain_name_def Let_def)
  moreover have "factory_sname (''mo'' @ n) = n"
    using assms(1) ne by (auto simp: factory_sname_def plain_name_def Let_def numeral_2_eq_2)
  moreover have "factory_sname (n @ ''Module'') = n"
    using assms(1) ne t [of "''Module''"] by (auto simp: factory_sname_def plain_name_def Let_def)
  moreover have "factory_sname (''mo'' @ n @ ''Module'') = n"
    using ne by (simp add: factory_sname_def Let_def numeral_2_eq_2)
  ultimately show ?thesis using assms(2) by auto
qed

lemma factory_init_fold: "factory_init n = fold (\<lambda>(k, v). smap_set k v) (map (\<lambda>cd. (cd_name cd, cd)) (all_classes n)) []"
  by (simp add: factory_init_def registerModule_def fold_map comp_def)

lemma factory_init_wf: "smap_wf (factory_init n)"
  unfolding factory_init_fold by (rule sm.inv_fold_upd) simp

lemma factory_init_find:
  "map_of (factory_init n) k = map_of (map (\<lambda>cd. (cd_name cd, cd)) (all_classes n)) k"
proof -
  let ?l = "map (\<lambda>cd. (cd_name cd, cd)) (all_classes n)"
  have d: "distinct (map fst ?l)" using all_classes_distinct [of n] by (simp add: comp_def)
  from map_of_rev_distinct [OF d] show ?thesis
    unfolding factory_init_fold sm.find_fold_upd [OF smap_wf_Nil] by (simp split: option.split)
qed

lemma factory_init_Some:
  assumes "cd \<in> set (all_classes n)"
  shows "map_of (factory_init n) (cd_name cd) = Some cd"
  unfolding factory_init_find using assms all_classes_distinct [of n]
  by (intro map_of_is_SomeI) (auto simp: comp_def)

lemma exec_instr_class:
  assumes "exec_instr nm c a h = Inr h'" "mods h a = Some m"
  shows "\<exists>m'. mods h' a = Some m' \<and> class_name m' = class_name m"
  using assms
  by (cases c)
    (auto simp: on_module_def on_prop_def alloc_stream_def declareInput_def declareOutput_def store_eval
      setInputType_def setOutputType_def setFormat_def upd_stream_def createId_def notifyGui_def
      bindR_eq_Inr mapR_eq_Inr Let_def split: option.splits if_splits list.splits)

lemma exec_instrs_class:
  "exec_instrs nm cs a h = Inr h' \<Longrightarrow> mods h a = Some m \<Longrightarrow>
     \<exists>m'. mods h' a = Some m' \<and> class_name m' = class_name m"
proof (induction cs arbitrary: h m)
  case (Cons c cs)
  then obtain h1 where h1: "exec_instr nm c a h = Inr h1" "exec_instrs nm cs a h1 = Inr h'"
    by (auto simp: bindR_eq_Inr)
  obtain m1 where "mods h1 a = Some m1" "class_name m1 = class_name m"
    using exec_instr_class [OF h1(1) Cons.prems(2)] by blast
  with Cons.IH [OF h1(2)] show ?case by auto
qed auto

lemma construct_class:
  assumes "construct cd h = Inr (a, h')"
  shows "\<exists>m. mods h' a = Some m \<and> class_name m = cd_name cd"
proof (cases "free_mods h")
  case (Cons b as)
  with assms have "exec_instrs (cd_name cd) (cd_ctor cd) a
      (put_module a (moModule_ctor (cd_name cd) (cd_description cd) ''native'' (cd_caps cd) a) (h\<lparr>free_mods := as\<rparr>)) = Inr h'"
    by (auto simp: construct_def mapR_eq_Inr)
  from exec_instrs_class [OF this, of "moModule_ctor (cd_name cd) (cd_description cd) ''native'' (cd_caps cd) a"]
  show ?thesis by (auto simp: moModule_ctor_def)
qed (use assms in \<open>simp add: construct_def\<close>)

section \<open>Properties\<close>

text \<open>C13. Every registered class can be created under each of the four spellings of its name; the
  constructor runs without a failed assertion, takes unused memory, changes nothing else in
  the store, and leaves it consistent; the new module has the class that was asked for and no
  input is connected.\<close>

theorem create_registered:
  assumes "cd \<in> set (all_classes n)"
    and "s \<in> {cd_name cd, ''mo'' @ cd_name cd, cd_name cd @ ''Module'', ''mo'' @ cd_name cd @ ''Module''}"
    and "heap_ok h" and "mem_ok h" and "free_mods h \<noteq> []" and "3 \<le> length (free_streams h)"
  shows "\<exists>a h' m. factory_create (factory_init n) s h = Inr (Some a, h') \<and> mods h a = None \<and>
    heap_ok h' \<and> mem_ok h' \<and> grown a h h' \<and> mods h' a = Some m \<and> class_name m = cd_name cd \<and>
    (\<forall>k c. map_of (input_map m) k = Some (Cell c) \<longrightarrow> c = None)"
proof -
  have pl: "plain_name (cd_name cd)" and ck: "class_checked cd"
    using assms(1) all_classes_plain [of n] all_classes_checked [of n] by (auto simp: list_all_iff)
  have sn: "factory_sname s = cd_name cd" by (rule factory_sname_spellings [OF pl assms(2)])
  obtain a h' m where r: "construct cd h = Inr (a, h')" "mods h a = None" "heap_ok h'" "mem_ok h'" "grown a h h'"
    "mods h' a = Some m" "\<forall>k c. map_of (input_map m) k = Some (Cell c) \<longrightarrow> c = None"
    using construct_ok [OF assms(3,4,5), of cd] ck assms(6) by (auto simp: class_checked_def)
  have "class_name m = cd_name cd" using construct_class [OF r(1)] r(6) by auto
  moreover have "factory_create (factory_init n) s h = Inr (Some a, h')"
    using factory_init_Some [OF assms(1)] sn r(1) by (simp add: factory_create_def)
  ultimately show ?thesis using r by blast
qed

theorem create_registered_witness:
  "Calibration \<in> set (all_classes 0) \<and> heap_ok demo_heap \<and> mem_ok demo_heap \<and>
   (\<exists>a h' m. factory_create (factory_init 0) ''moCalibrationModule'' demo_heap = Inr (Some a, h') \<and>
     mods demo_heap a = None \<and> heap_ok h' \<and> mem_ok h' \<and> grown a demo_heap h' \<and> mods h' a = Some m \<and>
     class_name m = cd_name Calibration \<and>
     (\<forall>k c. map_of (input_map m) k = Some (Cell c) \<longrightarrow> c = None))"
proof -
  have c: "Calibration \<in> set (all_classes 0)" by (simp add: all_classes_def)
  have m: "mem_ok demo_heap" by (simp add: mem_ok_def demo_heap_def)
  have s: "''moCalibrationModule'' \<in> {cd_name Calibration, ''mo'' @ cd_name Calibration,
      cd_name Calibration @ ''Module'', ''mo'' @ cd_name Calibration @ ''Module''}"
    by (simp add: Calibration_def)
  have f: "free_mods demo_heap \<noteq> []" "3 \<le> length (free_streams demo_heap)" by (simp_all add: demo_heap_def)
  show ?thesis using c m demo_heap_ok create_registered [OF c s demo_heap_ok m f] by blast
qed

text \<open>C31. The factory lists each registered class exactly once, in the order of the names, and
  refuses, without touching the store, exactly the names whose stripped form is not listed.\<close>

theorem factory_lists_classes:
  "sorted_wrt (<) (factory_list (factory_init n)) \<and>
   set (factory_list (factory_init n)) = cd_name ` set (all_classes n) \<and>
   length (factory_list (factory_init n)) = 35 \<and>
   (factory_sname s \<notin> set (factory_list (factory_init n)) \<longleftrightarrow>
      factory_create (factory_init n) s h = Inr (None, h) )"
proof -
  have keys: "set (factory_list (factory_init n)) = cd_name ` set (all_classes n)"
  proof -
    have "dom (map_of (factory_init n)) = dom (map_of (map (\<lambda>cd. (cd_name cd, cd)) (all_classes n)))"
      by (simp add: factory_init_find dom_def)
    then show ?thesis by (simp add: dom_map_of_conv_image_fst factory_list_def image_image)
  qed
  have sorted: "sorted_wrt (<) (factory_list (factory_init n))"
    using factory_init_wf [of n] by (simp add: smap_wf_def factory_list_def)
  have "distinct (factory_list (factory_init n))" using sorted strict_sorted_iff by blast
  then have "length (factory_list (factory_init n)) = card (cd_name ` set (all_classes n))"
    using keys distinct_card by metis
  also have "\<dots> = length (map cd_name (all_classes n))"
    using all_classes_distinct [of n] distinct_card by (metis list.set_map)
  finally have len: "length (factory_list (factory_init n)) = 35" by (simp add: all_classes_def)
  have "factory_sname s \<notin> set (factory_list (factory_init n)) \<longleftrightarrow> map_of (factory_init n) (factory_sname s) = None"
    by (simp add: factory_list_def map_of_eq_None_iff)
  also have "\<dots> \<longleftrightarrow> factory_create (factory_init n) s h = Inr (None, h)"
    by (auto simp: factory_create_def mapR_eq_Inr split: option.splits)
  finally show ?thesis using keys sorted len by blast
qed

end
