(* ===== verification/Movid_Pipeline.thy ===== *)
theory Movid_Pipeline
  imports Movid_Classes
begin

text \<open>
  \<open>src/moPipeline.{h,cpp}\<close>: the pipeline is itself a module (at \<open>pl_this\<close>) that owns a list of
  modules. Its operations, the parser of pipeline files and the text a pipeline is saved as.

  The modules of a pipeline come from the factory, which does not register \<open>moPipeline\<close>: an
  element is never itself a pipeline, and \<open>haveError\<close> and \<open>getLastError\<close> of an element are the
  ones of \<open>moModule\<close>. What a parse error logs is not modelled, but for the call of
  \<open>getLastError\<close> in the message, which resets the error of the module. The contents of the file
  are an argument, \<open>None\<close> when it cannot be opened. \<open>is_group\<close> is not initialised by the
  constructor: \<open>None\<close>.
\<close>

section \<open>State\<close>

record moPipeline =
  pl_this :: maddr
  pl_modules :: "maddr list"
  pl_is_group :: "bool option"
  pl_last_internal_error :: string

section \<open>Operations\<close>

text \<open>\<open>new moPipeline()\<close>\<close>

definition Pipeline :: class_decl where
  "Pipeline = \<lparr>cd_name = ''Pipeline'', cd_description = ''Handle object list'', cd_caps = MO_MODULE_NONE, cd_ctor = [CInit]\<rparr>"

definition new_pipeline :: "heap \<Rightarrow> (moPipeline \<times> heap) result" where
  "new_pipeline h =
     mapR (\<lambda>(a, h'). (\<lparr>pl_this = a, pl_modules = [], pl_is_group = None, pl_last_internal_error = ''''\<rparr>, h'))
       (construct Pipeline h)"

fun each_module :: "(maddr \<Rightarrow> heap \<Rightarrow> heap result) \<Rightarrow> maddr list \<Rightarrow> heap \<Rightarrow> heap result" where
  "each_module f [] h = Inr h"
| "each_module f (a # as) h = bindR (f a h) (each_module f as)"

text \<open>The virtual calls \<open>(*it)->start()\<close>, \<open>stop()\<close> and \<open>poll()\<close>. Only the two sources of
  frames override \<open>poll\<close>: they ask for an update first.\<close>

definition virtual_start :: "dispatch \<Rightarrow> double \<Rightarrow> maddr \<Rightarrow> heap \<Rightarrow> heap result" where
  "virtual_start vt now a h = bindR (get_module h a) (\<lambda>m. vt_start (vt (class_name m)) now a h)"

definition virtual_stop :: "dispatch \<Rightarrow> maddr \<Rightarrow> heap \<Rightarrow> heap result" where
  "virtual_stop vt a h = bindR (get_module h a) (\<lambda>m. vt_stop (vt (class_name m)) a h)"

definition source_poll :: "dispatch \<Rightarrow> double \<Rightarrow> double \<Rightarrow> maddr \<Rightarrow> heap \<Rightarrow> heap result" where
  "source_poll vt now now' a h = bindR (notifyUpdate vt now a h) (moModule_poll vt now now' a)"

definition virtual_poll :: "dispatch \<Rightarrow> double \<Rightarrow> double \<Rightarrow> maddr \<Rightarrow> heap \<Rightarrow> heap result" where
  "virtual_poll vt now now' a h =
     bindR (get_module h a) (\<lambda>m.
       if class_name m = ''Camera'' \<or> class_name m = ''Video'' then source_poll vt now now' a h
       else moModule_poll vt now now' a h)"

definition pipe_start :: "dispatch \<Rightarrow> double \<Rightarrow> moPipeline \<Rightarrow> heap \<Rightarrow> heap result" where
  "pipe_start vt now p h =
     bindR (moModule_start now (pl_this p) h) (each_module (virtual_start vt now) (pl_modules p))"

definition pipe_stop :: "dispatch \<Rightarrow> moPipeline \<Rightarrow> heap \<Rightarrow> heap result" where
  "pipe_stop vt p h =
     bindR (moModule_stop (pl_this p) h) (each_module (virtual_stop vt) (pl_modules p))"

definition pipe_poll :: "dispatch \<Rightarrow> double \<Rightarrow> double \<Rightarrow> moPipeline \<Rightarrow> heap \<Rightarrow> heap result" where
  "pipe_poll vt now now' p h = each_module (virtual_poll vt now now') (pl_modules p) h"

text \<open>\<open>clear\<close>: after \<open>stop\<close> the loop deletes the first element and erases it, until none is left.\<close>

definition pipe_clear :: "dispatch \<Rightarrow> (moModule \<Rightarrow> saddr list) \<Rightarrow> moPipeline \<Rightarrow> heap \<Rightarrow> (moPipeline \<times> heap) result" where
  "pipe_clear vt frees p h =
     bindR (pipe_stop vt p h) (\<lambda>h1.
       mapR (\<lambda>h2. (p\<lparr>pl_modules := []\<rparr>, h2)) (each_module (delete_module frees) (pl_modules p) h1))"

definition firstModule :: "moPipeline \<Rightarrow> maddr result" where
  "firstModule p = (case pl_modules p of [] \<Rightarrow> Inl AssertFailed | a # _ \<Rightarrow> Inr a)"

definition lastModule :: "moPipeline \<Rightarrow> maddr result" where
  "lastModule p = (case pl_modules p of [] \<Rightarrow> Inl AssertFailed | _ \<Rightarrow> Inr (last (pl_modules p)))"

definition addElement :: "maddr option \<Rightarrow> moPipeline \<Rightarrow> heap \<Rightarrow> (moPipeline \<times> heap) result" where
  "addElement elem p h =
     (case elem of
        None \<Rightarrow> Inl AssertFailed
      | Some a \<Rightarrow> mapR (\<lambda>h1. (p\<lparr>pl_modules := pl_modules p @ [a]\<rparr>, h1))
                   (upd_module (\<lambda>m. m\<lparr>owner := Some (pl_this p)\<rparr>) a h))"

definition removeElement :: "maddr \<Rightarrow> moPipeline \<Rightarrow> moPipeline" where
  "removeElement a p = p\<lparr>pl_modules := erase_first a (pl_modules p)\<rparr>"

definition pipe_setInput :: "saddr option \<Rightarrow> int \<Rightarrow> moPipeline \<Rightarrow> heap \<Rightarrow> heap result" where
  "pipe_setInput stream n p h = bindR (firstModule p) (\<lambda>a. setInput stream n a h)"

definition pipe_getInput :: "int \<Rightarrow> moPipeline \<Rightarrow> heap \<Rightarrow> saddr option result" where
  "pipe_getInput n p h = bindR (lastModule p) (\<lambda>a. bindR (get_module h a) (\<lambda>m. getInput m n))"

definition pipe_getOutput :: "int \<Rightarrow> moPipeline \<Rightarrow> heap \<Rightarrow> saddr option result" where
  "pipe_getOutput n p h = bindR (lastModule p) (\<lambda>a. bindR (get_module h a) (\<lambda>m. getOutput m n))"

definition pipe_getInputCount :: "moPipeline \<Rightarrow> heap \<Rightarrow> nat result" where
  "pipe_getInputCount p h = bindR (firstModule p) (\<lambda>a. mapR getInputCount (get_module h a))"

definition pipe_getOutputCount :: "moPipeline \<Rightarrow> heap \<Rightarrow> nat result" where
  "pipe_getOutputCount p h = bindR (lastModule p) (\<lambda>a. mapR getOutputCount (get_module h a))"

definition pipe_getInputInfos :: "int \<Rightarrow> moPipeline \<Rightarrow> heap \<Rightarrow> moDataStreamInfo option result" where
  "pipe_getInputInfos n p h = bindR (firstModule p) (\<lambda>a. mapR (\<lambda>m. getInputInfos m n) (get_module h a))"

definition pipe_getOutputInfos :: "int \<Rightarrow> moPipeline \<Rightarrow> heap \<Rightarrow> moDataStreamInfo option result" where
  "pipe_getOutputInfos n p h = bindR (lastModule p) (\<lambda>a. mapR (\<lambda>m. getOutputInfos m n) (get_module h a))"

definition getModule :: "nat \<Rightarrow> moPipeline \<Rightarrow> maddr result" where
  "getModule index p = (if index < length (pl_modules p) then Inr (pl_modules p ! index) else Inl AssertFailed)"

fun getModuleById_loop :: "string \<Rightarrow> maddr list \<Rightarrow> heap \<Rightarrow> (maddr option \<times> heap) result" where
  "getModuleById_loop i [] h = Inr (None, h)"
| "getModuleById_loop i (a # as) h =
     bindR (property_get ''id'' a h) (\<lambda>(s, h1).
       if s = i then Inr (Some a, h1) else getModuleById_loop i as h1)"

definition getModuleById :: "string \<Rightarrow> moPipeline \<Rightarrow> heap \<Rightarrow> (maddr option \<times> heap) result" where
  "getModuleById i p h = getModuleById_loop i (pl_modules p) h"

definition setGroup :: "bool \<Rightarrow> moPipeline \<Rightarrow> moPipeline" where
  "setGroup g p = p\<lparr>pl_is_group := Some g\<rparr>"

fun any_error :: "maddr list \<Rightarrow> heap \<Rightarrow> maddr option result" where
  "any_error [] h = Inr None"
| "any_error (a # as) h = bindR (get_module h a) (\<lambda>m. if is_error m then Inr (Some a) else any_error as h)"

definition pipe_haveError :: "moPipeline \<Rightarrow> heap \<Rightarrow> bool result" where
  "pipe_haveError p h =
     (if pl_last_internal_error p \<noteq> '''' then Inr True
      else mapR (\<lambda>e. e \<noteq> None) (any_error (pl_modules p) h))"

definition pipe_getLastError :: "moPipeline \<Rightarrow> heap \<Rightarrow> (string \<times> heap) result" where
  "pipe_getLastError p h =
     (if pl_last_internal_error p \<noteq> '''' then Inr (pl_last_internal_error p, h)
      else bindR (any_error (pl_modules p) h) (\<lambda>e.
             case e of
               None \<Rightarrow> Inr ('''', h)
             | Some a \<Rightarrow> bindR (get_module h a) (\<lambda>m. mapR (\<lambda>(s, m1). (s, put_module a m1 h)) (getLastError m))))"

section \<open>The parser\<close>

record pstate =
  ps_pl :: moPipeline
  ps_heap :: heap
  ps_datamode :: bool
  ps_lateset :: "(string \<times> string \<times> string) list"
  ps_data_id :: string
  ps_oss :: string
  ps_delay :: int

text \<open>Every step gives \<open>False\<close> when the source returns \<open>false\<close> (\<open>PIPELINE_PARSE_ERROR\<close>).\<close>

type_synonym parsed = "(bool \<times> pstate) result"

definition parse_error :: "pstate \<Rightarrow> parsed" where
  "parse_error st = Inr (False, st)"

definition parsed_ok :: "pstate \<Rightarrow> parsed" where
  "parsed_ok st = Inr (True, st)"

text \<open>\<open>if ( module->haveError() ) PIPELINE_PARSE_ERROR(... << module->getLastError())\<close>\<close>

definition stop_on_error :: "maddr \<Rightarrow> (pstate \<Rightarrow> parsed) \<Rightarrow> pstate \<Rightarrow> parsed" where
  "stop_on_error a k st =
     bindR (get_module (ps_heap st) a) (\<lambda>m.
       if is_error m
       then bindR (getLastError m) (\<lambda>(_, m1). parse_error (st\<lparr>ps_heap := put_module a m1 (ps_heap st)\<rparr>))
       else k st)"

definition find_module :: "string \<Rightarrow> (maddr option \<Rightarrow> pstate \<Rightarrow> parsed) \<Rightarrow> pstate \<Rightarrow> parsed" where
  "find_module i k st =
     bindR (getModuleById i (ps_pl st) (ps_heap st)) (\<lambda>(m, h). k m (st\<lparr>ps_heap := h\<rparr>))"

definition need_module :: "string \<Rightarrow> (maddr \<Rightarrow> pstate \<Rightarrow> parsed) \<Rightarrow> pstate \<Rightarrow> parsed" where
  "need_module i k = find_module i (\<lambda>m st. case m of None \<Rightarrow> parse_error st | Some a \<Rightarrow> k a st)"

definition on_heap :: "(heap \<Rightarrow> heap result) \<Rightarrow> (pstate \<Rightarrow> parsed) \<Rightarrow> pstate \<Rightarrow> parsed" where
  "on_heap f k st = bindR (f (ps_heap st)) (\<lambda>h. k (st\<lparr>ps_heap := h\<rparr>))"

text \<open>A boundary line ends a block of data: every announced property that waits for the block is
  set. The message for a missing module reads \<open>tokens[2]\<close> of the boundary line.\<close>

fun split_late :: "string \<Rightarrow> (string \<times> string \<times> string) list \<Rightarrow>
    ((string \<times> string) \<times> (string \<times> string \<times> string) list) option" where
  "split_late i [] = None"
| "split_late i ((m, k, j) # ls) =
     (if j = i then Some ((m, k), ls)
      else map_option (\<lambda>(r, ls'). (r, (m, k, j) # ls')) (split_late i ls))"

lemma split_late_length: "split_late i ls = Some (r, ls') \<Longrightarrow> length ls' < length ls"
  by (induction ls arbitrary: r ls') (auto split: if_splits)

definition set_late_one :: "dispatch \<Rightarrow> string list \<Rightarrow> string \<times> string \<Rightarrow> pstate \<Rightarrow> parsed" where
  "set_late_one vt tokens r st =
     find_module (fst r) (\<lambda>m1 st1.
       case m1 of
         None \<Rightarrow> if length tokens \<le> 2 then Inl Undefined else parse_error st1
       | Some a \<Rightarrow>
           on_heap (property_set vt (snd r) (ps_oss st1) a)
             (on_heap (property_modify (setText True) (snd r) a)
               (stop_on_error a parsed_ok)) st1) st"

function set_late :: "dispatch \<Rightarrow> string list \<Rightarrow> (string \<times> string \<times> string) list \<Rightarrow> pstate \<Rightarrow> parsed" where
  "set_late vt tokens late st =
     (case split_late (ps_data_id st) late of
        None \<Rightarrow> parsed_ok (st\<lparr>ps_lateset := late\<rparr>)
      | Some (r, late') \<Rightarrow>
          bindR (set_late_one vt tokens r st) (\<lambda>(ok, st1).
            if ok then set_late vt tokens late' st1 else parse_error (st1\<lparr>ps_lateset := late\<rparr>)))"
  by pat_completeness auto
termination
  by (relation "measure (\<lambda>(vt, tokens, late, st). length late)") (auto dest: split_late_length)

declare set_late.simps [simp del]

definition parse_boundary :: "dispatch \<Rightarrow> string list \<Rightarrow> pstate \<Rightarrow> parsed" where
  "parse_boundary vt tokens st =
     bindR (if ps_datamode st
            then bindR (set_late vt tokens (ps_lateset st) (st\<lparr>ps_datamode := False\<rparr>)) (\<lambda>(ok, st1).
                   Inr (ok, if ok then st1\<lparr>ps_oss := ''''\<rparr> else st1))
            else parsed_ok st) (\<lambda>(ok, st1).
       if \<not> ok then parse_error st1
       else if length tokens = 2 then parsed_ok (st1\<lparr>ps_datamode := True, ps_data_id := tokens ! 1\<rparr>)
       else parsed_ok st1)"

definition parse_create :: "dispatch \<Rightarrow> factory \<Rightarrow> string list \<Rightarrow> pstate \<Rightarrow> parsed" where
  "parse_create vt db tokens st =
     (if length tokens \<noteq> 4 then parse_error st
      else find_module (tokens ! 3) (\<lambda>m st.
        if m \<noteq> None then parse_error st
        else bindR (factory_create db (tokens ! 2) (ps_heap st)) (\<lambda>(m1, h).
          let st = st\<lparr>ps_heap := h\<rparr> in
          case m1 of
            None \<Rightarrow> parse_error st
          | Some a \<Rightarrow>
              stop_on_error a (
                on_heap (property_set vt ''id'' (tokens ! 3) a) (
                  on_heap (property_modify (setReadOnly True) ''id'' a) (
                    stop_on_error a (\<lambda>st.
                      bindR (addElement (Some a) (ps_pl st) (ps_heap st)) (\<lambda>(p, h).
                        parsed_ok (st\<lparr>ps_pl := p, ps_heap := h\<rparr>)))))) st)) st)"

definition parse_set :: "dispatch \<Rightarrow> string list \<Rightarrow> pstate \<Rightarrow> parsed" where
  "parse_set vt tokens st =
     (if length tokens < 4 \<or> length tokens > 5 then parse_error st
      else need_module (tokens ! 2) (\<lambda>a.
             on_heap (property_set vt (tokens ! 3) (if length tokens = 5 then tokens ! 4 else '''') a)
               (stop_on_error a parsed_ok)) st)"

definition parse_settext :: "string list \<Rightarrow> pstate \<Rightarrow> parsed" where
  "parse_settext tokens st =
     (if length tokens \<noteq> 5 then parse_error st
      else parsed_ok (st\<lparr>ps_lateset := ps_lateset st @ [(tokens ! 2, tokens ! 3, tokens ! 4)]\<rparr>))"

definition parse_connect :: "string list \<Rightarrow> pstate \<Rightarrow> parsed" where
  "parse_connect tokens st =
     (if length tokens \<noteq> 6 then parse_error st
      else need_module (tokens ! 2) (\<lambda>m1.
           need_module (tokens ! 4) (\<lambda>m2.
             on_heap (\<lambda>h. bindR (get_module h m1) (\<lambda>m.
                 bindR (getOutput m (atoi (c_str (tokens ! 3)))) (\<lambda>s.
                   setInput s (atoi (c_str (tokens ! 5))) m2 h)))
               (stop_on_error m1 (stop_on_error m2 parsed_ok)))) st)"

definition parse_config :: "string list \<Rightarrow> pstate \<Rightarrow> parsed" where
  "parse_config tokens st =
     (if length tokens < 3 then parse_error st
      else if tokens ! 1 = ''delay'' then parsed_ok (st\<lparr>ps_delay := atoi (c_str (tokens ! 2))\<rparr>)
      else parsed_ok st)"

definition parse_line :: "dispatch \<Rightarrow> factory \<Rightarrow> string \<Rightarrow> pstate \<Rightarrow> parsed" where
  "parse_line vt db line st =
     (if line = '''' then parsed_ok st
      else if hd line = CHR ''#'' then parsed_ok st
      else let tokens = words line in
        if length tokens \<le> 1 \<and> \<not> ps_datamode st then parse_error st
        else if tokens = [] then Inl Undefined
        else if tokens ! 0 = PIPELINE_BOUNDARY then parse_boundary vt tokens st
        else if ps_datamode st then parsed_ok (st\<lparr>ps_oss := ps_oss st @ line @ endl\<rparr>)
        else if tokens ! 0 = ''config'' then parse_config tokens st
        else if tokens ! 0 = ''pipeline'' then
          (if tokens ! 1 = ''create'' then parse_create vt db tokens st
           else if tokens ! 1 = ''set'' then parse_set vt tokens st
           else if tokens ! 1 = ''settext'' then parse_settext tokens st
           else if tokens ! 1 = ''connect'' then parse_connect tokens st
           else parse_error st)
        else parse_error st)"

fun parse_lines :: "dispatch \<Rightarrow> factory \<Rightarrow> string list \<Rightarrow> pstate \<Rightarrow> parsed" where
  "parse_lines vt db [] st = parsed_ok st"
| "parse_lines vt db (l # ls) st =
     bindR (parse_line vt db l st) (\<lambda>(ok, st1). if ok then parse_lines vt db ls st1 else parse_error st1)"

definition parse_init :: "moPipeline \<Rightarrow> heap \<Rightarrow> int \<Rightarrow> pstate" where
  "parse_init p h delay =
     \<lparr>ps_pl = p, ps_heap = h, ps_datamode = False, ps_lateset = [], ps_data_id = '''', ps_oss = '''', ps_delay = delay\<rparr>"

definition pipe_parse :: "dispatch \<Rightarrow> factory \<Rightarrow> string option \<Rightarrow> moPipeline \<Rightarrow> heap \<Rightarrow> int \<Rightarrow> parsed" where
  "pipe_parse vt db file p h delay =
     (case file of
        None \<Rightarrow> parse_error (parse_init (p\<lparr>pl_last_internal_error := ''unable to open file''\<rparr>) h delay)
      | Some text \<Rightarrow> parse_lines vt db (file_lines text) (parse_init p h delay))"

section \<open>Saving\<close>

fun each_text :: "(maddr \<Rightarrow> heap \<Rightarrow> (string \<times> heap) result) \<Rightarrow> maddr list \<Rightarrow> heap \<Rightarrow> (string \<times> heap) result" where
  "each_text f [] h = Inr ('''', h)"
| "each_text f (a # as) h =
     bindR (f a h) (\<lambda>(s, h1). mapR (\<lambda>(r, h2). (s @ r, h2)) (each_text f as h1))"

definition module_text :: "bool \<Rightarrow> maddr \<Rightarrow> heap \<Rightarrow> (string \<times> heap) result" where
  "module_text do_data a h =
     bindR (get_module h a) (\<lambda>m. mapR (\<lambda>(s, m1). (s, put_module a m1 h)) (serializeCreation do_data m))"

text \<open>\<open>date\<close> is the text \<open>strftime\<close> makes of the clock.\<close>

definition pipe_serializeCreation :: "string \<Rightarrow> moPipeline \<Rightarrow> heap \<Rightarrow> (string \<times> heap) result" where
  "pipe_serializeCreation date p h =
     (let rule = ''# ================================================================'' in
      bindR (each_text (module_text False) (pl_modules p) h) (\<lambda>(creation, h1).
      bindR (each_text serializeConnections (pl_modules p) h1) (\<lambda>(connections, h2).
      mapR (\<lambda>(texts, h3).
          (rule @ endl @ ''# PIPELINE AUTOGENERATED on '' @ date @ endl @ rule @ endl @ endl @
           creation @ connections @ texts, h3))
        (each_text (module_text True) (pl_modules p) h2))))"

section \<open>The invariant of a pipeline\<close>

text \<open>The element carries the id in a read-only property.\<close>

definition id_is :: "heap \<Rightarrow> maddr \<Rightarrow> string \<Rightarrow> bool" where
  "id_is h a i \<longleftrightarrow>
     (\<exists>m q. mods h a = Some m \<and> map_of (properties m) ''id'' = Some q \<and> readonly q \<and> asString q = Inr i)"

definition pipe_ok :: "moPipeline \<Rightarrow> heap \<Rightarrow> bool" where
  "pipe_ok p h \<longleftrightarrow>
     heap_ok h \<and> mem_ok h \<and> (\<exists>is. list_all2 (id_is h) (pl_modules p) is \<and> distinct is)"

lemma pipe_okD:
  assumes "pipe_ok p h"
  shows "heap_ok h" "mem_ok h" "\<And>a. a \<in> set (pl_modules p) \<Longrightarrow> \<exists>m. mods h a = Some m"
proof -
  show "heap_ok h" "mem_ok h" using assms by (simp_all add: pipe_ok_def)
  show "\<exists>m. mods h a = Some m" if a: "a \<in> set (pl_modules p)" for a
  proof -
    obtain "is" where "list_all2 (id_is h) (pl_modules p) is" using assms by (auto simp: pipe_ok_def)
    with a show ?thesis by (auto simp: list_all2_conv_all_nth in_set_conv_nth id_is_def)
  qed
qed

lemma keeps_id_is: "keeps h h' \<Longrightarrow> id_is h a i \<Longrightarrow> id_is h' a i"
proof -
  assume k: "keeps h h'" and "id_is h a i"
  then obtain m q where q: "mods h a = Some m" "map_of (properties m) ''id'' = Some q" "readonly q" "asString q = Inr i"
    by (auto simp: id_is_def)
  obtain m' where m': "mods h' a = Some m'" "props_kept m m'" using keepsD(2) [OF k q(1)] by blast
  from props_keptD [OF m'(2) q(2)] q(3) have "map_of (properties m') ''id'' = Some q" by auto
  with m'(1) q(3,4) show ?thesis by (auto simp: id_is_def)
qed

lemma keeps_mem_ok:
  assumes "keeps h h'" "mem_ok h"
  shows "mem_ok h'"
proof -
  have w: "\<And>a. map_option module_wires (mods h' a) = map_option module_wires (mods h a)"
    "\<And>s. map_option stream_wires (streams h' s) = map_option stream_wires (streams h s)"
    "free_mods h' = free_mods h" "free_streams h' = free_streams h"
    using assms(1) by (simp_all add: keeps_def same_wires_def)
  have "mods h' a = None \<longleftrightarrow> mods h a = None" for a using w(1) [of a] by (metis option.map_disc_iff)
  moreover have "streams h' s = None \<longleftrightarrow> streams h s = None" for s using w(2) [of s] by (metis option.map_disc_iff)
  ultimately show ?thesis using assms(2) w(3,4) by (simp add: mem_ok_def)
qed

lemma keeps_pipe_ok: "keeps h h' \<Longrightarrow> pipe_ok p h \<Longrightarrow> pipe_ok p h'"
  unfolding pipe_ok_def using keepsD(1) keeps_mem_ok list_all2_mono keeps_id_is
  by (metis (mono_tags, lifting))

lemma property_get_keeps:
  assumes "heap_ok h" "mods h a = Some m"
  shows "\<exists>s h'. property_get name a h = Inr (s, h') \<and> keeps h h'"
proof -
  obtain m1 p where mp: "module_property name m = (m1, p)" by fastforce
  note ok = module_property_ok [OF heap_okD(3,2) [OF assms(1)], OF assms(2,2) mp]
  obtain s where s: "asString p = Inr s" using asString_ok ok by blast
  have k: "keeps h (put_module a m1 h)" by (rule keeps_put_module [OF assms]) (use ok in auto)
  have "property_get name a h = Inr (s, put_module a m1 h)"
    using assms(2) mp s by (simp add: property_get_def store_eval Let_def)
  with k show ?thesis by blast
qed

lemma getLastError_keeps:
  assumes "heap_ok h" "mods h a = Some m"
  shows "\<exists>s m'. getLastError m = Inr (s, m') \<and> keeps h (put_module a m' h) \<and> \<not> is_error m'"
proof -
  let ?m = "m\<lparr>is_error := False\<rparr>"
  have ok0: "module_ok ?m" "life_ok a ?m"
    using heap_okD(2,3) [OF assms] by (simp_all add: module_ok_def life_ok_def)
  obtain m1 p where mp: "module_property ''id'' ?m = (m1, p)" by fastforce
  note ok = module_property_ok [OF ok0 mp]
  obtain s where s: "asString p = Inr s" using asString_ok ok by blast
  have "is_error m1 = is_error ?m"
    using mp by (auto simp: module_property_def Let_def split: option.splits)
  moreover have "keeps h (put_module a m1 h)"
  proof (rule keeps_put_module [OF assms])
    show "module_wires m1 = module_wires m" using ok by (simp add: module_wires_def)
    show "props_kept m m1" using ok by (simp add: props_kept_def)
  qed (use ok in auto)
  ultimately show ?thesis using mp s by (simp add: getLastError_def)
qed

text \<open>With read-only ids a lookup changes nothing and finds exactly the ids in use.\<close>

lemma property_get_id: "id_is h a i \<Longrightarrow> property_get ''id'' a h = Inr (i, h)"
  by (auto simp: id_is_def property_get_def module_property_def store_eval Let_def)

lemma getModuleById_loop_ids:
  "list_all2 (id_is h) as is \<Longrightarrow>
     \<exists>r. getModuleById_loop i as h = Inr (r, h) \<and> (r = None \<longleftrightarrow> i \<notin> set is) \<and> (\<forall>a. r = Some a \<longrightarrow> a \<in> set as \<and> id_is h a i)"
  by (induction as "is" rule: list_all2_induct) (auto simp: property_get_id)

lemma ids_unique: "list_all2 (id_is h) as is \<Longrightarrow> list_all2 (id_is h) as js \<Longrightarrow> is = js"
proof (induction as "is" arbitrary: js rule: list_all2_induct)
  case (Cons a as i "is")
  then obtain j js' where j: "js = j # js'" "id_is h a j" "list_all2 (id_is h) as js'"
    by (auto simp: list_all2_Cons1)
  from Cons(1) j(2) have "i = j" by (auto simp: id_is_def)
  with Cons.IH [OF j(3)] j(1) show ?case by simp
qed simp

section \<open>Parsing keeps the invariant\<close>

definition st_ok :: "pstate \<Rightarrow> bool" where
  "st_ok st \<longleftrightarrow> pipe_ok (ps_pl st) (ps_heap st) \<and> ps_lateset st = []"

text \<open>The result of a parsing step is a state that satisfies the invariant, or the memory was used up.\<close>

definition safe :: "parsed \<Rightarrow> bool" where
  "safe r \<longleftrightarrow> (case r of Inr (_, st) \<Rightarrow> st_ok st | Inl e \<Rightarrow> e = BadAlloc)"

lemma safe_simps [simp]: "safe (parse_error st) = st_ok st" "safe (parsed_ok st) = st_ok st"
  by (simp_all add: safe_def parse_error_def parsed_ok_def)

lemma st_ok_keeps: "st_ok st \<Longrightarrow> keeps (ps_heap st) h \<Longrightarrow> st_ok (st\<lparr>ps_heap := h\<rparr>)"
  by (auto simp: st_ok_def intro: keeps_pipe_ok)

lemma safe_stop_on_error:
  assumes "st_ok st" "mods (ps_heap st) a = Some m" "safe (k st)"
  shows "safe (stop_on_error a k st)"
proof (cases "is_error m")
  case True
  have hk: "heap_ok (ps_heap st)" using assms(1) pipe_okD(1) by (auto simp: st_ok_def)
  obtain s m' where "getLastError m = Inr (s, m')" "keeps (ps_heap st) (put_module a m' (ps_heap st))"
    using getLastError_keeps [OF hk assms(2)] by blast
  then show ?thesis
    using True assms(1,2) st_ok_keeps by (simp add: stop_on_error_def store_eval)
qed (use assms in \<open>simp add: stop_on_error_def store_eval\<close>)

lemma safe_find_module:
  assumes "st_ok st"
    and "\<And>r. (r = None \<longrightarrow> (\<forall>is. list_all2 (id_is (ps_heap st)) (pl_modules (ps_pl st)) is \<longrightarrow> i \<notin> set is)) \<Longrightarrow>
       (\<forall>a. r = Some a \<longrightarrow> (\<exists>m. mods (ps_heap st) a = Some m)) \<Longrightarrow> safe (k r st)"
  shows "safe (find_module i k st)"
proof -
  obtain "is" where l: "list_all2 (id_is (ps_heap st)) (pl_modules (ps_pl st)) is"
    using assms(1) by (auto simp: st_ok_def pipe_ok_def)
  obtain r where r: "getModuleById i (ps_pl st) (ps_heap st) = Inr (r, ps_heap st)"
    "r = None \<longleftrightarrow> i \<notin> set is" "\<forall>a. r = Some a \<longrightarrow> a \<in> set (pl_modules (ps_pl st))"
    using getModuleById_loop_ids [OF l, of i] by (auto simp: getModuleById_def)
  have uniq: "is' = is" if "list_all2 (id_is (ps_heap st)) (pl_modules (ps_pl st)) is'" for is'
    using ids_unique [OF l that] by simp
  have "safe (k r st)"
    by (rule assms(2)) (use r uniq pipe_okD(3) assms(1) in \<open>auto simp: st_ok_def\<close>)
  then show ?thesis using r(1) by (simp add: find_module_def)
qed

lemma safe_need_module:
  assumes "st_ok st" "\<And>a m. mods (ps_heap st) a = Some m \<Longrightarrow> safe (k a st)"
  shows "safe (need_module i k st)"
  unfolding need_module_def
  by (rule safe_find_module [OF assms(1)]) (use assms in \<open>auto split: option.split\<close>)

text \<open>A new module is not in the pipeline; giving it an unused id and making it read-only
  extends the pipeline consistently.\<close>

lemma grown_id_is:
  assumes "grown a h h'" "id_is h b i" "mods h a = None"
  shows "id_is h' b i"
proof -
  have "b \<noteq> a" using assms(2,3) by (auto simp: id_is_def)
  then have "mods h' b = mods h b" using assms(1) by (simp add: grown_def)
  with assms(2) show ?thesis by (simp add: id_is_def)
qed

lemma grown_pipe_ok:
  assumes "pipe_ok p h" "grown a h h'" "mods h a = None" "heap_ok h'" "mem_ok h'"
  shows "pipe_ok p h'"
proof -
  obtain "is" where l: "list_all2 (id_is h) (pl_modules p) is" "distinct is" using assms(1) by (auto simp: pipe_ok_def)
  have "list_all2 (id_is h') (pl_modules p) is"
    by (rule list_all2_mono [OF l(1)]) (rule grown_id_is [OF assms(2) _ assms(3)])
  with l(2) assms(4,5) show ?thesis by (auto simp: pipe_ok_def)
qed

lemma setReadOnly_keeps:
  assumes "heap_ok h" "mods h a = Some m"
  shows "\<exists>h'. property_modify (setReadOnly True) k a h = Inr h' \<and> keeps h h'"
proof -
  obtain m1 p where mp: "module_property k m = (m1, p)" by fastforce
  note ok = module_property_ok [OF heap_okD(3,2) [OF assms(1)], OF assms(2,2) mp]
  let ?p = "setReadOnly True p"
  let ?m = "m1\<lparr>properties := smap_set k ?p (properties m1)\<rparr>"
  have p: "map_of (properties m1) k = Some p" using ok by simp
  then have "p \<in> snd ` set (properties m1)" by (force dest: map_of_SomeD)
  then have "prop_wf p" "\<forall>c \<in> set (callbacks p). snd c = a" using ok unfolding life_ok_def by auto
  then have wf: "prop_wf ?p" "\<forall>c \<in> set (callbacks ?p). snd c = a"
    by (simp_all add: setReadOnly_def prop_wf_def cong: option.case_cong)
  have old: "\<forall>q \<in> snd ` set (properties m1). prop_wf q"
    "\<forall>q \<in> snd ` set (properties m1). \<forall>c \<in> set (callbacks q). snd c = a"
    using ok unfolding module_ok_def life_ok_def by fast+
  note new = smap_all_set [where P = prop_wf and k = k, OF old(1) wf(1)]
    smap_all_set [where P = "\<lambda>q. \<forall>c \<in> set (callbacks q). snd c = a" and k = k, OF old(2) wf(2)]
  have "props_kept m1 ?m"
  proof (rule props_kept_set)
    show "?p = q" if "map_of (properties m1) k = Some q" "readonly q" for q
      using that p by (cases q) (simp add: setReadOnly_def)
  qed simp
  then have "props_kept m ?m" using ok props_kept_trans by blast
  then have "keeps h (put_module a ?m h)"
    by (intro keeps_put_module [OF assms])
      (use ok new in \<open>auto simp: module_ok_def life_ok_def module_wires_def\<close>)
  then show ?thesis using assms(2) mp by (simp add: property_modify_def store_eval Let_def)
qed

text \<open>\<open>property("id").set(i)\<close> on a new module: no callback runs, and the id is \<open>i\<close>.\<close>

lemma property_set_fresh_id:
  assumes "heap_ok h" "mods h a = Some m" "id_fresh m" "property_set vt ''id'' i a h = Inr h'"
  shows "\<exists>m' q. mods h' a = Some m' \<and> map_of (properties m') ''id'' = Some q \<and> asString q = Inr i"
proof -
  obtain m1 p where mp: "module_property ''id'' m = (m1, p)" by fastforce
  note ok = module_property_ok [OF heap_okD(3,2) [OF assms(1)], OF assms(2,2) mp]
  have p: "ptype p = MO_PROPERTY_STRING" "\<not> readonly p" "callbacks p = []"
    using mp assms(3)
    by (auto simp: module_property_def id_fresh_def Let_def new_simps prop_init_def split: option.splits)
  let ?p = "p\<lparr>val := Some (VString i)\<rparr>"
  have s: "set_string i p = Inr (?p, [])"
    using p by (simp add: set_string_def set_value_def autoconvert.simps fireCallback_def)
  have "h' = put_module a (m1\<lparr>properties := smap_set ''id'' ?p (properties m1)\<rparr>) h"
    using assms(2,4) mp s by (simp add: property_set_def store_eval Let_def)
  moreover have "asString ?p = Inr i" using p(1) by (simp add: asString_def)
  ultimately show ?thesis by simp
qed

lemma setReadOnly_id:
  assumes "mods h a = Some m" "map_of (properties m) ''id'' = Some q" "asString q = Inr i"
    "property_modify (setReadOnly True) ''id'' a h = Inr h'"
  shows "id_is h' a i"
proof -
  have "asString (setReadOnly True q) = Inr i" using assms(3) by (simp add: asString_def setReadOnly_def)
  with assms show ?thesis
    by (auto simp: id_is_def property_modify_def module_property_def store_eval Let_def setReadOnly_def)
qed

lemma factory_create_total:
  assumes "heap_ok h" "mem_ok h"
  shows "factory_create (factory_init n) c h = Inl BadAlloc \<or> factory_create (factory_init n) c h = Inr (None, h) \<or>
    (\<exists>a h' m. factory_create (factory_init n) c h = Inr (Some a, h') \<and> mods h a = None \<and> heap_ok h' \<and> mem_ok h' \<and>
       grown a h h' \<and> mods h' a = Some m \<and> id_fresh m \<and>
       (\<forall>k s. map_of (output_map m) k = Some (Cell (Some s)) \<longrightarrow> streams h s = None))"
proof (cases "map_of (factory_init n) (factory_sname c)")
  case None
  then show ?thesis by (simp add: factory_create_def)
next
  case (Some cd)
  then have "cd \<in> set (all_classes n)" by (auto simp: factory_init_find dest!: map_of_SomeD)
  then have ck: "class_checked cd" using all_classes_checked [of n] by (simp add: list_all_iff)
  from ck have "instrs_ok (cd_ctor cd) 0 0 base_keys" by (simp add: class_checked_def)
  from construct_total [OF assms this] show ?thesis
  proof (elim disjE exE conjE)
    assume "construct cd h = Inl BadAlloc"
    then show ?thesis using Some by (simp add: factory_create_def)
  next
    fix a h' m
    assume r: "construct cd h = Inr (a, h')" "mods h a = None" "heap_ok h'" "mem_ok h'"
      "grown a h h'" "mods h' a = Some m" "\<forall>n s. map_of (output_map m) n = Some (Cell (Some s)) \<longrightarrow> streams h s = None"
    have "id_fresh m" using construct_id [OF r(1)] r(6) ck by (auto simp: class_checked_def)
    then show ?thesis using r Some by (simp add: factory_create_def)
  qed
qed

lemma addElement_keeps:
  assumes "heap_ok h" "mods h a = Some m"
  shows "\<exists>h'. addElement (Some a) p h = Inr (p\<lparr>pl_modules := pl_modules p @ [a]\<rparr>, h') \<and> keeps h h'"
proof -
  let ?m = "m\<lparr>owner := Some (pl_this p)\<rparr>"
  have "keeps h (put_module a ?m h)"
    by (rule keeps_put_module [OF assms])
      (use heap_okD(2,3) [OF assms] in \<open>simp_all add: module_ok_def life_ok_def module_wires_def\<close>)
  then show ?thesis using assms(2) by (simp add: addElement_def store_eval)
qed

lemma addElement_ok:
  assumes "pipe_ok p h" "id_is h a i" "\<And>is. list_all2 (id_is h) (pl_modules p) is \<Longrightarrow> i \<notin> set is"
  shows "\<exists>p' h'. addElement (Some a) p h = Inr (p', h') \<and> pipe_ok p' h'"
proof -
  obtain m where m: "mods h a = Some m" using assms(2) by (auto simp: id_is_def)
  obtain h' where h': "addElement (Some a) p h = Inr (p\<lparr>pl_modules := pl_modules p @ [a]\<rparr>, h')" and k: "keeps h h'"
    using addElement_keeps [OF pipe_okD(1) [OF assms(1)] m] by blast
  obtain "is" where l: "list_all2 (id_is h) (pl_modules p) is" "distinct is" using assms(1) by (auto simp: pipe_ok_def)
  have "list_all2 (id_is h') (pl_modules p @ [a]) (is @ [i])"
    using list_all2_mono [OF l(1), of "id_is h'"] keeps_id_is [OF k] assms(2)
    by (simp add: list_all2_appendI)
  moreover have "distinct (is @ [i])" using l(2) assms(3) [OF l(1)] by simp
  ultimately have "pipe_ok (p\<lparr>pl_modules := pl_modules p @ [a]\<rparr>) h'"
    using keepsD(1) [OF k] keeps_mem_ok [OF k] pipe_okD(2) [OF assms(1)] unfolding pipe_ok_def by fastforce
  then show ?thesis using h' by blast
qed

lemma calm_heap_ok:
  assumes "calm h h'" "graph_ok h'" "heap_ok h" "mem_ok h"
  shows "heap_ok h' \<and> mem_ok h'"
proof
  have "life_ok b mb" if mb: "mods h' b = Some mb" for b mb
  proof -
    obtain m0 where m0: "mods h b = Some m0" "inner mb = inner m0" using calm_life [OF assms(1) mb] by blast
    from heap_okD(2) [OF assms(3) m0(1)] m0(2) show ?thesis by (simp add: life_ok_def inner_def)
  qed
  then show "heap_ok h'" using assms(2) by (simp add: heap_ok_def)
  have "mods h' b = None \<longleftrightarrow> mods h b = None" for b
    using assms(1) by (metis calm_def option.map_disc_iff)
  then show "mem_ok h'" using assms(1,4) by (simp add: mem_ok_def calm_def)
qed

lemma setInput_heap_ok:
  assumes "heap_ok h" "mem_ok h" "mods h a = Some m" "\<And>s. stream = Some s \<Longrightarrow> streams h s \<noteq> None"
  shows "\<exists>h'. setInput stream n a h = Inr h' \<and> heap_ok h' \<and> mem_ok h' \<and> calm h h'"
proof -
  obtain h' where h': "setInput stream n a h = Inr h'" "graph_ok h'"
    using setInput_ok [OF heap_okD(1) [OF assms(1)] assms(3,4)] by blast
  have c: "calm h h'" using setInput_calm [OF h'(1)] .
  from calm_heap_ok [OF c h'(2) assms(1,2)] h'(1) c show ?thesis by blast
qed

lemma setInput_pipe_ok:
  assumes "pipe_ok p h" "mods h a = Some m" "\<And>s. stream = Some s \<Longrightarrow> streams h s \<noteq> None"
  shows "\<exists>h'. setInput stream n a h = Inr h' \<and> pipe_ok p h' \<and> calm h h'"
proof -
  obtain h' where h': "setInput stream n a h = Inr h'" "heap_ok h'" "mem_ok h'" and c: "calm h h'"
    using setInput_heap_ok [OF pipe_okD(1,2) [OF assms(1)] assms(2,3)] by blast
  have ids: "id_is h' b i" if b: "id_is h b i" for b i
  proof -
    obtain m0 q where q: "mods h b = Some m0" "map_of (properties m0) ''id'' = Some q" "readonly q" "asString q = Inr i"
      using b by (auto simp: id_is_def)
    have "map_option inner (mods h' b) = Some (inner m0)" using c q(1) by (simp add: calm_def)
    then obtain m1 where "mods h' b = Some m1" "properties m1 = properties m0" by (auto simp: inner_def)
    with q show ?thesis by (auto simp: id_is_def)
  qed
  obtain "is" where l: "list_all2 (id_is h) (pl_modules p) is" "distinct is" using assms(1) by (auto simp: pipe_ok_def)
  have "list_all2 (id_is h') (pl_modules p) is" by (rule list_all2_mono [OF l(1)]) (rule ids)
  with l(2) h'(2,3) have "pipe_ok p h'" by (auto simp: pipe_ok_def)
  with h'(1) c show ?thesis by blast
qed

context class_contract
begin

lemma safe_parse_set: "st_ok st \<Longrightarrow> safe (parse_set vt tokens st)"
proof (cases "length tokens < 4 \<or> length tokens > 5")
  case False
  assume ok: "st_ok st"
  let ?v = "if length tokens = 5 then tokens ! 4 else ''''"
  have "safe (on_heap (property_set vt (tokens ! 3) ?v a) (stop_on_error a parsed_ok) st)"
    if m: "mods (ps_heap st) a = Some m" for a m
  proof -
    have hk: "heap_ok (ps_heap st)" using ok pipe_okD(1) by (auto simp: st_ok_def)
    obtain h where h: "property_set vt (tokens ! 3) ?v a (ps_heap st) = Inr h" "keeps (ps_heap st) h"
      using property_set_keeps [OF hk m] by blast
    obtain m' where m': "mods h a = Some m'" using keepsD(2) [OF h(2) m] by blast
    have st': "st_ok (st\<lparr>ps_heap := h\<rparr>)" by (rule st_ok_keeps [OF ok h(2)])
    have "safe (stop_on_error a parsed_ok (st\<lparr>ps_heap := h\<rparr>))"
      by (rule safe_stop_on_error [OF st', of a m']) (use m' st' in simp_all)
    then show ?thesis using h(1) by (simp add: on_heap_def)
  qed
  then have "safe (need_module (tokens ! 2) (\<lambda>a. on_heap (property_set vt (tokens ! 3) ?v a) (stop_on_error a parsed_ok)) st)"
    by (rule safe_need_module [OF ok])
  then show ?thesis using False by (simp add: parse_set_def)
qed (simp add: parse_set_def)

lemma safe_parse_connect: "st_ok st \<Longrightarrow> safe (parse_connect tokens st)"
proof (cases "length tokens = 6")
  case True
  assume ok: "st_ok st"
  have pk: "pipe_ok (ps_pl st) (ps_heap st)" using ok by (simp add: st_ok_def)
  let ?f = "\<lambda>m1 m2 h. bindR (get_module h m1) (\<lambda>m. bindR (getOutput m (atoi (c_str (tokens ! 3)))) (\<lambda>s.
      setInput s (atoi (c_str (tokens ! 5))) m2 h))"
  have "safe (on_heap (?f a1 a2) (stop_on_error a1 (stop_on_error a2 parsed_ok)) st)"
    if m1: "mods (ps_heap st) a1 = Some m1" and m2: "mods (ps_heap st) a2 = Some m2" for a1 m1 a2 m2
  proof -
    have hk: "heap_ok (ps_heap st)" using pipe_okD(1) [OF pk] .
    obtain s where s: "getOutput m1 (atoi (c_str (tokens ! 3))) = Inr s"
      using getOutput_ok [OF heap_okD(3) [OF hk m1]] by blast
    have live: "streams (ps_heap st) t \<noteq> None" if "s = Some t" for t
    proof -
      from s that have "map_of (output_map m1) (atoi (c_str (tokens ! 3))) = Some (Cell (Some t))"
        by (auto simp: getOutput_def deref_storage_def split: option.splits storage.splits)
      from graph_okD(3) [OF heap_okD(1) [OF hk] m1 this] show ?thesis by auto
    qed
    obtain h where h: "setInput s (atoi (c_str (tokens ! 5))) a2 (ps_heap st) = Inr h"
      "pipe_ok (ps_pl st) h" "calm (ps_heap st) h" using setInput_pipe_ok [OF pk m2 live] by blast
    have st': "st_ok (st\<lparr>ps_heap := h\<rparr>)" using h(2) ok by (simp add: st_ok_def)
    have dom: "mods (ps_heap st) b \<noteq> None \<Longrightarrow> \<exists>mb. mods h b = Some mb" for b
      using h(3) unfolding calm_def by (metis not_None_eq option.map_disc_iff)
    obtain m1' m2' where m': "mods h a1 = Some m1'" "mods h a2 = Some m2'"
      using dom [of a1] dom [of a2] m1 m2 by auto
    have "safe (stop_on_error a1 (stop_on_error a2 parsed_ok) (st\<lparr>ps_heap := h\<rparr>))"
      by (rule safe_stop_on_error [OF st']) (use m' st' in \<open>auto intro!: safe_stop_on_error\<close>)
    then show ?thesis using m1 s h(1) by (simp add: on_heap_def store_eval)
  qed
  then have "safe (need_module (tokens ! 2) (\<lambda>a1. need_module (tokens ! 4) (\<lambda>a2.
      on_heap (?f a1 a2) (stop_on_error a1 (stop_on_error a2 parsed_ok)))) st)"
    using ok by (intro safe_need_module) auto
  then show ?thesis using True by (simp add: parse_connect_def)
qed (simp add: parse_connect_def)

lemma safe_parse_create: "st_ok st \<Longrightarrow> safe (parse_create vt (factory_init n) tokens st)"
proof (cases "length tokens = 4")
  case True
  assume ok: "st_ok st"
  have pk: "pipe_ok (ps_pl st) (ps_heap st)" using ok by (simp add: st_ok_def)
  let ?h = "ps_heap st" and ?i = "tokens ! 3"
  let ?finish = "\<lambda>a st. bindR (addElement (Some a) (ps_pl st) (ps_heap st)) (\<lambda>(p, h). parsed_ok (st\<lparr>ps_pl := p, ps_heap := h\<rparr>))"
  let ?rest = "\<lambda>a. stop_on_error a (on_heap (property_set vt ''id'' ?i a)
      (on_heap (property_modify (setReadOnly True) ''id'' a) (stop_on_error a (?finish a))))"
  have body: "safe (bindR (factory_create (factory_init n) (tokens ! 2) ?h) (\<lambda>(m1, h).
          case m1 of None \<Rightarrow> parse_error (st\<lparr>ps_heap := h\<rparr>) | Some a \<Rightarrow> ?rest a (st\<lparr>ps_heap := h\<rparr>)))"
    if free: "\<forall>is. list_all2 (id_is ?h) (pl_modules (ps_pl st)) is \<longrightarrow> ?i \<notin> set is"
    using factory_create_total [OF pipe_okD(1,2) [OF pk], of n "tokens ! 2"]
  proof (elim disjE exE conjE)
    assume "factory_create (factory_init n) (tokens ! 2) ?h = Inl BadAlloc"
    then show ?thesis by (simp add: safe_def)
  next
    assume "factory_create (factory_init n) (tokens ! 2) ?h = Inr (None, ?h)"
    then show ?thesis using ok by simp
  next
    fix a h1 m
    assume c: "factory_create (factory_init n) (tokens ! 2) ?h = Inr (Some a, h1)" "mods ?h a = None"
      "heap_ok h1" "mem_ok h1" "grown a ?h h1" "mods h1 a = Some m" "id_fresh m"
    have pk1: "pipe_ok (ps_pl st) h1" by (rule grown_pipe_ok [OF pk c(5,2,3,4)])
    have free1: "?i \<notin> set is" if "list_all2 (id_is h1) (pl_modules (ps_pl st)) is" for "is"
    proof -
      obtain js where js: "list_all2 (id_is ?h) (pl_modules (ps_pl st)) js" using pk by (auto simp: pipe_ok_def)
      have "list_all2 (id_is h1) (pl_modules (ps_pl st)) js"
        by (rule list_all2_mono [OF js]) (rule grown_id_is [OF c(5) _ c(2)])
      with ids_unique [OF that] js free show ?thesis by blast
    qed
    let ?st1 = "st\<lparr>ps_heap := h1\<rparr>"
    have ok1: "st_ok ?st1" using pk1 ok by (simp add: st_ok_def)
    obtain h2 where h2: "property_set vt ''id'' ?i a h1 = Inr h2" "keeps h1 h2"
      using property_set_keeps [OF c(3,6)] by blast
    obtain m2 q where m2: "mods h2 a = Some m2" "map_of (properties m2) ''id'' = Some q" "asString q = Inr ?i"
      using property_set_fresh_id [OF c(3,6,7) h2(1)] by blast
    obtain h3 where h3: "property_modify (setReadOnly True) ''id'' a h2 = Inr h3" "keeps h2 h3"
      using setReadOnly_keeps [OF keepsD(1) [OF h2(2)] m2(1)] by blast
    have k13: "keeps h1 h3" by (rule keeps_trans [OF h2(2) h3(2)])
    have id3: "id_is h3 a ?i" by (rule setReadOnly_id [OF m2 h3(1)])
    obtain m3 where m3: "mods h3 a = Some m3" using id3 by (auto simp: id_is_def)
    have pk3: "pipe_ok (ps_pl st) h3" by (rule keeps_pipe_ok [OF k13 pk1])
    have free3: "?i \<notin> set is" if "list_all2 (id_is h3) (pl_modules (ps_pl st)) is" for "is"
    proof -
      obtain js where js: "list_all2 (id_is h1) (pl_modules (ps_pl st)) js" using pk1 by (auto simp: pipe_ok_def)
      have "list_all2 (id_is h3) (pl_modules (ps_pl st)) js"
        by (rule list_all2_mono [OF js]) (rule keeps_id_is [OF k13])
      with ids_unique [OF that] free1 [OF js] show ?thesis by blast
    qed
    have fin: "safe (?finish a (st\<lparr>ps_heap := h3\<rparr>))"
      using addElement_ok [OF pk3 id3 free3] ok by (auto simp: st_ok_def)
    have ok3: "st_ok (st\<lparr>ps_heap := h3\<rparr>)" using pk3 ok by (simp add: st_ok_def)
    have "safe (stop_on_error a (?finish a) (st\<lparr>ps_heap := h3\<rparr>))"
      by (rule safe_stop_on_error [where k = "?finish a" and m = m3, OF ok3]) (use m3 fin in simp_all)
    then have "safe (on_heap (property_set vt ''id'' ?i a)
      (on_heap (property_modify (setReadOnly True) ''id'' a) (stop_on_error a (?finish a))) ?st1)"
      using h2(1) h3(1) by (simp add: on_heap_def)
    then have "safe (?rest a ?st1)"
      by (intro safe_stop_on_error [OF ok1, of a m]) (use c(6) in simp_all)
    then show ?thesis using c(1) by simp
  qed
  have "safe (find_module ?i (\<lambda>m st. if m \<noteq> None then parse_error st
        else bindR (factory_create (factory_init n) (tokens ! 2) (ps_heap st)) (\<lambda>(m1, h).
          let st = st\<lparr>ps_heap := h\<rparr> in
          case m1 of None \<Rightarrow> parse_error st | Some a \<Rightarrow> ?rest a st)) st)"
    by (rule safe_find_module [OF ok]) (use body ok in \<open>auto simp: Let_def\<close>)
  then show ?thesis using True by (simp add: parse_create_def)
qed (simp add: parse_create_def)

end

text \<open>The lines this argument covers: no line of blanks only (in a data block the source reads
  the first token of an empty list), and no \<open>settext\<close> (the message for a missing module reads
  a token the line may not have).\<close>

definition plain_line :: "string \<Rightarrow> bool" where
  "plain_line l \<longleftrightarrow> (words l = [] \<longrightarrow> l = '''') \<and> take 2 (words l) \<noteq> [''pipeline'', ''settext'']"

lemma safe_parse_boundary: "st_ok st \<Longrightarrow> safe (parse_boundary vt tokens st)"
  by (auto simp: parse_boundary_def st_ok_def set_late.simps parsed_ok_def parse_error_def safe_def)

lemma st_ok_fields [simp]:
  "st_ok (st\<lparr>ps_oss := x\<rparr>) = st_ok st" "st_ok (st\<lparr>ps_delay := d\<rparr>) = st_ok st"
  by (simp_all add: st_ok_def)

context class_contract
begin

lemma safe_parse_line:
  assumes "st_ok st" "plain_line l"
  shows "safe (parse_line vt (factory_init n) l st)"
proof -
  have settext: "tokens ! 1 \<noteq> ''settext''"
    if q: "tokens = words l" "tokens ! 0 = ''pipeline''" "\<not> length tokens \<le> 1" for tokens
  proof -
    obtain x y zs where "tokens = x # y # zs" using q(3) by (cases tokens; cases "tl tokens") auto
    then have "words l = x # y # zs" using q(1) by simp
    with q(1,2) assms(2) show ?thesis by (simp add: plain_line_def)
  qed
  have "words l = [] \<Longrightarrow> l = ''''" using assms(2) by (simp add: plain_line_def)
  then show ?thesis
    using assms(1) settext safe_parse_boundary safe_parse_set safe_parse_connect safe_parse_create
    by (auto simp: parse_line_def Let_def parse_config_def)
qed

lemma safe_parse_lines:
  assumes "st_ok st" "\<forall>l \<in> set ls. plain_line l"
  shows "safe (parse_lines vt (factory_init n) ls st)"
  using assms
proof (induction ls arbitrary: st)
  case (Cons l ls)
  have s: "safe (parse_line vt (factory_init n) l st)" using safe_parse_line Cons.prems by simp
  show ?case
  proof (cases "parse_line vt (factory_init n) l st")
    case (Inl e)
    then show ?thesis using s by (simp add: safe_def)
  next
    case (Inr r)
    obtain ok st1 where r: "r = (ok, st1)" by (cases r)
    have "st_ok st1" using s Inr r by (simp add: safe_def)
    then show ?thesis using Inr r Cons by simp
  qed
qed simp

end

section \<open>Properties\<close>

definition empty_pipeline :: "maddr \<Rightarrow> moPipeline" where
  "empty_pipeline a = \<lparr>pl_this = a, pl_modules = [], pl_is_group = None, pl_last_internal_error = ''''\<rparr>"

lemma pipe_ok_empty: "heap_ok h \<Longrightarrow> mem_ok h \<Longrightarrow> pipe_ok (empty_pipeline a) h"
  by (simp add: pipe_ok_def empty_pipeline_def)

lemma demo_pipe_ok: "pipe_ok (empty_pipeline 0) demo_heap"
  by (rule pipe_ok_empty [OF demo_heap_ok]) (simp add: mem_ok_def demo_heap_def)


lemma plain_line_code: "plain_line l = (if words l = [] then l = '''' else take 2 (words l) \<noteq> [''pipeline'', ''settext''])"
  by (simp add: plain_line_def)


text \<open>The command lines the parser understands, by their number of tokens.\<close>

definition well_formed_command :: "string list \<Rightarrow> bool" where
  "well_formed_command ts \<longleftrightarrow>
     ts ! 0 = ''config'' \<and> 3 \<le> length ts \<or>
     ts ! 0 = ''pipeline'' \<and>
       (ts ! 1 = ''create'' \<and> length ts = 4 \<or> ts ! 1 = ''set'' \<and> (length ts = 4 \<or> length ts = 5) \<or>
        ts ! 1 = ''settext'' \<and> length ts = 5 \<or> ts ! 1 = ''connect'' \<and> length ts = 6)"

text \<open>C32. A line outside a data block that is not one of the five commands with the right
  number of arguments is an error: parsing stops there with \<open>false\<close>, the line has no effect,
  and the lines after it are not looked at.\<close>

theorem parse_rejects:
  assumes "\<not> ps_datamode st" and "l \<noteq> ''''" and "hd l \<noteq> CHR ''#''"
    and "length (words l) \<le> 1 \<or> words l ! 0 \<noteq> PIPELINE_BOUNDARY \<and> \<not> well_formed_command (words l)"
  shows "parse_lines vt db (l # ls) st = Inr (False, st)"
proof -
  let ?ts = "words l"
  note defs = parse_error_def parse_config_def parse_create_def parse_set_def parse_settext_def parse_connect_def
  have "parse_line vt db l st = Inr (False, st)"
  proof (cases "length ?ts \<le> 1")
    case True
    then show ?thesis using assms(1-3) by (simp add: parse_line_def parse_error_def)
  next
    case False
    with assms(4) have wf: "?ts ! 0 \<noteq> PIPELINE_BOUNDARY" "\<not> well_formed_command ?ts" "?ts \<noteq> []" by auto
    have c: "?ts ! 0 = ''config'' \<Longrightarrow> length ?ts < 3" using wf(2) by (simp add: well_formed_command_def)
    have p: "length ?ts \<noteq> 4" if "?ts ! 0 = ''pipeline''" "?ts ! 1 = ''create''"
      using wf(2) that by (simp add: well_formed_command_def)
    have s: "length ?ts < 4 \<or> length ?ts > 5" if "?ts ! 0 = ''pipeline''" "?ts ! 1 = ''set''"
      using wf(2) that by (simp add: well_formed_command_def) linarith
    have t: "length ?ts \<noteq> 5" if "?ts ! 0 = ''pipeline''" "?ts ! 1 = ''settext''"
      using wf(2) that by (simp add: well_formed_command_def)
    have n: "length ?ts \<noteq> 6" if "?ts ! 0 = ''pipeline''" "?ts ! 1 = ''connect''"
      using wf(2) that by (simp add: well_formed_command_def)
    show ?thesis
      using assms(1-3) False wf(1,3) c p s t n unfolding parse_line_def Let_def defs by (simp split: if_split)
  qed
  then show ?thesis by (simp add: parse_error_def)
qed

theorem parse_rejects_witness:
  "parse_lines movid_vt (factory_init 0) [''pipeline connect a 0 b'', ''pipeline create Image img'']
     (parse_init (empty_pipeline 0) demo_heap 5) = Inr (False, parse_init (empty_pipeline 0) demo_heap 5)"
proof -
  have w: "words ''pipeline connect a 0 b'' = [''pipeline'', ''connect'', ''a'', ''0'', ''b'']" by code_simp
  show ?thesis
    by (rule parse_rejects) (simp_all add: w parse_init_def well_formed_command_def PIPELINE_BOUNDARY_def)
qed

end
