(* ===== verification/Movid_Removal.thy ===== *)
theory Movid_Removal
  imports Movid_Pipeline
begin

text \<open>
  The middle part of \<open>web_pipeline_remove\<close> (\<open>src/movid.cpp\<close>): a module is taken out of the graph
  and deleted while the other modules stay. The module is removed from the observers of
  the streams it reads, then the streams it writes are detached from their readers, and then
  its destructor runs. In between, its inputs still hold streams that no longer know it; the proof
  compares each step with the step on the graph in which the module is already gone.
\<close>

section \<open>The operation\<close>

fun disconnect_inputs :: "maddr \<Rightarrow> nat \<Rightarrow> nat \<Rightarrow> heap \<Rightarrow> heap result" where
  "disconnect_inputs a i 0 h = Inr h"
| "disconnect_inputs a i (Suc k) h =
     bindR (get_module h a) (\<lambda>m. bindR (getInput m (int i)) (\<lambda>ds.
       bindR (case ds of None \<Rightarrow> Inr h | Some s \<Rightarrow> removeObserver s a h) (disconnect_inputs a (Suc i) k)))"

fun disconnect_outputs :: "maddr \<Rightarrow> nat \<Rightarrow> nat \<Rightarrow> heap \<Rightarrow> heap result" where
  "disconnect_outputs a i 0 h = Inr h"
| "disconnect_outputs a i (Suc k) h =
     bindR (get_module h a) (\<lambda>m. bindR (getOutput m (int i)) (\<lambda>ds.
       bindR (case ds of None \<Rightarrow> Inr h | Some s \<Rightarrow> removeObservers s h) (disconnect_outputs a (Suc i) k)))"

definition remove_module :: "dispatch \<Rightarrow> (moModule \<Rightarrow> saddr list) \<Rightarrow> maddr \<Rightarrow> moPipeline \<Rightarrow> heap \<Rightarrow> (moPipeline \<times> heap) result" where
  "remove_module vt frees a p h =
     bindR (pipe_stop vt p h) (\<lambda>h1.
     bindR (virtual_stop vt a h1) (\<lambda>h2.
     bindR (get_module h2 a) (\<lambda>m.
     bindR (disconnect_inputs a 0 (getInputCount m) h2) (\<lambda>h3.
     bindR (disconnect_outputs a 0 (getOutputCount m) h3) (\<lambda>h4.
       mapR (\<lambda>h5. (removeElement a p, h5)) (delete_module frees a h4))))))"

text \<open>The streams the destructors of the classes delete: \<open>~moImageFilterModule\<close>,
  \<open>~moImageFilterModule8\<close>, \<open>~moAbstractBlobTrackerModule\<close>, \<open>~moJustifyModule\<close>,
  \<open>~moVideoModule\<close>.\<close>

definition out_at :: "int \<Rightarrow> moModule \<Rightarrow> saddr list" where
  "out_at n m = (case map_of (output_map m) n of Some (Cell (Some s)) \<Rightarrow> [s] | _ \<Rightarrow> [])"

definition filter8_classes :: "string list" where
  "filter8_classes = [''BackgroundSubtract'', ''EqualizeHist'', ''Invert'', ''Smooth'']"

definition filter_classes :: "string list" where
  "filter_classes =
     [''Amplify'', ''BlobFinder'', ''Canny'', ''Dilate'', ''DistanceTransform'', ''Erode'', ''FiducialFinder'',
      ''FingerTipFinder'', ''GrayScale'', ''Highpass'', ''Hsv'', ''HuObjectFinder'', ''Mask'', ''MirrorImage'',
      ''PeakFinder'', ''Roi'', ''Threshold'', ''YCrCbThreshold'']"

definition movid_frees :: "moModule \<Rightarrow> saddr list" where
  "movid_frees m =
     (if class_name m \<in> set filter8_classes then out_at 1 m @ out_at 0 m
      else if class_name m \<in> set filter_classes then out_at 0 m
      else if class_name m \<in> set [''GreedyBlobTracker'', ''MunkresBlobTracker'', ''Justify'', ''Video''] then out_at 0 m
      else [])"

section \<open>The contract of a destructor\<close>

definition out_streams :: "moModule \<Rightarrow> saddr set" where
  "out_streams m = {s. \<exists>n. map_of (output_map m) n = Some (Cell (Some s))}"

text \<open>No stream is an output of two modules.\<close>

definition outputs_private :: "heap \<Rightarrow> bool" where
  "outputs_private h \<longleftrightarrow>
     (\<forall>a b m m'. mods h a = Some m \<longrightarrow> mods h b = Some m' \<longrightarrow> out_streams m \<inter> out_streams m' \<noteq> {} \<longrightarrow> a = b)"

lemma published_out: "published h s \<longleftrightarrow> (\<exists>b m. mods h b = Some m \<and> s \<in> out_streams m)"
  by (auto simp: published_def out_streams_def)

section \<open>The graph without the module\<close>

lemma graph_ok_delete:
  assumes ok: "graph_ok h" and a: "mods h a = Some m"
    and obs: "\<And>s d. streams h s = Some d \<Longrightarrow> a \<notin> set (observers d)"
    and F: "\<And>s b. s \<in> F \<Longrightarrow> attached h b s = 0" "\<And>s b m'. s \<in> F \<Longrightarrow> mods h b = Some m' \<Longrightarrow> s \<in> out_streams m' \<Longrightarrow> b = a"
  shows "graph_ok (h\<lparr>mods := (mods h)(a := None), streams := (\<lambda>s. if s \<in> F then None else streams h s)\<rparr>)" (is "graph_ok ?h")
proof -
  have cell: "0 < cells_to m' s" if "mods h b = Some m'" "map_of (input_map m') n = Some (Cell (Some s))" for b m' n s
    using map_of_SomeD [OF that(2)] by (force simp: cells_to_def filter_empty_conv)
  have mod: "module_ok m' \<and> (\<forall>n s. map_of (input_map m') n = Some (Cell (Some s)) \<longrightarrow> streams ?h s \<noteq> None) \<and>
      (\<forall>n s. map_of (output_map m') n = Some (Cell (Some s)) \<longrightarrow> streams ?h s \<noteq> None)" if q: "mods ?h b = Some m'" for b m'
  proof (intro conjI allI impI)
    have b: "mods h b = Some m'" "b \<noteq> a" using q by (auto split: if_splits)
    show "module_ok m'" using graph_okD(1) [OF ok b(1)] .
    show "streams ?h s \<noteq> None" if i: "map_of (input_map m') n = Some (Cell (Some s))" for n s
    proof -
      have "s \<notin> F" using F(1) [of s b] cell [OF b(1) i] b(1) by (auto simp: attached_def)
      with graph_okD(2) [OF ok b(1) i] show ?thesis by auto
    qed
    show "streams ?h s \<noteq> None" if i: "map_of (output_map m') n = Some (Cell (Some s))" for n s
    proof -
      have "s \<notin> F" using F(2) [of s b m'] b i by (auto simp: out_streams_def)
      with graph_okD(3) [OF ok b(1) i] show ?thesis by auto
    qed
  qed
  have cnt: "count_list (observers d) b \<le> attached ?h b s \<and> (published ?h s \<longrightarrow> count_list (observers d) b = attached ?h b s)"
    if q: "streams ?h s = Some d" for s d b
  proof (cases "b = a")
    case True
    have "streams h s = Some d" using q by (auto split: if_splits)
    then have "count_list (observers d) a = 0" using obs by (simp add: count_list_0_iff)
    then show ?thesis using True by (simp add: attached_def)
  next
    case False
    have d: "streams h s = Some d" using q by (auto split: if_splits)
    have at: "attached ?h b s = attached h b s" using False by (simp add: attached_def)
    have "published ?h s \<Longrightarrow> published h s" by (auto simp: published_out split: if_splits)
    then show ?thesis using graph_okD(6,7) [OF ok d, of b] at by auto
  qed
  show ?thesis unfolding graph_ok_def using mod cnt by blast
qed

text \<open>The module with nothing on its inputs.\<close>

definition cleared :: "moModule \<Rightarrow> moModule" where
  "cleared m = m\<lparr>input_map := map (\<lambda>(n, c). (n, Cell None)) (input_map m)\<rparr>"

lemma cleared_fields [simp]:
  "output_map (cleared m) = output_map m" "output_infos (cleared m) = output_infos m" "class_name (cleared m) = class_name m"
  "properties (cleared m) = properties m" "use_thread (cleared m) = use_thread m" "thread (cleared m) = thread m"
  "thread_trigger (cleared m) = thread_trigger m" "input_infos (cleared m) = input_infos m"
  by (simp_all add: cleared_def)

lemma map_of_cleared: "map_of (input_map (cleared m)) n = Some c \<Longrightarrow> c = Cell None"
  by (auto simp: cleared_def dest!: map_of_SomeD)

lemma cells_to_cleared [simp]: "cells_to (cleared m) s = 0"
  by (auto simp: cells_to_def cleared_def filter_empty_conv)

lemma module_ok_cleared: "module_ok m \<Longrightarrow> module_ok (cleared m)"
proof -
  assume ok: "module_ok m"
  have "map fst (input_map (cleared m)) = map fst (input_map m)" by (simp add: cleared_def case_prod_beta)
  moreover have "length (input_map (cleared m)) = length (input_map m)" by (simp add: cleared_def)
  moreover have "StorageNull \<notin> snd ` set (input_map (cleared m))" by (auto simp: cleared_def)
  ultimately show ?thesis using ok by (simp add: module_ok_def io_ok_def)
qed

section \<open>Leaving the streams that are read\<close>

definition cells_below :: "moModule \<Rightarrow> saddr \<Rightarrow> nat \<Rightarrow> nat" where
  "cells_below m s i = length (filter (\<lambda>c. snd c = Cell (Some s)) (take i (input_map m)))"

text \<open>\<open>h'\<close> is \<open>h\<close> with \<open>f s\<close> observations of \<open>s\<close> by the module \<open>a\<close> taken away.\<close>

definition obs_less :: "maddr \<Rightarrow> nat \<Rightarrow> moDataStream \<Rightarrow> moDataStream \<Rightarrow> bool" where
  "obs_less a k d d' \<longleftrightarrow>
     (\<forall>b. count_list (observers d') b = (if b = a then count_list (observers d) b - k else count_list (observers d) b))"

definition less_observed :: "maddr \<Rightarrow> (saddr \<Rightarrow> nat) \<Rightarrow> heap \<Rightarrow> heap \<Rightarrow> bool" where
  "less_observed a f h h' \<longleftrightarrow>
     h' = h\<lparr>streams := streams h'\<rparr> \<and> (\<forall>s. rel_option (obs_less a (f s)) (streams h s) (streams h' s))"

lemma less_observedD:
  assumes "less_observed a f h h'"
  shows "mods h' = mods h" "free_mods h' = free_mods h" "free_streams h' = free_streams h"
    "rel_option (obs_less a (f s)) (streams h s) (streams h' s)"
proof -
  have e: "h' = h\<lparr>streams := streams h'\<rparr>" using assms by (simp add: less_observed_def)
  show "mods h' = mods h" "free_mods h' = free_mods h" "free_streams h' = free_streams h"
    using arg_cong [OF e, of mods] arg_cong [OF e, of free_mods] arg_cong [OF e, of free_streams] by simp_all
  show "rel_option (obs_less a (f s)) (streams h s) (streams h' s)" using assms by (simp add: less_observed_def)
qed

lemma less_observed_refl: "less_observed a (\<lambda>s. 0) h h"
  unfolding less_observed_def by (simp add: option.rel_refl obs_less_def)

lemma less_observed_step:
  assumes "less_observed a f h h'" "removeObserver s a h' = Inr h''"
  shows "less_observed a (f(s := Suc (f s))) h h''"
proof -
  obtain d' where d': "streams h' s = Some d'" "h'' = put_stream s (d'\<lparr>observers := erase_first a (observers d')\<rparr>) h'"
    using assms(2) by (auto simp: removeObserver_def upd_stream_def mapR_eq_Inr)
  have e: "h' = h\<lparr>streams := streams h'\<rparr>" using assms(1) by (simp add: less_observed_def)
  have "h'' = h\<lparr>streams := streams h''\<rparr>" unfolding d'(2) by (subst e) (simp add: put_stream_def)
  moreover have "rel_option (obs_less a ((f(s := Suc (f s))) t)) (streams h t) (streams h'' t)" for t
  proof -
    have r: "rel_option (obs_less a (f t)) (streams h t) (streams h' t)"
      using assms(1) by (simp add: less_observed_def)
    show ?thesis
    proof (cases "t = s")
      case True
      then obtain d where d: "streams h s = Some d" "obs_less a (f s) d d'" using r d'(1) by (auto simp: option_rel_Some2)
      then have "obs_less a (Suc (f s)) d (d'\<lparr>observers := erase_first a (observers d')\<rparr>)"
        by (auto simp: obs_less_def count_list_erase_first)
      then show ?thesis using True d(1) d'(2) by simp
    next
      case False
      then show ?thesis using r d'(2) by simp
    qed
  qed
  ultimately show ?thesis by (simp add: less_observed_def)
qed

lemma cells_below_Suc:
  assumes "module_ok m" "i < length (input_map m)"
  shows "\<exists>c. map_of (input_map m) (int i) = Some (Cell c) \<and>
    (\<forall>s. cells_below m s (Suc i) = (if c = Some s then Suc (cells_below m s i) else cells_below m s i))"
proof -
  have io: "io_ok (input_map m) (input_infos m)" using assms(1) by (simp add: module_ok_def)
  have n: "map_of (input_map m) (int i) = Some (snd (input_map m ! i))" by (rule nth_smap_io [OF io assms(2)])
  have "input_map m ! i \<in> set (input_map m)" using assms(2) by simp
  then have "snd (input_map m ! i) \<noteq> StorageNull" using io by (force simp: io_ok_def)
  then obtain c where c: "snd (input_map m ! i) = Cell c" by (cases "snd (input_map m ! i)") auto
  then show ?thesis using n assms(2) by (auto simp: cells_below_def take_Suc_conv_app_nth)
qed

lemma disconnect_inputs_ok:
  assumes "mods h a = Some m" "module_ok m" "\<And>n s. map_of (input_map m) n = Some (Cell (Some s)) \<Longrightarrow> streams h s \<noteq> None"
    and "less_observed a (\<lambda>s. cells_below m s i) h h'" "i + k = length (input_map m)"
  shows "\<exists>h''. disconnect_inputs a i k h' = Inr h'' \<and> less_observed a (cells_to m) h h''"
  using assms(4,5)
proof (induction k arbitrary: i h')
  case 0
  then have "(\<lambda>s. cells_below m s i) = cells_to m" by (auto simp: cells_below_def cells_to_def)
  with 0 show ?case by simp
next
  case (Suc k)
  obtain c where c: "map_of (input_map m) (int i) = Some (Cell c)"
    "\<And>s. cells_below m s (Suc i) = (if c = Some s then Suc (cells_below m s i) else cells_below m s i)"
    using cells_below_Suc [OF assms(2), of i] Suc.prems(2) by auto
  have "mods h' = mods h" by (rule less_observedD(1) [OF Suc.prems(1)])
  then have m: "mods h' a = Some m" using assms(1) by simp
  have g: "getInput m (int i) = Inr c" using c(1) by (simp add: getInput_def deref_storage_def)
  show ?case
  proof (cases c)
    case None
    then have "(\<lambda>s. cells_below m s i) = (\<lambda>s. cells_below m s (Suc i))" using c(2) by auto
    then have "less_observed a (\<lambda>s. cells_below m s (Suc i)) h h'" using Suc.prems(1) by simp
    from Suc.IH [OF this] Suc.prems(2) show ?thesis using m g None by (simp add: store_eval)
  next
    case (Some s)
    have "streams h s \<noteq> None" using assms(3) c(1) Some by blast
    then obtain d' where "streams h' s = Some d'"
      using less_observedD(4) [OF Suc.prems(1), of s] by (cases "streams h' s") auto
    then have r: "removeObserver s a h' = Inr (put_stream s (d'\<lparr>observers := erase_first a (observers d')\<rparr>) h')" (is "_ = Inr ?h")
      by (simp add: removeObserver_def store_eval)
    have "(\<lambda>s. cells_below m s i)(s := Suc (cells_below m s i)) = (\<lambda>s. cells_below m s (Suc i))" using c(2) Some by auto
    with less_observed_step [OF Suc.prems(1) r] have "less_observed a (\<lambda>s. cells_below m s (Suc i)) h ?h" by simp
    from Suc.IH [OF this] Suc.prems(2) show ?thesis
      using m c(1) Some r by (simp add: store_eval getInput_def deref_storage_def)
  qed
qed

text \<open>The graph in which the module is gone from the observers and has nothing on its inputs.\<close>

lemma graph_ok_unobserved:
  assumes ok: "graph_ok h" and a: "mods h a = Some m" and l: "less_observed a (cells_to m) h h'"
  shows "graph_ok (put_module a (cleared m) h')" (is "graph_ok ?h")
    and "\<And>s d. streams h' s = Some d \<Longrightarrow> a \<notin> set (observers d)"
proof -
  have mods: "mods h' = mods h" by (rule less_observedD(1) [OF l])
  have rel: "rel_option (obs_less a (cells_to m s)) (streams h s) (streams h' s)" for s
    using l by (simp add: less_observed_def)
  have live: "streams h' s \<noteq> None" if "streams h s = Some d" for s d
    using rel [of s] that by (auto simp: option_rel_Some1)
  have zero: "count_list (observers d') a = 0" if q: "streams h' s = Some d'" for s d'
  proof -
    obtain d where d: "streams h s = Some d" "obs_less a (cells_to m s) d d'" using rel [of s] q by (auto simp: option_rel_Some2)
    then show ?thesis using graph_okD(4) [OF ok d(1) a] by (simp add: obs_less_def)
  qed
  then show "\<And>s d. streams h' s = Some d \<Longrightarrow> a \<notin> set (observers d)" by (metis count_list_0_iff)
  have pub: "published ?h s = published h s" for s
    by (rule published_cong) (use a in \<open>auto simp: mods\<close>)
  have mod: "module_ok mb \<and> (\<forall>n s. map_of (input_map mb) n = Some (Cell (Some s)) \<longrightarrow> streams ?h s \<noteq> None) \<and>
      (\<forall>n s. map_of (output_map mb) n = Some (Cell (Some s)) \<longrightarrow> streams ?h s \<noteq> None)" if q: "mods ?h b = Some mb" for b mb
  proof (cases "b = a")
    case True
    then have mb: "mb = cleared m" using q by simp
    then show ?thesis
      using module_ok_cleared [OF graph_okD(1) [OF ok a]] graph_okD(3) [OF ok a] live map_of_cleared [of m] by fastforce
  next
    case False
    then have b: "mods h b = Some mb" using q mods by simp
    show ?thesis using graph_okD(1,2,3) [OF ok b] live by fastforce
  qed
  have cnt: "count_list (observers d) b \<le> attached ?h b s \<and> (published ?h s \<longrightarrow> count_list (observers d) b = attached ?h b s)"
    if q: "streams ?h s = Some d" for s d b
  proof -
    have d': "streams h' s = Some d" using q by simp
    obtain d0 where d0: "streams h s = Some d0" "obs_less a (cells_to m s) d0 d" using rel [of s] d' by (auto simp: option_rel_Some2)
    show ?thesis
    proof (cases "b = a")
      case True
      then show ?thesis using zero [OF d'] by (simp add: attached_def)
    next
      case False
      then have "attached ?h b s = attached h b s" by (simp add: attached_def mods)
      then show ?thesis using False d0 graph_okD(6,7) [OF ok d0(1), of b] pub by (simp add: obs_less_def)
    qed
  qed
  show "graph_ok ?h" unfolding graph_ok_def using mod cnt by blast
qed

section \<open>Detaching the readers\<close>

text \<open>Detaching the readers of a stream neither reads nor changes a module that is not a
  reader.\<close>

lemma put_module_commute: "a \<noteq> b \<Longrightarrow> put_module b y (put_module a x h) = put_module a x (put_module b y h)"
  by (simp add: put_module_def fun_upd_twist)

lemma upd_module_frame:
  "a \<noteq> b \<Longrightarrow> upd_module f b (put_module a x h) = mapR (put_module a x) (upd_module f b h)"
  by (auto simp: upd_module_def get_module_def put_module_commute split: option.split)

lemma upd_stream_frame: "upd_stream f s (put_module a x h) = mapR (put_module a x) (upd_stream f s h)"
  by (auto simp: upd_stream_def get_stream_def put_module_def put_stream_def split: option.split)

lemma removeObserver_frame: "removeObserver s b (put_module a x h) = mapR (put_module a x) (removeObserver s b h)"
  by (simp add: removeObserver_def upd_stream_frame)

lemma mapR_mapR: "mapR f (mapR g r) = mapR (\<lambda>x. f (g x)) r"
  by (cases r) auto

lemma bindR_mapR: "bindR (mapR f r) g = bindR r (\<lambda>x. g (f x))"
  by (cases r) auto

lemma mapR_bindR: "mapR f (bindR r g) = bindR r (\<lambda>x. mapR f (g x))"
  by (cases r) auto

lemma get_module_frame: "a \<noteq> b \<Longrightarrow> get_module (put_module a x h) b = get_module h b"
  by (simp add: get_module_def)

lemma setInput_NULL_frame:
  assumes "a \<noteq> b"
  shows "setInput None i b (put_module a x h) = mapR (put_module a x) (setInput None i b h)"
proof -
  have "bindR (case cur of None \<Rightarrow> Inr (put_module a x h0) | Some s \<Rightarrow> removeObserver s b (put_module a x h0)) k =
      bindR (case cur of None \<Rightarrow> Inr h0 | Some s \<Rightarrow> removeObserver s b h0) (\<lambda>h. k (put_module a x h))" for cur h0 and k :: "heap \<Rightarrow> heap result"
    by (cases cur) (simp_all add: removeObserver_frame bindR_mapR)
  then have step: "bindR (case cur of None \<Rightarrow> Inr (put_module a x h0) | Some s \<Rightarrow> removeObserver s b (put_module a x h0))
      (upd_module (set_cell i None) b) =
    mapR (put_module a x) (bindR (case cur of None \<Rightarrow> Inr h0 | Some s \<Rightarrow> removeObserver s b h0) (upd_module (set_cell i None) b))"
    for cur h0 by (simp add: upd_module_frame [OF assms] mapR_bindR)
  have bind_Inr: "bindR r Inr = r" for r :: "heap result" by (cases r) auto
  show ?thesis
  proof (cases "mods h b")
    case (Some m)
    show ?thesis
    proof (cases "map_of (input_map m) i")
      case None
      then show ?thesis using Some assms by (simp add: setInput_def store_eval put_module_commute)
    next
      case (Some c)
      show ?thesis
      proof (cases c)
        case StorageNull
        then show ?thesis using Some \<open>mods h b = Some m\<close> assms by (simp add: setInput_def store_eval put_module_commute)
      next
        case (Cell cur)
        have "setInput None i b h' = bindR (upd_module (touch_info i) b h') (\<lambda>h0.
            bindR (case cur of None \<Rightarrow> Inr h0 | Some s \<Rightarrow> removeObserver s b h0) (upd_module (set_cell i None) b))"
          if "mods h' b = Some m" for h'
          using Some Cell that by (simp add: setInput_def store_eval bind_Inr)
        from this [of h] this [of "put_module a x h"] show ?thesis
          using \<open>mods h b = Some m\<close> assms step by (simp add: upd_module_frame bindR_mapR mapR_bindR)
      qed
    qed
  qed (use assms in \<open>simp add: setInput_def get_module_def\<close>)
qed

lemma find_attached_frame:
  "a \<notin> set its \<Longrightarrow> find_attached (put_module a x h) s its = find_attached h s its"
  by (induction its) (simp_all add: get_module_frame cong: if_cong)

lemma removeObservers_frame:
  assumes "streams h s = Some d" "a \<notin> set (observers d)"
  shows "removeObservers s (put_module a x h) = mapR (put_module a x) (removeObservers s h)"
  using assms
proof (induction "length (observers d)" arbitrary: h d rule: less_induct)
  case less
  note f = find_attached_frame [OF less(3), of x h s]
  show ?case
  proof (cases "find_attached h s (observers d)")
    case (Inl e)
    then show ?thesis using less(2) f by (subst (1 2) removeObservers.simps) (simp add: store_eval)
  next
    case (Inr r)
    show ?thesis
    proof (cases r)
      case None
      then show ?thesis using Inr less(2) f
        by (subst (1 2) removeObservers.simps) (simp add: store_eval upd_stream_frame)
    next
      case (Some bi)
      obtain b i where b: "bi = (b, i)" by (cases bi)
      have fa: "find_attached h s (observers d) = Inr (Some (b, i))" using Inr Some b by simp
      obtain m where m: "b \<in> set (observers d)" "mods h b = Some m" "map_of (input_map m) i = Some (Cell (Some s))"
        using find_attached_SomeD [OF fa] by auto
      have ab: "a \<noteq> b" using m(1) less(3) by auto
      note nul = setInput_NULL_attached [OF m(2,3) less(2)]
      obtain h' where h': "setInput None i b h = Inr h'" "streams h' s = Some (d\<lparr>observers := erase_first b (observers d)\<rparr>)"
        using nul by auto
      have "removeObservers s (put_module a x h') = mapR (put_module a x) (removeObservers s h')"
        by (rule less(1) [OF _ h'(2)])
          (use m(1) less(3) set_erase_first_subset [of b "observers d"] in \<open>auto simp: length_erase_first\<close>)
      then show ?thesis using less(2) f fa h' setInput_NULL_frame [OF ab, of i x h]
        by (subst (1 2) removeObservers.simps) (simp add: store_eval)
    qed
  qed
qed

lemma removeObservers_calm: "removeObservers s h = Inr h' \<Longrightarrow> calm h h'"
proof (induction s h arbitrary: h' rule: removeObservers.induct)
  case (1 s h)
  obtain d where d: "streams h s = Some d"
    using 1(2) by (subst (asm) removeObservers.simps) (auto simp: get_stream_def split: option.splits)
  obtain r where r: "find_attached h s (observers d) = Inr r"
    using 1(2) d by (subst (asm) removeObservers.simps) (auto simp: store_eval split: sum.splits)
  show ?case
  proof (cases r)
    case None
    then have "upd_stream (\<lambda>d. d\<lparr>observers := []\<rparr>) s h = Inr h'"
      using 1(2) d r by (subst (asm) removeObservers.simps) (simp add: store_eval)
    then show ?thesis by (rule calm_upd_stream)
  next
    case (Some bi)
    obtain b i where bi: "bi = (b, i)" by (cases bi)
    obtain h1 where h1: "setInput None i b h = Inr h1" "removeObservers s h1 = Inr h'"
      using 1(2) d r Some bi by (subst (asm) removeObservers.simps) (auto simp: store_eval split: sum.splits)
    have "calm h1 h'" by (rule 1(1) [of d r bi b i h1]) (use d r Some bi h1 in \<open>simp_all add: store_eval\<close>)
    with setInput_calm [OF h1(1)] show ?thesis by (rule calm_trans)
  qed
qed

definition unplugged :: "moModule \<Rightarrow> bool" where
  "unplugged m \<longleftrightarrow> (\<forall>n c. map_of (input_map m) n = Some c \<longrightarrow> c = Cell None)"

lemma cells_cleared_unplugged:
  assumes "cells_cleared s m m'" "unplugged m" "module_ok m" "module_ok m'"
  shows "m' = m"
proof -
  have c: "m' = m\<lparr>input_map := input_map m'\<rparr>"
    "\<And>n. map_of (input_map m') n = map_of (input_map m) n \<or>
      (map_of (input_map m) n = Some (Cell (Some s)) \<and> map_of (input_map m') n = Some (Cell None))"
    using assms(1) by (auto simp: cells_cleared_def)
  have "map_of (input_map m') n = map_of (input_map m) n" for n
    using c(2) [of n] assms(2) by (auto simp: unplugged_def)
  moreover have "smap_wf (input_map m)" "smap_wf (input_map m')" using assms(3,4) io_ok_wf by (auto simp: module_ok_def)
  ultimately have "input_map m' = input_map m" by (intro smap_eqI) auto
  with c(1) show ?thesis by simp
qed

text \<open>The outputs below \<open>i\<close> have no observer.\<close>

definition out_detached :: "moModule \<Rightarrow> heap \<Rightarrow> nat \<Rightarrow> bool" where
  "out_detached m h i \<longleftrightarrow>
     (\<forall>j s d. j < i \<longrightarrow> map_of (output_map m) (int j) = Some (Cell (Some s)) \<longrightarrow> streams h s = Some d \<longrightarrow> observers d = [])"

lemma out_detached_Suc:
  "out_detached m h i \<Longrightarrow> (\<And>s d. map_of (output_map m) (int i) = Some (Cell (Some s)) \<Longrightarrow> streams h s = Some d \<Longrightarrow> observers d = []) \<Longrightarrow>
     out_detached m h (Suc i)"
  unfolding out_detached_def less_Suc_eq by blast

lemma disconnect_outputs_ok:
  assumes "graph_ok h" "mods h a = Some mc" "unplugged mc" "output_map m = output_map mc"
    "\<forall>s d. streams h s = Some d \<longrightarrow> a \<notin> set (observers d)" "out_detached mc h i"
  shows "\<exists>h'. disconnect_outputs a i k h = Inr h' \<and> disconnect_outputs a i k (put_module a m h) = Inr (put_module a m h') \<and>
    graph_ok h' \<and> calm h h' \<and> mods h' a = Some mc \<and> (\<forall>s d. streams h' s = Some d \<longrightarrow> a \<notin> set (observers d)) \<and>
    out_detached mc h' (i + k)"
  using assms(1,2,5,6)
proof (induction k arbitrary: i h)
  case 0
  then show ?case by simp
next
  case (Suc k)
  obtain c where c: "getOutput mc (int i) = Inr c" using getOutput_ok graph_okD(1) [OF Suc.prems(1,2)] by blast
  have cm: "getOutput m (int i) = Inr c" using c assms(4) by (simp add: getOutput_def)
  show ?case
  proof (cases c)
    case None
    then have "map_of (output_map mc) (int i) \<noteq> Some (Cell (Some s))" for s
      using c by (auto simp: getOutput_def deref_storage_def)
    then have "out_detached mc h (Suc i)" using out_detached_Suc [OF Suc.prems(4)] by blast
    from Suc.IH [OF Suc.prems(1,2,3) this] show ?thesis using Suc.prems(2) c cm None by (simp add: store_eval)
  next
    case (Some s)
    have out: "map_of (output_map mc) (int i) = Some (Cell (Some s))"
      using c Some by (auto simp: getOutput_def deref_storage_def split: option.splits storage.splits)
    obtain d where d: "streams h s = Some d" using graph_okD(3) [OF Suc.prems(1,2) out] by blast
    obtain h1 where h1: "removeObservers s h = Inr h1" "graph_ok h1" "streams h1 = (streams h)(s := Some (d\<lparr>observers := []\<rparr>))"
      "\<forall>b. rel_option (cells_cleared s) (mods h b) (mods h1 b)" using removeObservers_ok [OF Suc.prems(1) d] by blast
    obtain m1 where m1: "mods h1 a = Some m1" "cells_cleared s mc m1"
      using h1(4) [rule_format, of a] Suc.prems(2) by (auto simp: option_rel_Some1)
    have "m1 = mc" by (rule cells_cleared_unplugged [OF m1(2) assms(3) graph_okD(1) [OF Suc.prems(1,2)] graph_okD(1) [OF h1(2) m1(1)]])
    then have a1: "mods h1 a = Some mc" using m1(1) by simp
    have nob: "\<forall>t e. streams h1 t = Some e \<longrightarrow> a \<notin> set (observers e)" using Suc.prems(3) h1(3) by (auto split: if_splits)
    have "out_detached mc h1 i" using Suc.prems(4) h1(3) unfolding out_detached_def by (auto split: if_splits)
    then have od: "out_detached mc h1 (Suc i)" by (rule out_detached_Suc) (use out h1(3) in auto)
    have fr: "removeObservers s (put_module a m h) = Inr (put_module a m h1)"
      using removeObservers_frame [OF d, of a m] Suc.prems(3) d h1(1) by simp
    obtain h' where h': "disconnect_outputs a (Suc i) k h1 = Inr h'"
      "disconnect_outputs a (Suc i) k (put_module a m h1) = Inr (put_module a m h')" "graph_ok h'" "calm h1 h'" "mods h' a = Some mc"
      "\<forall>s d. streams h' s = Some d \<longrightarrow> a \<notin> set (observers d)" "out_detached mc h' (Suc i + k)"
      using Suc.IH [OF h1(2) a1 nob od] by blast
    have "calm h h'" using calm_trans [OF removeObservers_calm [OF h1(1)] h'(4)] .
    then show ?thesis using Suc.prems(2) c cm Some h1(1) fr h' by (simp add: store_eval)
  qed
qed

section \<open>The module is gone\<close>

lemma moModule_stop_form:
  assumes "mods h a = Some m" "life_ok a m"
  shows "\<exists>m'. moModule_stop a h = Inr (put_module a m' h)"
  using assms by (cases "use_thread m \<and> thread m \<noteq> None") (auto simp: moModule_stop_def store_eval life_ok_def)

lemma delete_module_form:
  assumes "life_ok a m"
  shows "delete_module frees a (put_module a m h) =
    Inr (h\<lparr>mods := (mods h)(a := None), streams := (\<lambda>s. if s \<in> set (frees m) then None else streams h s)\<rparr>)"
proof -
  have a: "mods (put_module a m h) a = Some m" by simp
  obtain m' where "moModule_stop a (put_module a m h) = Inr (put_module a m' (put_module a m h))"
    using moModule_stop_form [OF a assms] by blast
  moreover have "put_module a m' (put_module a m h) = put_module a m' h" by (simp add: put_module_def)
  moreover have "streams (h\<lparr>mods := x\<rparr>) = streams h" for x by simp
  ultimately show ?thesis using a by (simp add: delete_module_def store_eval) (simp add: put_module_def cong: if_cong)
qed

lemma out_index:
  assumes "module_ok m" "map_of (output_map m) n = Some c"
  shows "\<exists>j. n = int j \<and> j < length (output_map m)"
proof -
  have "n \<in> set (map fst (output_map m))" using assms(2) by (force dest: map_of_SomeD)
  moreover have "map fst (output_map m) = map int [0..<length (output_map m)]"
    using assms(1) by (simp add: module_ok_def io_ok_def)
  ultimately have "n \<in> set (map int [0..<length (output_map m)])" by (simp only:)
  then show ?thesis by auto
qed

text \<open>Everything a module leaves behind: the other modules with their properties, threads and
  outputs, and the unused memory.\<close>

definition without :: "maddr \<Rightarrow> heap \<Rightarrow> heap \<Rightarrow> bool" where
  "without a h h' \<longleftrightarrow>
     mods h' a = None \<and> (\<forall>b. b \<noteq> a \<longrightarrow> map_option inner (mods h' b) = map_option inner (mods h b)) \<and>
     (\<forall>s d. streams h' s = Some d \<longrightarrow> a \<notin> set (observers d)) \<and>
     (\<forall>s. streams h s = None \<longrightarrow> streams h' s = None) \<and> free_mods h' = free_mods h \<and> free_streams h' = free_streams h"

lemma without_module:
  assumes "without a h h'" "mods h' b = Some m'"
  shows "b \<noteq> a \<and> (\<exists>m. mods h b = Some m \<and> inner m' = inner m)"
proof -
  have b: "b \<noteq> a" using assms by (auto simp: without_def)
  then have "map_option inner (mods h b) = Some (inner m')" using assms unfolding without_def by (metis option.simps(9))
  with b show ?thesis by auto
qed

lemma without_ok:
  assumes "without a h h'" "graph_ok h'" "heap_ok h" "mem_ok h" "outputs_private h"
  shows "heap_ok h' \<and> mem_ok h' \<and> outputs_private h'"
proof (intro conjI)
  show "heap_ok h'"
    unfolding heap_ok_def
  proof (intro conjI assms(2) allI impI)
    fix b m' assume b: "mods h' b = Some m'"
    obtain m where m: "mods h b = Some m" "inner m' = inner m" using without_module [OF assms(1) b] by blast
    from heap_okD(2) [OF assms(3) m(1)] m(2) show "life_ok b m'" by (simp add: life_ok_def inner_def)
  qed
  have none: "mods h' b = None" if "mods h b = None" for b
    using that assms(1) unfolding without_def by (cases "b = a") (auto simp: map_option_is_None dest!: spec [of _ b])
  show "mem_ok h'" using assms(1,4) none unfolding mem_ok_def without_def by auto
  show "outputs_private h'"
    unfolding outputs_private_def
  proof (intro allI impI)
    fix x y mx my assume xy: "mods h' x = Some mx" "mods h' y = Some my" "out_streams mx \<inter> out_streams my \<noteq> {}"
    obtain nx ny where n: "mods h x = Some nx" "inner mx = inner nx" "mods h y = Some ny" "inner my = inner ny"
      using without_module [OF assms(1) xy(1)] without_module [OF assms(1) xy(2)] by blast
    then have "out_streams nx \<inter> out_streams ny \<noteq> {}" using xy(3) by (simp add: out_streams_def inner_def)
    with n assms(5) show "x = y" unfolding outputs_private_def by blast
  qed
qed

definition dismantle :: "(moModule \<Rightarrow> saddr list) \<Rightarrow> maddr \<Rightarrow> moModule \<Rightarrow> heap \<Rightarrow> heap result" where
  "dismantle frees a m h =
     bindR (disconnect_inputs a 0 (getInputCount m) h) (\<lambda>h3.
     bindR (disconnect_outputs a 0 (getOutputCount m) h3) (delete_module frees a))"

lemma dismantle_ok:
  assumes ok: "heap_ok h" and a: "mods h a = Some m" and pr: "outputs_private h" and fr: "set (frees m) \<subseteq> out_streams m"
  shows "\<exists>h'. dismantle frees a m h = Inr h' \<and> graph_ok h' \<and> without a h h'"
proof -
  have g: "graph_ok h" and mk: "module_ok m" using heap_okD(1) [OF ok] heap_okD(3) [OF ok a] by auto
  have io: "io_ok (input_map m) (input_infos m)" "io_ok (output_map m) (output_infos m)" using mk by (simp_all add: module_ok_def)
  have cnt: "getInputCount m = length (input_map m)" "getOutputCount m = length (output_map m)"
    using io_ok_length [OF io(1)] io_ok_length [OF io(2)] by (simp_all add: getInputCount_def getOutputCount_def)
  have start: "less_observed a (\<lambda>s. cells_below m s 0) h h"
    using less_observed_refl by (simp add: cells_below_def)
  have live: "\<And>n s. map_of (input_map m) n = Some (Cell (Some s)) \<Longrightarrow> streams h s \<noteq> None" using graph_okD(2) [OF g a] by fastforce
  obtain h3 where h3: "disconnect_inputs a 0 (getInputCount m) h = Inr h3" "less_observed a (cells_to m) h h3"
    using disconnect_inputs_ok [OF a mk _ start] live cnt by auto
  let ?hc = "put_module a (cleared m) h3"
  note un = graph_ok_unobserved [OF g a h3(2)]
  have h3a: "mods h3 a = Some m" using less_observedD(1) [OF h3(2)] a by simp
  then have bk: "put_module a m ?hc = h3" by (simp add: put_module_def fun_upd_idem)
  have unp: "unplugged (cleared m)" using map_of_cleared [of m] by (auto simp: unplugged_def)
  have nob: "\<forall>s d. streams ?hc s = Some d \<longrightarrow> a \<notin> set (observers d)" using un(2) by simp
  obtain h4 where h4: "disconnect_outputs a 0 (getOutputCount m) h3 = Inr (put_module a m h4)" "graph_ok h4" "calm ?hc h4"
    "mods h4 a = Some (cleared m)" "\<forall>s d. streams h4 s = Some d \<longrightarrow> a \<notin> set (observers d)"
    "out_detached (cleared m) h4 (length (output_map m))"
    using disconnect_outputs_ok [OF un(1) _ unp _ nob, of m 0 "length (output_map m)"] cnt(2) bk
    by (auto simp: out_detached_def)
  let ?h5 = "h4\<lparr>mods := (mods h4)(a := None), streams := (\<lambda>s. if s \<in> set (frees m) then None else streams h4 s)\<rparr>"
  have res: "dismantle frees a m h = Inr ?h5"
    using h3(1) h4(1) delete_module_form [OF heap_okD(2) [OF ok a], of frees h4] by (simp add: dismantle_def)
  have inn: "map_option inner (mods h4 b) = map_option inner (mods h b)" if "b \<noteq> a" for b
    using h4(3) that less_observedD(1) [OF h3(2)] by (simp add: calm_def)
  have att: "attached h4 b s = 0" if q: "s \<in> set (frees m)" for b s
  proof -
    have so: "s \<in> out_streams m" using q fr by blast
    then obtain j where j: "map_of (output_map m) (int j) = Some (Cell (Some s))" "j < length (output_map m)"
      using out_index [OF mk] by (auto simp: out_streams_def)
    have "s \<in> out_streams (cleared m)" using so by (simp add: out_streams_def cleared_def)
    then have pub: "published h4 s" using h4(4) unfolding published_out out_streams_def by blast
    obtain d where d: "streams h4 s = Some d" using graph_okD(3) [OF h4(2,4)] j(1) by auto
    have "observers d = []" using h4(6) j d unfolding out_detached_def by auto
    then show ?thesis using graph_okD(6) [OF h4(2) d pub, of b] by simp
  qed
  have own: "b = a" if q: "s \<in> set (frees m)" "mods h4 b = Some mb" "s \<in> out_streams mb" for s b mb
  proof (rule ccontr)
    assume ne: "b \<noteq> a"
    then obtain m0 where m0: "mods h b = Some m0" "inner mb = inner m0"
      using inn [OF ne] q(2) by (metis map_option_eq_Some option.simps(9))
    then have "s \<in> out_streams m0" using q(3) by (simp add: out_streams_def inner_def)
    with q(1) fr pr a m0(1) ne show False unfolding outputs_private_def by blast
  qed
  have "graph_ok ?h5" by (rule graph_ok_delete [OF h4(2,4)]) (use h4(5) att own in auto)
  moreover have "without a h ?h5"
    unfolding without_def
  proof (intro conjI allI impI)
    fix s
    show "streams ?h5 s = None" if "streams h s = None"
    proof -
      have "streams h3 s = None" using less_observedD(4) [OF h3(2), of s] that by simp
      then have "streams h4 s = None" using h4(3) by (simp add: calm_def)
      then show ?thesis by simp
    qed
  qed (use inn h4(3,5) less_observedD(2,3) [OF h3(2)] in \<open>auto simp: calm_def split: if_splits\<close>)
  ultimately show ?thesis using res by blast
qed

section \<open>Consistent stores\<close>

definition good :: "heap \<Rightarrow> bool" where
  "good h \<longleftrightarrow> heap_ok h \<and> mem_ok h \<and> outputs_private h"

lemma goodD:
  assumes "good h"
  shows "heap_ok h" "mem_ok h" "outputs_private h"
  using assms by (simp_all add: good_def)

text \<open>The class of a module and the streams it writes.\<close>

definition outline :: "moModule \<Rightarrow> string \<times> (int, storage) smap" where
  "outline m = (class_name m, output_map m)"

definition same_outlines :: "heap \<Rightarrow> heap \<Rightarrow> bool" where
  "same_outlines h h' \<longleftrightarrow> (\<forall>b. map_option outline (mods h' b) = map_option outline (mods h b))"

lemma same_outlines_alive: "same_outlines h h' \<Longrightarrow> mods h' b = None \<longleftrightarrow> mods h b = None"
  unfolding same_outlines_def by (metis option.map_disc_iff)

lemma same_outlines_trans: "same_outlines h h' \<Longrightarrow> same_outlines h' h'' \<Longrightarrow> same_outlines h h''"
  by (simp add: same_outlines_def)

lemma outline_out_streams: "outline m = outline m' \<Longrightarrow> out_streams m = out_streams m'"
  by (simp add: outline_def out_streams_def)

lemma same_outlines_private:
  assumes "same_outlines h h'" "outputs_private h"
  shows "outputs_private h'"
proof -
  have back1: "\<exists>m. mods h b = Some m \<and> out_streams m' = out_streams m" if "mods h' b = Some m'" for b m'
  proof -
    have "map_option outline (mods h b) = Some (outline m')" using assms(1) that unfolding same_outlines_def by (metis option.simps(9))
    then show ?thesis using outline_out_streams by (metis map_option_eq_Some)
  qed
  show ?thesis
    unfolding outputs_private_def
  proof (intro allI impI)
    fix x y mx my assume xy: "mods h' x = Some mx" "mods h' y = Some my" "out_streams mx \<inter> out_streams my \<noteq> {}"
    with back1 [OF xy(1)] back1 [OF xy(2)] assms(2) show "x = y" unfolding outputs_private_def by metis
  qed
qed

lemma keeps_same_outlines:
  assumes "keeps h h'"
  shows "same_outlines h h'"
  unfolding same_outlines_def
proof
  fix b
  have w: "map_option module_wires (mods h' b) = map_option module_wires (mods h b)" using assms by (simp add: keeps_def same_wires_def)
  have f: "outline m = (\<lambda>(c, i, out1). (c, out1)) (module_wires m)" for m by (simp add: outline_def module_wires_def)
  have "map_option outline x = map_option (\<lambda>(c, i, out1). (c, out1)) (map_option module_wires x)" for x
    using f by (cases x) auto
  with w show "map_option outline (mods h' b) = map_option outline (mods h b)" by metis
qed

lemma map_option_outline: "map_option outline x = map_option (\<lambda>i. (fst i, snd (snd (snd (snd (snd i)))))) (map_option inner x)"
  by (cases x) (simp_all add: outline_def inner_def)

lemma calm_same_outlines: "calm h h' \<Longrightarrow> same_outlines h h'"
  unfolding same_outlines_def calm_def map_option_outline by simp

lemma keeps_good: "keeps h h' \<Longrightarrow> good h \<Longrightarrow> good h'"
  using keepsD(1) keeps_mem_ok same_outlines_private keeps_same_outlines unfolding good_def by blast

lemma calm_good: "calm h h' \<Longrightarrow> graph_ok h' \<Longrightarrow> good h \<Longrightarrow> good h'"
  using calm_heap_ok same_outlines_private calm_same_outlines unfolding good_def by blast

lemma each_module_keeps:
  assumes "\<And>a h m. heap_ok h \<Longrightarrow> mods h a = Some m \<Longrightarrow> \<exists>h'. f a h = Inr h' \<and> keeps h h'"
    and "heap_ok h" "\<forall>a \<in> set as. mods h a \<noteq> None"
  shows "\<exists>h'. each_module f as h = Inr h' \<and> keeps h h'"
  using assms(2,3)
proof (induction as arbitrary: h)
  case Nil
  then show ?case by (simp add: keeps_refl)
next
  case (Cons a as)
  obtain m where m: "mods h a = Some m" using Cons.prems(2) by auto
  obtain h1 where h1: "f a h = Inr h1" "keeps h h1" using assms(1) [OF Cons.prems(1) m] by blast
  have "\<forall>b \<in> set as. mods h1 b \<noteq> None" using Cons.prems(2) same_outlines_alive [OF keeps_same_outlines [OF h1(2)]] by simp
  then obtain h2 where h2: "each_module f as h1 = Inr h2" "keeps h1 h2" using Cons.IH [OF keepsD(1) [OF h1(2)]] by blast
  with h1 keeps_trans [OF h1(2) h2(2)] show ?case by simp
qed

section \<open>The contract of the classes and their destructors\<close>

text \<open>A destructor deletes none but the streams its module writes.\<close>

locale destructor_contract = class_contract +
  fixes frees :: "moModule \<Rightarrow> saddr list"
  assumes frees_own: "set (frees m) \<subseteq> out_streams m"
begin

lemma virtual_stop_keeps:
  assumes "heap_ok h" "mods h a = Some m"
  shows "\<exists>h'. virtual_stop vt a h = Inr h' \<and> keeps h h'"
  using stop_keeps [OF assms] assms(2) by (simp add: virtual_stop_def store_eval)

lemma pipe_stop_keeps:
  assumes "heap_ok h" "\<forall>b \<in> set (pl_this p # pl_modules p). mods h b \<noteq> None"
  shows "\<exists>h'. pipe_stop vt p h = Inr h' \<and> keeps h h'"
proof -
  obtain m where m: "mods h (pl_this p) = Some m" using assms(2) by auto
  obtain h1 where h1: "moModule_stop (pl_this p) h = Inr h1" "keeps h h1"
    using moModule_stop_keeps [OF assms(1) m] by blast
  have al: "\<forall>b \<in> set (pl_modules p). mods h1 b \<noteq> None"
    using assms(2) same_outlines_alive [OF keeps_same_outlines [OF h1(2)]] by simp
  have "\<exists>h2. each_module (virtual_stop vt) (pl_modules p) h1 = Inr h2 \<and> keeps h1 h2"
    by (rule each_module_keeps [OF virtual_stop_keeps keepsD(1) [OF h1(2)] al])
  with h1 keeps_trans [OF h1(2)] show ?thesis by (auto simp: pipe_stop_def)
qed

lemma remove_module_ok:
  assumes g: "good h" and al: "\<forall>b \<in> set (pl_this p # pl_modules p). mods h b \<noteq> None" and a: "a \<in> set (pl_modules p)"
  shows "\<exists>h'. remove_module vt frees a p h = Inr (removeElement a p, h') \<and> good h' \<and> mods h' a = None \<and>
    (\<forall>s d. streams h' s = Some d \<longrightarrow> a \<notin> set (observers d)) \<and>
    (\<forall>b. b \<noteq> a \<longrightarrow> map_option outline (mods h' b) = map_option outline (mods h b))"
proof -
  obtain h1 where h1: "pipe_stop vt p h = Inr h1" "keeps h h1" using pipe_stop_keeps [OF goodD(1) [OF g] al] by blast
  have "mods h1 a \<noteq> None" using a al same_outlines_alive [OF keeps_same_outlines [OF h1(2)]] by simp
  then obtain m1 where m1: "mods h1 a = Some m1" by blast
  obtain h2 where h2: "virtual_stop vt a h1 = Inr h2" "keeps h1 h2" using virtual_stop_keeps [OF keepsD(1) [OF h1(2)] m1] by blast
  have k: "keeps h h2" by (rule keeps_trans [OF h1(2) h2(2)])
  have g2: "good h2" by (rule keeps_good [OF k g])
  obtain m2 where m2: "mods h2 a = Some m2" using keepsD(2) [OF h2(2) m1] by blast
  obtain h' where h': "dismantle frees a m2 h2 = Inr h'" "graph_ok h'" "without a h2 h'"
    using dismantle_ok [where frees = frees, OF goodD(1) [OF g2] m2 goodD(3) [OF g2] frees_own] by blast
  have "remove_module vt frees a p h = Inr (removeElement a p, h')"
    using h1(1) h2(1) m2 h'(1) by (auto simp: remove_module_def dismantle_def store_eval bindR_eq_Inr)
  moreover have "good h'" using without_ok [OF h'(3,2) goodD [OF g2]] by (simp add: good_def)
  moreover have "map_option outline (mods h' b) = map_option outline (mods h b)" if "b \<noteq> a" for b
  proof -
    have "map_option outline (mods h' b) = map_option outline (mods h2 b)"
      using h'(3) that unfolding without_def map_option_outline by simp
    then show ?thesis using keeps_same_outlines [OF k] by (simp add: same_outlines_def)
  qed
  ultimately show ?thesis using h'(3) unfolding without_def by blast
qed

end

lemma out_at_own: "set (out_at n m) \<subseteq> out_streams m"
  by (auto simp: out_at_def out_streams_def split: option.splits storage.splits)

interpretation mw: destructor_contract movid_vt movid_frees
proof unfold_locales
  show "set (movid_frees m) \<subseteq> out_streams m" for m
    using out_at_own by (auto simp: movid_frees_def)
qed

section \<open>Properties\<close>

text \<open>C3. Removing a module from a running pipeline. For every class table and destructors that keep
  their contract and every consistent store: stopping the pipeline, detaching the module from
  the streams it reads, detaching the readers of its own streams and deleting it ends without a
  dangling pointer or a failed assertion. The store is consistent afterwards, the module is
  gone, no stream has it as observer, and every other module is alive with its class and its
  output streams.\<close>

theorem removal_safe:
  assumes "destructor_contract vt frees" and "good h"
    and "\<forall>b \<in> set (pl_this p # pl_modules p). mods h b \<noteq> None" and "a \<in> set (pl_modules p)"
  shows "\<exists>h'. remove_module vt frees a p h = Inr (removeElement a p, h') \<and> good h' \<and> mods h' a = None \<and>
    (\<forall>s d. streams h' s = Some d \<longrightarrow> a \<notin> set (observers d)) \<and>
    (\<forall>b. b \<noteq> a \<longrightarrow> map_option outline (mods h' b) = map_option outline (mods h b))"
  by (rule destructor_contract.remove_module_ok [OF assms])

definition demo_pipeline :: moPipeline where
  "demo_pipeline = \<lparr>pl_this = 0, pl_modules = [1], pl_is_group = None, pl_last_internal_error = ''''\<rparr>"

lemma demo_good: "good demo_heap"
proof -
  have "mods demo_heap b = Some m \<Longrightarrow> b \<noteq> 0 \<Longrightarrow> out_streams m = {}" for b m
    by (auto simp: demo_heap_def out_streams_def demo_sink_def moModule_ctor_def split: if_splits)
  then have "outputs_private demo_heap" unfolding outputs_private_def by (metis inf_bot_left inf_bot_right)
  moreover have "mem_ok demo_heap" using demo_pipe_ok by (simp add: pipe_ok_def)
  ultimately show ?thesis using demo_heap_ok by (simp add: good_def)
qed

theorem removal_safe_witness:
  "\<exists>h'. remove_module movid_vt movid_frees 1 demo_pipeline demo_heap = Inr (removeElement 1 demo_pipeline, h') \<and>
    good h' \<and> mods h' 1 = None"
proof -
  have "\<forall>b \<in> set (pl_this demo_pipeline # pl_modules demo_pipeline). mods demo_heap b \<noteq> None"
    "(1 :: maddr) \<in> set (pl_modules demo_pipeline)"
    by (simp_all add: demo_pipeline_def demo_heap_def)
  from removal_safe [OF mw.destructor_contract_axioms demo_good this] show ?thesis by blast
qed

end
