(* ===== verification/Movid_Json.thy ===== *)
theory Movid_Json
  imports Movid_Double "HOL-Library.Word"
begin

unbundle bit_operations_syntax

text \<open>
  \<open>contrib/cJSON/cJSON.c\<close>, which prints every answer of the web interface: items and the
  functions that build and change them, the printer and the parser.

  A chain of items linked by \<open>next\<close> and \<open>prev\<close> is the list of its items, so
  an item is a tree. C strings are lists of characters other than NUL, \<open>NULL\<close> is
  \<open>None\<close>. A pointer into the text that is parsed is the rest of the text from there on: the
  empty list is the terminator, and a step past it is \<open>Undefined\<close>, as is a write past the end of
  an allocated buffer. \<open>malloc\<close> is assumed to succeed and the \<open>int\<close> lengths of buffers not to
  overflow. \<open>pow(10.0, e)\<close> is the correctly rounded power.
  The parser recurses on the rest of its input: it has a bound on the number of nested
  calls, and \<open>cJSON_Parse\<close> gives it one that is always enough.
\<close>

section \<open>Items\<close>

datatype cJSON = CJSON
  (cj_type: int)
  (valuestring: "string option")
  (valueint: int)
  (valuedouble: double)
  (cj_string: "string option")
  (cj_child: "cJSON list")

abbreviation (input) "cJSON_False \<equiv> 0 :: int"
abbreviation (input) "cJSON_True \<equiv> 1 :: int"
abbreviation (input) "cJSON_NULL \<equiv> 2 :: int"
abbreviation (input) "cJSON_Number \<equiv> 3 :: int"
abbreviation (input) "cJSON_String \<equiv> 4 :: int"
abbreviation (input) "cJSON_Array \<equiv> 5 :: int"
abbreviation (input) "cJSON_Object \<equiv> 6 :: int"

definition cJSON_IsReference :: int where
  "cJSON_IsReference = 256"

definition cJSON_New_Item :: cJSON where
  "cJSON_New_Item = CJSON 0 None 0 0 None []"

fun set_type :: "int \<Rightarrow> cJSON \<Rightarrow> cJSON" where
  "set_type t (CJSON _ vs vi vd nm cs) = CJSON t vs vi vd nm cs"

fun set_name :: "string option \<Rightarrow> cJSON \<Rightarrow> cJSON" where
  "set_name nm (CJSON t vs vi vd _ cs) = CJSON t vs vi vd nm cs"

fun set_child :: "cJSON list \<Rightarrow> cJSON \<Rightarrow> cJSON" where
  "set_child cs (CJSON t vs vi vd nm _) = CJSON t vs vi vd nm cs"

text \<open>\<open>cJSON_strcasecmp(s1, s2) == 0\<close>\<close>

definition same_name :: "string option \<Rightarrow> string option \<Rightarrow> bool" where
  "same_name s1 s2 = (case (s1, s2) of
     (None, None) \<Rightarrow> True | (Some a, Some b) \<Rightarrow> map tolower a = map tolower b | _ \<Rightarrow> False)"

definition cJSON_CreateNull :: cJSON where
  "cJSON_CreateNull = set_type cJSON_NULL cJSON_New_Item"

definition cJSON_CreateTrue :: cJSON where
  "cJSON_CreateTrue = set_type cJSON_True cJSON_New_Item"

definition cJSON_CreateFalse :: cJSON where
  "cJSON_CreateFalse = set_type cJSON_False cJSON_New_Item"

definition cJSON_CreateNumber :: "double \<Rightarrow> cJSON result" where
  "cJSON_CreateNumber num = mapR (\<lambda>i. CJSON cJSON_Number None i num None []) (int_of_double num)"

definition cJSON_CreateString :: "string \<Rightarrow> cJSON" where
  "cJSON_CreateString s = CJSON cJSON_String (Some s) 0 0 None []"

definition cJSON_CreateArray :: cJSON where
  "cJSON_CreateArray = set_type cJSON_Array cJSON_New_Item"

definition cJSON_CreateObject :: cJSON where
  "cJSON_CreateObject = set_type cJSON_Object cJSON_New_Item"

definition cJSON_GetArraySize :: "cJSON \<Rightarrow> nat" where
  "cJSON_GetArraySize array = length (cj_child array)"

text \<open>A negative index gives the first item.\<close>

definition cJSON_GetArrayItem :: "cJSON \<Rightarrow> int \<Rightarrow> cJSON option" where
  "cJSON_GetArrayItem array item =
     (if nat item < length (cj_child array) then Some (cj_child array ! nat item) else None)"

definition cJSON_GetObjectItem :: "cJSON \<Rightarrow> string \<Rightarrow> cJSON option" where
  "cJSON_GetObjectItem object s = find (\<lambda>c. same_name (cj_string c) (Some s)) (cj_child object)"

definition cJSON_AddItemToArray :: "cJSON \<Rightarrow> cJSON \<Rightarrow> cJSON" where
  "cJSON_AddItemToArray array item = set_child (cj_child array @ [item]) array"

definition cJSON_AddItemToObject :: "cJSON \<Rightarrow> string \<Rightarrow> cJSON \<Rightarrow> cJSON" where
  "cJSON_AddItemToObject object s item = cJSON_AddItemToArray object (set_name (Some s) item)"

text \<open>A reference is a copy of the item without its name that shares the children.\<close>

definition create_reference :: "cJSON \<Rightarrow> cJSON" where
  "create_reference item = set_type (or (cj_type item) cJSON_IsReference) (set_name None item)"

definition cJSON_AddItemReferenceToArray :: "cJSON \<Rightarrow> cJSON \<Rightarrow> cJSON" where
  "cJSON_AddItemReferenceToArray array item = cJSON_AddItemToArray array (create_reference item)"

definition cJSON_AddItemReferenceToObject :: "cJSON \<Rightarrow> string \<Rightarrow> cJSON \<Rightarrow> cJSON" where
  "cJSON_AddItemReferenceToObject object s item = cJSON_AddItemToObject object s (create_reference item)"

definition cJSON_DetachItemFromArray :: "cJSON \<Rightarrow> int \<Rightarrow> cJSON option \<times> cJSON" where
  "cJSON_DetachItemFromArray array which =
     (let i = nat which; cs = cj_child array in
      if i < length cs then (Some (cs ! i), set_child (take i cs @ drop (Suc i) cs) array)
      else (None, array))"

fun name_index :: "string \<Rightarrow> cJSON list \<Rightarrow> nat \<Rightarrow> nat option" where
  "name_index s [] i = None"
| "name_index s (c # cs) i = (if same_name (cj_string c) (Some s) then Some i else name_index s cs (Suc i))"

definition cJSON_DetachItemFromObject :: "cJSON \<Rightarrow> string \<Rightarrow> cJSON option \<times> cJSON" where
  "cJSON_DetachItemFromObject object s =
     (case name_index s (cj_child object) 0 of
        None \<Rightarrow> (None, object)
      | Some i \<Rightarrow> cJSON_DetachItemFromArray object (int i))"

definition cJSON_DeleteItemFromArray :: "cJSON \<Rightarrow> int \<Rightarrow> cJSON" where
  "cJSON_DeleteItemFromArray array which = snd (cJSON_DetachItemFromArray array which)"

definition cJSON_DeleteItemFromObject :: "cJSON \<Rightarrow> string \<Rightarrow> cJSON" where
  "cJSON_DeleteItemFromObject object s = snd (cJSON_DetachItemFromObject object s)"

definition cJSON_ReplaceItemInArray :: "cJSON \<Rightarrow> int \<Rightarrow> cJSON \<Rightarrow> cJSON" where
  "cJSON_ReplaceItemInArray array which newitem =
     (if nat which < length (cj_child array) then set_child ((cj_child array)[nat which := newitem]) array
      else array)"

definition cJSON_ReplaceItemInObject :: "cJSON \<Rightarrow> string \<Rightarrow> cJSON \<Rightarrow> cJSON" where
  "cJSON_ReplaceItemInObject object s newitem =
     (case name_index s (cj_child object) 0 of
        None \<Rightarrow> object
      | Some i \<Rightarrow> cJSON_ReplaceItemInArray object (int i) (set_name (Some s) newitem))"

fun create_numbers :: "double list \<Rightarrow> cJSON list result" where
  "create_numbers [] = Inr []"
| "create_numbers (x # xs) = bindR (cJSON_CreateNumber x) (\<lambda>c. mapR (Cons c) (create_numbers xs))"

definition cJSON_CreateDoubleArray :: "double list \<Rightarrow> cJSON result" where
  "cJSON_CreateDoubleArray xs = mapR (\<lambda>cs. set_child cs cJSON_CreateArray) (create_numbers xs)"

definition cJSON_CreateIntArray :: "int list \<Rightarrow> cJSON result" where
  "cJSON_CreateIntArray is = cJSON_CreateDoubleArray (map of_int is)"

definition cJSON_CreateStringArray :: "string list \<Rightarrow> cJSON" where
  "cJSON_CreateStringArray ss = set_child (map cJSON_CreateString ss) cJSON_CreateArray"

section \<open>Printing\<close>

text \<open>A text written into a buffer of the given size, with its terminator.\<close>

definition into_buffer :: "nat \<Rightarrow> string \<Rightarrow> string result" where
  "into_buffer n t = (if length t + 1 \<le> n then Inr t else Inl Undefined)"

definition DBL_EPSILON :: rat where
  "DBL_EPSILON = bpow 2 (-52)"

definition print_number :: "cJSON \<Rightarrow> string result" where
  "print_number item =
     (let d = valuedouble item in
      if \<bar>dbl (of_int (valueint item) - d)\<bar> \<le> DBL_EPSILON \<and> d \<le> of_int INT_MAX \<and> of_int INT_MIN \<le> d
      then into_buffer 21 (show_int (valueint item))
      else into_buffer 64
        (if \<bar>dbl (of_int \<lfloor>d\<rfloor> - d)\<bar> \<le> DBL_EPSILON then fmt_fixed 0 d
         else if \<bar>d\<bar> < dbl (1 / 10 ^ 6) \<or> 10 ^ 9 < \<bar>d\<bar> then fmt_sci 6 d
         else fmt_fixed 6 d))"

fun escape_char :: "char \<Rightarrow> string" where
  "escape_char c =
     (if 31 < (of_char c :: nat) \<and> c \<noteq> CHR 0x22 \<and> c \<noteq> CHR 0x5C then [c]
      else if c = CHR 0x5C then [CHR 0x5C, CHR 0x5C]
      else if c = CHR 0x22 then [CHR 0x5C, CHR 0x22]
      else if c = CHR 0x08 then [CHR 0x5C, CHR ''b'']
      else if c = CHR 0x0C then [CHR 0x5C, CHR ''f'']
      else if c = CHR 0x0A then [CHR 0x5C, CHR ''n'']
      else if c = CHR 0x0D then [CHR 0x5C, CHR ''r'']
      else if c = CHR 0x09 then [CHR 0x5C, CHR ''t'']
      else [])"

text \<open>The size the first loop counts.\<close>

fun escaped_len :: "string \<Rightarrow> nat" where
  "escaped_len [] = 0"
| "escaped_len (c # s) =
     (if (of_char c :: nat) < 32 \<or> c = CHR 0x22 \<or> c = CHR 0x5C then 2 else 1) + escaped_len s"

definition print_string_ptr :: "string option \<Rightarrow> string result" where
  "print_string_ptr str =
     (case str of
        None \<Rightarrow> Inr ''''
      | Some s \<Rightarrow> into_buffer (escaped_len s + 3) ([CHR 0x22] @ concat (map escape_char s) @ [CHR 0x22]))"

fun join_entries :: "string \<Rightarrow> string list \<Rightarrow> string" where
  "join_entries sep [] = ''''"
| "join_entries sep [e] = e"
| "join_entries sep (e # es) = e @ sep @ join_entries sep es"

definition compose_array :: "bool \<Rightarrow> string list \<Rightarrow> string result" where
  "compose_array fmt entries =
     into_buffer (5 + sum_list (map (\<lambda>e. length e + 2 + (if fmt then 1 else 0)) entries))
       (''['' @ join_entries (if fmt then '', '' else '','') entries @ '']'')"

definition tabs :: "nat \<Rightarrow> string" where
  "tabs n = replicate n (CHR 0x09)"

fun object_lines :: "bool \<Rightarrow> nat \<Rightarrow> (string \<times> string) list \<Rightarrow> string" where
  "object_lines fmt depth [] = ''''"
| "object_lines fmt depth ((n, e) # es) =
     (if fmt then tabs depth else '''') @ n @ '':'' @ (if fmt then tabs 1 else '''') @ e @
     (if es = [] then '''' else '','') @ (if fmt then [CHR 0x0A] else '''') @ object_lines fmt depth es"

definition compose_object :: "bool \<Rightarrow> nat \<Rightarrow> (string \<times> string) list \<Rightarrow> string result" where
  "compose_object fmt depth entries =
     into_buffer (7 + (if fmt then depth else 0) +
         sum_list (map (\<lambda>(n, e). length e + length n + 2 + (if fmt then 2 + depth else 0)) entries))
       (''{'' @ (if fmt then [CHR 0x0A] else '''') @ object_lines fmt depth entries @
        (if fmt then tabs (depth - 1) else '''') @ ''}'')"

text \<open>\<open>None\<close> is a null result: an item of an unknown type. An array stops at the first one.\<close>

fun print_value :: "bool \<Rightarrow> nat \<Rightarrow> cJSON \<Rightarrow> string option result"
  and print_entries :: "bool \<Rightarrow> nat \<Rightarrow> cJSON list \<Rightarrow> string list option result"
  and print_members :: "bool \<Rightarrow> nat \<Rightarrow> cJSON list \<Rightarrow> (string \<times> string) list option result" where
  "print_value fmt depth (CJSON t vs vi vd nm cs) =
     (let k = t mod 256 in
      if k = cJSON_NULL then Inr (Some ''null'')
      else if k = cJSON_False then Inr (Some ''false'')
      else if k = cJSON_True then Inr (Some ''true'')
      else if k = cJSON_Number then mapR Some (print_number (CJSON t vs vi vd nm cs))
      else if k = cJSON_String then mapR Some (print_string_ptr vs)
      else if k = cJSON_Array then
        bindR (print_entries fmt (depth + 1) cs) (\<lambda>es.
          case es of None \<Rightarrow> Inr None | Some es \<Rightarrow> mapR Some (compose_array fmt es))
      else if k = cJSON_Object then
        bindR (print_members fmt (depth + 1) cs) (\<lambda>es.
          case es of None \<Rightarrow> Inr None | Some es \<Rightarrow> mapR Some (compose_object fmt (depth + 1) es))
      else Inr None)"
| "print_entries fmt depth [] = Inr (Some [])"
| "print_entries fmt depth (c # cs) =
     bindR (print_value fmt depth c) (\<lambda>r.
       case r of
         None \<Rightarrow> Inr None
       | Some e \<Rightarrow> mapR (map_option (Cons e)) (print_entries fmt depth cs))"
| "print_members fmt depth [] = Inr (Some [])"
| "print_members fmt depth (c # cs) =
     bindR (print_string_ptr (cj_string c)) (\<lambda>n.
     bindR (print_value fmt depth c) (\<lambda>r.
       mapR (\<lambda>es. case r of None \<Rightarrow> None | Some e \<Rightarrow> map_option (Cons (n, e)) es) (print_members fmt depth cs)))"

definition cJSON_Print :: "cJSON \<Rightarrow> string option result" where
  "cJSON_Print item = print_value True 0 item"

definition cJSON_PrintUnformatted :: "cJSON \<Rightarrow> string option result" where
  "cJSON_PrintUnformatted item = print_value False 0 item"

section \<open>Parsing\<close>

fun skip :: "string \<Rightarrow> string result" where
  "skip [] = Inl Undefined"
| "skip (c # s) = (if (of_char c :: nat) \<le> 32 then skip s else Inr (c # s))"

text \<open>A \<open>char\<close> is signed.\<close>

definition char_int :: "char \<Rightarrow> int" where
  "char_int c = (let n = int (of_char c) in if n < 128 then n else n - 256)"

text \<open>\<open>do n = n * 10.0 + (*num++ - '0'); while (isdigit(*num))\<close>: the first character is taken
  whatever it is. The result has the number of characters taken.\<close>

fun digits_loop :: "double \<Rightarrow> nat \<Rightarrow> string \<Rightarrow> double \<times> nat \<times> string" where
  "digits_loop n k [] = (n, k, [])"
| "digits_loop n k (c # s) =
     (if isdigit c then digits_loop (dbl (dbl (n * 10) + of_int (char_int c - 48))) (Suc k) s
      else (n, k, c # s))"

definition take_digits :: "double \<Rightarrow> string \<Rightarrow> (double \<times> nat \<times> string) result" where
  "take_digits n s =
     (case s of
        [] \<Rightarrow> Inl Undefined
      | c # r \<Rightarrow> Inr (digits_loop (dbl (dbl (n * 10) + of_int (char_int c - 48))) 1 r))"

fun exponent_loop :: "int \<Rightarrow> string \<Rightarrow> (int \<times> string) result" where
  "exponent_loop e [] = Inr (e, [])"
| "exponent_loop e (c # s) =
     (if isdigit c
      then (let e' = e * 10 + (char_int c - 48) in
            if e' \<le> INT_MAX then exponent_loop e' s else Inl Undefined)
      else Inr (e, c # s))"

definition digit_1_9 :: "string \<Rightarrow> bool" where
  "digit_1_9 s = (case s of [] \<Rightarrow> False | d # _ \<Rightarrow> isdigit d \<and> d \<noteq> CHR ''0'')"

definition parse_exponent :: "string \<Rightarrow> (int \<times> int \<times> string) result" where
  "parse_exponent s =
     (if starts (CHR ''e'') s \<or> starts (CHR ''E'') s
      then (let s1 = tl s;
                sgn = (if starts (CHR ''-'') s1 then -1 else 1);
                s2 = (if starts (CHR ''+'') s1 \<or> starts (CHR ''-'') s1 then tl s1 else s1)
            in mapR (\<lambda>(e, s3). (e, sgn, s3)) (exponent_loop 0 s2))
      else Inr (0, 1, s))"

definition parse_number :: "string \<Rightarrow> (cJSON \<times> string) result" where
  "parse_number num =
     (let sgn = (if starts (CHR ''-'') num then -1 else 1);
          s0 = (if starts (CHR ''-'') num then tl num else num);
          s1 = (if starts (CHR ''0'') s0 then tl s0 else s0)
      in bindR (if digit_1_9 s1 then take_digits 0 s1 else Inr (0, 0, s1)) (\<lambda>(n, _, s2).
         bindR (if starts (CHR ''.'') s2 then take_digits n (tl s2) else Inr (n, 0, s2)) (\<lambda>(n, scale, s3).
         bindR (parse_exponent s3) (\<lambda>(subscale, signsubscale, s4).
           let v = dbl (dbl (sgn * n) * dbl (bpow 10 (subscale * signsubscale - int scale)))
           in mapR (\<lambda>i. (CJSON cJSON_Number None i v None [], s4)) (int_of_double v)))))"

text \<open>The first loop of \<open>parse_string\<close> measures the string.\<close>

fun string_len :: "string \<Rightarrow> nat result" where
  "string_len [] = Inr 0"
| "string_len (c # s) =
     (if c = CHR 0x22 \<or> (of_char c :: nat) \<le> 31 then Inr 0
      else if c = CHR 0x5C then (case s of [] \<Rightarrow> Inl Undefined | _ # r \<Rightarrow> mapR Suc (string_len r))
      else mapR Suc (string_len s))"

definition unescape_char :: "char \<Rightarrow> char" where
  "unescape_char c =
     (if c = CHR ''b'' then CHR 0x08 else if c = CHR ''f'' then CHR 0x0C
      else if c = CHR ''n'' then CHR 0x0A else if c = CHR ''r'' then CHR 0x0D
      else if c = CHR ''t'' then CHR 0x09 else c)"

text \<open>\<open>sscanf(s, "%4x", &uc)\<close>: white space, then at most four characters of a sign, a prefix
  \<open>0x\<close> and hexadecimal digits. \<open>None\<close> when it assigns nothing.\<close>

definition scan_4x :: "string \<Rightarrow> 32 word option" where
  "scan_4x s =
     (let s1 = take 4 (dropWhile isspace s);
          neg = starts (CHR ''-'') s1;
          s2 = (if neg \<or> starts (CHR ''+'') s1 then tl s1 else s1);
          pre = take 1 s2 = ''0'' \<and> (starts (CHR ''x'') (tl s2) \<or> starts (CHR ''X'') (tl s2));
          ds = takeWhile isxdigit (if pre then drop 2 s2 else s2);
          v = word_of_nat (hex_digits ds)
      in if ds = '''' then None else Some (if neg then - v else v))"

definition byte_of :: "32 word \<Rightarrow> char" where
  "byte_of w = char_of (unat (w AND 0xFF))"

definition utf8_bytes :: "32 word \<Rightarrow> string" where
  "utf8_bytes uc =
     (if uc < 0x80 then [byte_of uc]
      else if uc < 0x800 then [byte_of (drop_bit 6 uc OR 0xC0), byte_of ((uc OR 0x80) AND 0xBF)]
      else [byte_of (drop_bit 12 uc OR 0xE0), byte_of ((drop_bit 6 uc OR 0x80) AND 0xBF), byte_of ((uc OR 0x80) AND 0xBF)])"

text \<open>The second loop writes the characters and gives the place where it stops.\<close>

fun string_body :: "string \<Rightarrow> (string \<times> string) result" where
  "string_body [] = Inr ('''', '''')"
| "string_body (c # s) =
     (if c = CHR 0x22 \<or> (of_char c :: nat) \<le> 31 then Inr ('''', c # s)
      else if c \<noteq> CHR 0x5C then mapR (apfst (Cons c)) (string_body s)
      else (case s of
              [] \<Rightarrow> Inl Undefined
            | e # r \<Rightarrow>
                if e = CHR ''u'' then
                  (case scan_4x r of
                     None \<Rightarrow> Inl Undefined
                   | Some uc \<Rightarrow>
                       if length r < 4 then Inl Undefined
                       else mapR (apfst (append (utf8_bytes uc))) (string_body (drop 4 r)))
                else mapR (apfst (Cons (unescape_char e))) (string_body r)))"

definition parse_string :: "string \<Rightarrow> (string \<times> string) option result" where
  "parse_string str =
     (if \<not> starts (CHR 0x22) str then Inr None
      else bindR (string_len (tl str)) (\<lambda>len.
           bindR (string_body (tl str)) (\<lambda>(out, ptr).
           bindR (into_buffer (len + 1) out) (\<lambda>_.
             Inr (Some (c_str out, if starts (CHR 0x22) ptr then tl ptr else ptr))))))"

text \<open>\<open>None\<close> is a null result.\<close>

type_synonym 'a parser = "string \<Rightarrow> ('a \<times> string) option result"

definition then_skip :: "('a \<times> string) option \<Rightarrow> ('a \<Rightarrow> string \<Rightarrow> ('b \<times> string) option result) \<Rightarrow> ('b \<times> string) option result" where
  "then_skip r k = (case r of None \<Rightarrow> Inr None | Some (a, v) \<Rightarrow> bindR (skip v) (k a))"

fun parse_value :: "nat \<Rightarrow> cJSON parser"
  and parse_elements :: "nat \<Rightarrow> cJSON list parser"
  and parse_members :: "nat \<Rightarrow> cJSON list parser" where
  "parse_value 0 v = Inl Diverges"
| "parse_value (Suc n) v =
     (if take 4 v = ''null'' then Inr (Some (set_type cJSON_NULL cJSON_New_Item, drop 4 v))
      else if take 5 v = ''false'' then Inr (Some (set_type cJSON_False cJSON_New_Item, drop 5 v))
      else if take 4 v = ''true'' then Inr (Some (CJSON cJSON_True None 1 0 None [], drop 4 v))
      else if starts (CHR 0x22) v then
        mapR (map_option (apfst (\<lambda>s. CJSON cJSON_String (Some s) 0 0 None []))) (parse_string v)
      else if starts (CHR ''-'') v \<or> (v \<noteq> [] \<and> isdigit (hd v)) then mapR Some (parse_number v)
      else if starts (CHR ''['') v then
        bindR (skip (tl v)) (\<lambda>v1.
          if starts (CHR '']'') v1 then Inr (Some (set_type cJSON_Array cJSON_New_Item, tl v1))
          else mapR (map_option (apfst (\<lambda>cs. CJSON cJSON_Array None 0 0 None cs))) (parse_elements n v1))
      else if starts (CHR ''{'') v then
        bindR (skip (tl v)) (\<lambda>v1.
          if starts (CHR ''}'') v1 then Inr (Some (set_type cJSON_Object cJSON_New_Item, tl v1))
          else mapR (map_option (apfst (\<lambda>cs. CJSON cJSON_Object None 0 0 None cs))) (parse_members n v1))
      else Inr None)"
| "parse_elements 0 v = Inl Diverges"
| "parse_elements (Suc n) v =
     bindR (skip v) (\<lambda>v1. bindR (parse_value n v1) (\<lambda>r. then_skip r (\<lambda>c v2.
       if starts (CHR '','') v2 then mapR (map_option (apfst (Cons c))) (parse_elements n (tl v2))
       else if starts (CHR '']'') v2 then Inr (Some ([c], tl v2))
       else Inr None)))"
| "parse_members 0 v = Inl Diverges"
| "parse_members (Suc n) v =
     bindR (skip v) (\<lambda>v0. bindR (parse_string v0) (\<lambda>r0. then_skip r0 (\<lambda>s v1.
       if \<not> starts (CHR '':'') v1 then Inr None
       else bindR (skip (tl v1)) (\<lambda>v2. bindR (parse_value n v2) (\<lambda>r. then_skip r (\<lambda>c0 v3.
         let c = set_name (Some s) c0 in
         if starts (CHR '','') v3 then mapR (map_option (apfst (Cons c))) (parse_members n (tl v3))
         else if starts (CHR ''}'') v3 then Inr (Some ([c], tl v3))
         else Inr None))))))"

definition cJSON_Parse :: "string \<Rightarrow> cJSON option result" where
  "cJSON_Parse value =
     bindR (skip value) (\<lambda>v. mapR (map_option fst) (parse_value (2 * length v + 2) v))"

section \<open>What the printer writes, the parser reads\<close>

text \<open>The value of an item: whole numbers in the range of \<open>int\<close>, and strings without control
  characters other than the five with an escape, which are the ones the printer keeps.\<close>

datatype json = JNull | JFalse | JTrue | JNumber int | JString string | JArray "json list"
  | JObject "(string \<times> json) list"

definition printable :: "string \<Rightarrow> bool" where
  "printable s \<longleftrightarrow> list_all (\<lambda>c. 31 < (of_char c :: nat) \<or> c \<in> set [CHR 0x08, CHR 0x09, CHR 0x0A, CHR 0x0C, CHR 0x0D]) s"

fun json_of :: "cJSON \<Rightarrow> json option"
  and json_list :: "cJSON list \<Rightarrow> json list option"
  and json_members :: "cJSON list \<Rightarrow> (string \<times> json) list option" where
  "json_of (CJSON t vs vi vd nm cs) =
     (if t = cJSON_NULL then Some JNull
      else if t = cJSON_False then Some JFalse
      else if t = cJSON_True then Some JTrue
      else if t = cJSON_Number then (if int32 vi \<and> vd = of_int vi then Some (JNumber vi) else None)
      else if t = cJSON_String then
        (case vs of None \<Rightarrow> None | Some s \<Rightarrow> if printable s then Some (JString s) else None)
      else if t = cJSON_Array then map_option JArray (json_list cs)
      else if t = cJSON_Object then map_option JObject (json_members cs)
      else None)"
| "json_list [] = Some []"
| "json_list (c # cs) =
     (case json_of c of None \<Rightarrow> None | Some j \<Rightarrow> map_option (Cons j) (json_list cs))"
| "json_members [] = Some []"
| "json_members (c # cs) =
     (case cj_string c of
        None \<Rightarrow> None
      | Some s \<Rightarrow> if printable s
          then (case json_of c of None \<Rightarrow> None | Some j \<Rightarrow> map_option (Cons (s, j)) (json_members cs))
          else None)"

subsection \<open>Strings\<close>

lemma printable_simps [simp]:
  "printable []"
  "printable (c # s) \<longleftrightarrow> (31 < (of_char c :: nat) \<or> c \<in> {CHR 0x08, CHR 0x09, CHR 0x0A, CHR 0x0C, CHR 0x0D}) \<and> printable s"
  by (auto simp: printable_def)

lemma printable_char_cases:
  assumes "31 < (of_char c :: nat) \<or> c \<in> {CHR 0x08, CHR 0x09, CHR 0x0A, CHR 0x0C, CHR 0x0D}"
  obtains (plain) "31 < (of_char c :: nat)" "c \<noteq> CHR 0x22" "c \<noteq> CHR 0x5C"
  | (escaped) e where "escape_char c = [CHR 0x5C, e]" "e \<noteq> CHR ''u''" "unescape_char e = c"
proof (cases "31 < (of_char c :: nat) \<and> c \<noteq> CHR 0x22 \<and> c \<noteq> CHR 0x5C")
  case False
  then have "c = CHR 0x22 \<or> c = CHR 0x5C \<or> c = CHR 0x08 \<or> c = CHR 0x09 \<or> c = CHR 0x0A \<or> c = CHR 0x0C \<or> c = CHR 0x0D"
    using assms by blast
  then have "\<exists>e. escape_char c = [CHR 0x5C, e] \<and> e \<noteq> CHR ''u'' \<and> unescape_char e = c"
    by (elim disjE) (simp_all add: unescape_char_def)
  with escaped show thesis by blast
qed (use plain in blast)

declare escape_char.simps [simp del]

lemma escape_char_plain: "31 < (of_char c :: nat) \<Longrightarrow> c \<noteq> CHR 0x22 \<Longrightarrow> c \<noteq> CHR 0x5C \<Longrightarrow> escape_char c = [c]"
  by (simp add: escape_char.simps)

lemma string_loops_escape:
  assumes "31 < (of_char c :: nat) \<or> c \<in> {CHR 0x08, CHR 0x09, CHR 0x0A, CHR 0x0C, CHR 0x0D}"
  shows "string_body (escape_char c @ r) = mapR (apfst (Cons c)) (string_body r)"
    and "string_len (escape_char c @ r) = mapR Suc (string_len r)"
proof -
  have "string_body (escape_char c @ r) = mapR (apfst (Cons c)) (string_body r) \<and>
    string_len (escape_char c @ r) = mapR Suc (string_len r)"
    using assms
  proof (cases rule: printable_char_cases)
    case plain
    then show ?thesis by (simp add: escape_char_plain)
  next
    case (escaped e)
    then show ?thesis by simp
  qed
  then show "string_body (escape_char c @ r) = mapR (apfst (Cons c)) (string_body r)"
    "string_len (escape_char c @ r) = mapR Suc (string_len r)" by simp_all
qed

lemma string_body_escape:
  "printable s \<Longrightarrow> string_body (concat (map escape_char s) @ CHR 0x22 # rest) = Inr (s, CHR 0x22 # rest)"
  by (induction s) (simp_all add: string_loops_escape)

lemma string_len_escape:
  "printable s \<Longrightarrow> string_len (concat (map escape_char s) @ CHR 0x22 # rest) = Inr (length s)"
  by (induction s) (simp_all add: string_loops_escape)

lemma c_str_printable: "printable s \<Longrightarrow> c_str s = s"
proof -
  assume "printable s"
  then have "31 < (of_char c :: nat) \<or> c \<in> set [CHR 0x08, CHR 0x09, CHR 0x0A, CHR 0x0C, CHR 0x0D]" if "c \<in> set s" for c
    using that unfolding printable_def list_all_iff by blast
  from this [of "CHR 0x00"] have "CHR 0x00 \<notin> set s" by auto
  then show ?thesis unfolding c_str_def by (simp add: takeWhile_eq_all_conv) metis
qed

definition quoted_text :: "string \<Rightarrow> string" where
  "quoted_text s = [CHR 0x22] @ concat (map escape_char s) @ [CHR 0x22]"

lemma parse_string_quoted:
  "printable s \<Longrightarrow> parse_string (quoted_text s @ rest) = Inr (Some (s, rest))"
  by (simp add: parse_string_def quoted_text_def string_body_escape string_len_escape into_buffer_def c_str_printable)

lemma escape_fits: "length (concat (map escape_char s)) \<le> escaped_len s"
  by (induction s) (auto simp: escape_char.simps)

lemma print_string_quoted: "print_string_ptr (Some s) = Inr (quoted_text s)"
  using escape_fits [of s] by (simp add: print_string_ptr_def into_buffer_def quoted_text_def)

subsection \<open>Numbers\<close>

definition ends :: "string \<Rightarrow> bool" where
  "ends s \<longleftrightarrow> (case s of [] \<Rightarrow> True | c # _ \<Rightarrow> \<not> isdigit c \<and> c \<notin> {CHR ''.'', CHR ''e'', CHR ''E''})"

lemma ends_simps [simp]:
  "ends []" "ends (c # s) \<longleftrightarrow> \<not> isdigit c \<and> c \<notin> {CHR ''.'', CHR ''e'', CHR ''E''}"
  by (simp_all add: ends_def)

lemma char_int_digit: "isdigit c \<Longrightarrow> char_int c - 48 = int (digit_val c)"
  by (auto simp: char_int_def digit_val_def isdigit_def Let_def)

lemma digits_val_mono: "foldl (\<lambda>acc c. 10 * acc + digit_val c) a s \<ge> a"
proof (induction s arbitrary: a)
  case (Cons c s)
  have "a \<le> 10 * a + digit_val c" by simp
  also have "\<dots> \<le> foldl (\<lambda>acc c. 10 * acc + digit_val c) (10 * a + digit_val c) s" by (rule Cons)
  finally show ?case by simp
qed simp

lemma dbl_of_nat: "m < 2 ^ 53 \<Longrightarrow> dbl (of_nat m) = of_nat m"
proof -
  assume "m < 2 ^ 53"
  then have "dbl (of_int (int m)) = of_int (int m)" by (intro dbl_of_int) simp
  then show ?thesis by simp
qed

lemma digit_step:
  assumes "isdigit c" "10 * a + digit_val c < 2 ^ 53"
  shows "dbl (dbl (of_nat a * 10) + of_int (char_int c - 48)) = of_nat (10 * a + digit_val c)"
proof -
  have "of_nat a * 10 = (of_nat (10 * a) :: rat)" by simp
  then have "dbl (of_nat a * 10) = of_nat (10 * a)" using assms(2) dbl_of_nat [of "10 * a"] by (simp only:)
  moreover have "of_int (char_int c - 48) = (of_nat (digit_val c) :: rat)"
    using char_int_digit [OF assms(1)] by simp
  ultimately have "dbl (of_nat a * 10) + of_int (char_int c - 48) = of_nat (10 * a + digit_val c)" by simp
  then show ?thesis using dbl_of_nat [OF assms(2)] by simp
qed

lemma digits_loop_digits:
  assumes "\<forall>c \<in> set ds. isdigit c" "ends rest"
    "foldl (\<lambda>acc c. 10 * acc + digit_val c) a ds < 2 ^ 53"
  shows "digits_loop (of_nat a) k (ds @ rest) =
     (of_nat (foldl (\<lambda>acc c. 10 * acc + digit_val c) a ds), k + length ds, rest)"
  using assms
proof (induction ds arbitrary: a k)
  case Nil
  then show ?case by (cases rest) auto
next
  case (Cons c ds)
  have "10 * a + digit_val c < 2 ^ 53"
    using Cons.prems(3) digits_val_mono [where s = ds and a = "10 * a + digit_val c"] by simp
  then have "digits_loop (of_nat a) k ((c # ds) @ rest) = digits_loop (of_nat (10 * a + digit_val c)) (Suc k) (ds @ rest)"
    using digit_step [of c a] Cons.prems(1) by (simp del: of_nat_add of_nat_mult)
  also have "\<dots> = (of_nat (foldl (\<lambda>acc c. 10 * acc + digit_val c) (10 * a + digit_val c) ds), Suc k + length ds, rest)"
    using Cons.prems by (intro Cons.IH) simp_all
  finally show ?case by simp
qed

lemma show_nat_nonzero: "0 < n \<Longrightarrow> hd (show_nat n) \<noteq> CHR ''0''"
proof (induction n rule: show_nat.induct)
  case (1 n)
  show ?case
  proof (cases "n < 10")
    case True
    have "digit_val (digit_char n) = n" using True by simp
    with 1(2) have "digit_char n \<noteq> CHR ''0''" by (auto simp: digit_val_def)
    then show ?thesis using True by (subst show_nat.simps) simp
  next
    case False
    then show ?thesis using 1 by (subst show_nat.simps) simp
  qed
qed

lemma take_digits_show_nat:
  assumes "0 < n" "n < 2 ^ 53" "ends rest"
  shows "digit_1_9 (show_nat n @ rest)"
    and "take_digits 0 (show_nat n @ rest) = Inr (of_nat n, length (show_nat n), rest)"
proof -
  obtain c cs where c: "show_nat n = c # cs" "isdigit c" using show_nat_Cons by blast
  have nz: "c \<noteq> CHR ''0''" using show_nat_nonzero [OF assms(1)] c(1) by simp
  show "digit_1_9 (show_nat n @ rest)" using c nz by (simp add: digit_1_9_def)
  have v: "foldl (\<lambda>acc c. 10 * acc + digit_val c) (digit_val c) cs = n"
    using digits_val_show_nat [of n] c(1) by (simp add: digits_val_def)
  have "digit_val c \<le> n" using digits_val_mono [where s = cs and a = "digit_val c"] v by simp
  then have s: "dbl (dbl (0 * 10) + of_int (char_int c - 48)) = of_nat (digit_val c)"
    using digit_step [of c 0] c(2) assms(2) by simp
  have "\<forall>d \<in> set cs. isdigit d" using show_nat_digits [of _ n] c(1) by auto
  from digits_loop_digits [OF this assms(3), of "digit_val c" 1] v assms(2)
  show "take_digits 0 (show_nat n @ rest) = Inr (of_nat n, length (show_nat n), rest)"
    using s c(1) by (simp add: take_digits_def)
qed

lemma ends_parse_exponent: "ends s \<Longrightarrow> parse_exponent s = Inr (0, 1, s)"
  by (cases s) (auto simp: parse_exponent_def)

lemma ends_no_dot: "ends s \<Longrightarrow> \<not> starts (CHR ''.'') s"
  by (cases s) auto

lemma ends_no_digit: "ends s \<Longrightarrow> \<not> digit_1_9 s"
  by (cases s) (auto simp: digit_1_9_def)

lemma dbl_1 [simp]: "dbl 1 = 1"
  using dbl_of_nat [of 1] by simp

lemma parse_number_show_int:
  assumes "int32 i" "ends rest"
  shows "parse_number (show_int i @ rest) = Inr (CJSON cJSON_Number None i (of_int i) None [], rest)"
proof -
  define m where "m = nat \<bar>i\<bar>"
  define neg where "neg \<longleftrightarrow> i < 0"
  have "m < 2147483649" using assms(1) unfolding m_def INT_MIN_def INT_MAX_def by linarith
  then have m: "m < 2 ^ 53" by simp
  have si: "show_int i = (if neg then ''-'' else '''') @ show_nat m" by (simp add: show_int_def m_def neg_def)
  have noneg: "\<not> starts (CHR ''-'') (show_nat m @ r)" for r
    using show_nat_Cons [of m] isdigit_not_sign by fastforce
  let ?sgn = "if neg then - 1 else 1 :: rat"
  have num: "?sgn * of_nat m = of_int i" by (auto simp: m_def neg_def of_nat_nat)
  have v: "dbl (dbl (?sgn * of_nat m) * dbl (bpow 10 0)) = of_int i"
    unfolding num using dbl_int32 [OF assms(1)] by (simp add: bpow_def)
  have body: "bindR (if digit_1_9 s1 then take_digits 0 s1 else Inr (0, 0, s1)) k = k (of_nat m, kk, rest)"
    if "s1 = (if starts (CHR ''0'') (show_nat m @ rest) then tl (show_nat m @ rest) else show_nat m @ rest)"
      "kk = (if m = 0 then 0 else length (show_nat m))" for s1 k kk
  proof (cases "m = 0")
    case True
    then have "show_nat m = ''0''" by (simp only:) code_simp
    with True that ends_no_digit [OF assms(2)] show ?thesis by simp
  next
    case False
    then have "\<not> starts (CHR ''0'') (show_nat m @ rest)"
      using show_nat_nonzero [of m] by (cases "show_nat m") auto
    with False that take_digits_show_nat [of m rest] m assms(2) show ?thesis by simp
  qed
  have s0: "(if starts (CHR ''-'') (show_int i @ rest) then tl (show_int i @ rest) else show_int i @ rest) = show_nat m @ rest"
    using noneg by (simp add: si)
  have sg: "(if starts (CHR ''-'') (show_int i @ rest) then - 1 else 1) = ?sgn"
    using noneg by (simp add: si)
  show ?thesis
    unfolding parse_number_def Let_def s0 sg
    by (subst body [OF refl refl])
      (use v ends_no_dot [OF assms(2)] ends_parse_exponent [OF assms(2)] int_of_double_of_int [OF assms(1)] in simp)
qed

lemma print_number_int:
  assumes "int32 i"
  shows "print_number (CJSON t vs i (of_int i) nm cs) = Inr (show_int i)"
proof -
  have "length (show_int i) + 1 \<le> 21" using length_show_int [OF assms] by simp
  moreover have "0 \<le> DBL_EPSILON" by (simp add: DBL_EPSILON_def bpow_nonneg)
  ultimately show ?thesis using assms by (simp add: print_number_def Let_def into_buffer_def dbl_def)
qed

subsection \<open>Structure\<close>

definition solid :: "string \<Rightarrow> bool" where
  "solid t \<longleftrightarrow> t \<noteq> [] \<and> 32 < (of_char (hd t) :: nat) \<and> hd t \<noteq> CHR '']''"

definition blank :: "string \<Rightarrow> bool" where
  "blank s \<longleftrightarrow> (\<forall>c \<in> set s. (of_char c :: nat) \<le> 32)"

lemma skip_solid: "blank ws \<Longrightarrow> solid t \<Longrightarrow> skip (ws @ t @ rest) = Inr (t @ rest)"
  by (induction ws) (cases t; auto simp: blank_def solid_def)+

lemma skip_char: "blank ws \<Longrightarrow> 32 < (of_char c :: nat) \<Longrightarrow> skip (ws @ c # rest) = Inr (c # rest)"
  by (induction ws) (auto simp: blank_def)

lemma blank_simps [simp]: "blank []" "blank (c # s) \<longleftrightarrow> (of_char c :: nat) \<le> 32 \<and> blank s"
  "blank (s @ t) \<longleftrightarrow> blank s \<and> blank t" "blank (tabs n)"
  by (auto simp: blank_def tabs_def)

lemma blank_ends: "blank ws \<Longrightarrow> ends r \<Longrightarrow> ends (ws @ r)"
  by (cases ws) (auto simp: isdigit_def)

text \<open>The text \<open>t\<close> reads back as the value \<open>j\<close>.\<close>

definition reads :: "string \<Rightarrow> json \<Rightarrow> bool" where
  "reads t j \<longleftrightarrow> solid t \<and>
     (\<forall>rest n. ends rest \<longrightarrow> length t \<le> n \<longrightarrow>
        (\<exists>c. parse_value n (t @ rest) = Inr (Some (c, rest)) \<and> json_of c = Some j))"

lemma readsE:
  assumes "reads t j" "ends rest" "length t \<le> n"
  obtains c where "parse_value n (t @ rest) = Inr (Some (c, rest))" "json_of c = Some j"
  using assms unfolding reads_def by blast

lemma reads_solid: "reads t j \<Longrightarrow> solid t"
  by (simp add: reads_def)

lemma readsI:
  assumes "solid t"
    and "\<And>rest n. ends rest \<Longrightarrow> length t \<le> Suc n \<Longrightarrow>
      \<exists>c. parse_value (Suc n) (t @ rest) = Inr (Some (c, rest)) \<and> json_of c = Some j"
  shows "reads t j"
  unfolding reads_def
proof (intro conjI allI impI)
  fix rest n assume r: "ends rest" "length t \<le> n"
  then have "0 < n" using assms(1) by (cases t) (auto simp: solid_def)
  then show "\<exists>c. parse_value n (t @ rest) = Inr (Some (c, rest)) \<and> json_of c = Some j"
    using assms(2) [OF r(1), of "n - 1"] r(2) by simp
qed (rule assms(1))

lemma json_of_set_name [simp]: "json_of (set_name nm c) = json_of c" "cj_string (set_name nm c) = nm"
  by (cases c; simp)+

lemma then_skip_simps [simp]:
  "then_skip None k = Inr None" "then_skip (Some (a, v)) k = bindR (skip v) (k a)"
  by (simp_all add: then_skip_def)

lemma elements_read:
  assumes "list_all2 reads es js" "es \<noteq> []" "blank ws" "blank sp" "length (join_entries (CHR '','' # sp) es) < n"
  shows "\<exists>cs. parse_elements n (ws @ join_entries (CHR '','' # sp) es @ CHR '']'' # rest) = Inr (Some (cs, rest)) \<and>
    json_list cs = Some js"
  using assms
proof (induction es arbitrary: js ws n)
  case (Cons e es)
  obtain j js' where js: "js = j # js'" "reads e j" "list_all2 reads es js'"
    using Cons.prems(1) by (auto simp: list_all2_Cons1)
  obtain k where n: "n = Suc k" using Cons.prems(5) by (cases n) auto
  show ?case
  proof (cases "es = []")
    case True
    have "ends (CHR '']'' # rest)" by (simp add: isdigit_def)
    moreover have "length e \<le> k" using Cons.prems(5) n True by simp
    ultimately obtain c where c: "parse_value k (e @ CHR '']'' # rest) = Inr (Some (c, CHR '']'' # rest))" "json_of c = Some j"
      by (rule readsE [OF js(2)])
    then show ?thesis
      using True js n Cons.prems(3) skip_solid [OF Cons.prems(3) reads_solid [OF js(2)]] by simp
  next
    case False
    then obtain e2 es2 where es: "es = e2 # es2" by (cases es) auto
    let ?r = "sp @ join_entries (CHR '','' # sp) es @ CHR '']'' # rest"
    have j: "join_entries (CHR '','' # sp) (e # es) = e @ CHR '','' # sp @ join_entries (CHR '','' # sp) es" by (simp add: es)
    have "ends (CHR '','' # ?r)" by (simp add: isdigit_def)
    moreover have "length e \<le> k" using Cons.prems(5) n j by simp
    ultimately obtain c where c: "parse_value k (e @ CHR '','' # ?r) = Inr (Some (c, CHR '','' # ?r))" "json_of c = Some j"
      by (rule readsE [OF js(2)])
    have "length (join_entries (CHR '','' # sp) es) < k" using Cons.prems(5) n j by simp
    from Cons.IH [OF js(3) False Cons.prems(4,4) this] obtain cs where
      cs: "parse_elements k ?r = Inr (Some (cs, rest))" "json_list cs = Some js'" by blast
    show ?thesis
      using c cs js n skip_solid [OF Cons.prems(3) reads_solid [OF js(2)]] j by simp
  qed
qed simp

definition member_reads :: "string \<times> string \<Rightarrow> string \<times> json \<Rightarrow> bool" where
  "member_reads ne sj \<longleftrightarrow> fst ne = quoted_text (fst sj) \<and> printable (fst sj) \<and> reads (snd ne) (snd sj)"

lemma solid_quoted: "solid (quoted_text s)"
  by (simp add: solid_def quoted_text_def)

text \<open>One member up to the end of its value.\<close>

lemma member_step:
  assumes "printable s" "reads e j" "blank ws" "blank w1" "blank w2" "ends r" "length e \<le> k"
    "skip r = Inr (d # r')"
  obtains c where "json_of c = Some j" "cj_string c = Some s"
    "parse_members (Suc k) (ws @ quoted_text s @ CHR '':'' # w1 @ e @ r) =
      (if d = CHR '','' then mapR (map_option (apfst (Cons c))) (parse_members k r')
       else if d = CHR ''}'' then Inr (Some ([c], r')) else Inr None)"
proof -
  obtain c0 where c0: "parse_value k (e @ r) = Inr (Some (c0, r))" "json_of c0 = Some j"
    using assms(2,6,7) by (rule readsE)
  show thesis
  proof (rule that [of "set_name (Some s) c0"])
    show "parse_members (Suc k) (ws @ quoted_text s @ CHR '':'' # w1 @ e @ r) =
      (if d = CHR '','' then mapR (map_option (apfst (Cons (set_name (Some s) c0)))) (parse_members k r')
       else if d = CHR ''}'' then Inr (Some ([set_name (Some s) c0], r')) else Inr None)"
      using skip_solid [OF assms(3) solid_quoted] parse_string_quoted [OF assms(1)] c0(1) assms(8)
        skip_solid [OF assms(4) reads_solid [OF assms(2)]]
      by (simp add: Let_def)
  qed (use c0(2) in simp_all)
qed

lemma members_read:
  assumes "list_all2 member_reads es ms" "es \<noteq> []" "blank ws" "blank we" "length (object_lines fmt depth es) < n"
  shows "\<exists>cs. parse_members n (ws @ object_lines fmt depth es @ we @ CHR ''}'' # rest) = Inr (Some (cs, rest)) \<and>
    json_members cs = Some ms"
  using assms
proof (induction es arbitrary: ms ws n)
  case (Cons ne es)
  obtain nm e where ne: "ne = (nm, e)" by (cases ne)
  obtain s j ms' where ms: "ms = (s, j) # ms'" "nm = quoted_text s" "printable s" "reads e j" "list_all2 member_reads es ms'"
  proof -
    obtain m ms' where m: "ms = m # ms'" "member_reads ne m" "list_all2 member_reads es ms'"
      using Cons.prems(1) by (auto simp: list_all2_Cons1)
    obtain s j where "m = (s, j)" by (cases m)
    with m ne show thesis by (intro that [of s j ms']) (simp_all add: member_reads_def)
  qed
  obtain k where n: "n = Suc k" using Cons.prems(5) by (cases n) auto
  let ?t = "if fmt then tabs depth else ''''" and ?t1 = "if fmt then tabs 1 else ''''" and ?nl = "if fmt then [CHR 0x0A] else ''''"
  have b: "blank (ws @ ?t)" "blank ?t1" "blank ?nl" using Cons.prems(3) by auto
  let ?r = "(if es = [] then '''' else '','') @ ?nl @ object_lines fmt depth es @ we @ CHR ''}'' # rest"
  have tx: "ws @ object_lines fmt depth (ne # es) @ we @ CHR ''}'' # rest =
    (ws @ ?t) @ quoted_text s @ CHR '':'' # ?t1 @ e @ ?r" by (simp add: ne ms(2))
  have le: "length e \<le> k" using Cons.prems(5) n ne by simp
  show ?case
  proof (cases "es = []")
    case True
    then have r: "?r = (?nl @ we) @ CHR ''}'' # rest" by simp
    have bl: "blank (?nl @ we)" using b Cons.prems(4) by simp
    have e: "ends ?r" unfolding r by (rule blank_ends [OF bl]) (simp add: isdigit_def)
    have sk: "skip ?r = Inr (CHR ''}'' # rest)" unfolding r by (rule skip_char [OF bl]) simp
    obtain c where "json_of c = Some j" "cj_string c = Some s"
      "parse_members (Suc k) ((ws @ ?t) @ quoted_text s @ CHR '':'' # ?t1 @ e @ ?r) = Inr (Some ([c], rest))"
      by (rule member_step [OF ms(3,4) b e le sk]) simp
    then show ?thesis unfolding tx n using ms True by simp
  next
    case False
    then have r: "?r = CHR '','' # ?nl @ object_lines fmt depth es @ we @ CHR ''}'' # rest" by simp
    have e: "ends ?r" unfolding r by (simp add: isdigit_def)
    have sk: "skip ?r = Inr (CHR '','' # ?nl @ object_lines fmt depth es @ we @ CHR ''}'' # rest)" unfolding r by simp
    obtain c where c: "json_of c = Some j" "cj_string c = Some s"
      "parse_members (Suc k) ((ws @ ?t) @ quoted_text s @ CHR '':'' # ?t1 @ e @ ?r) =
         mapR (map_option (apfst (Cons c))) (parse_members k (?nl @ object_lines fmt depth es @ we @ CHR ''}'' # rest))"
      by (rule member_step [OF ms(3,4) b e le sk]) simp
    have "length (object_lines fmt depth es) < k" using Cons.prems(5) n ne ms(2) by (simp add: quoted_text_def)
    from Cons.IH [OF ms(5) False b(3) Cons.prems(4) this] obtain cs where
      cs: "parse_members k (?nl @ object_lines fmt depth es @ we @ CHR ''}'' # rest) = Inr (Some (cs, rest))"
        "json_members cs = Some ms'" by blast
    then show ?thesis unfolding tx n c(3) using c(1,2) ms by simp
  qed
qed simp

subsection \<open>The buffers of the printer\<close>

lemma length_join_entries:
  "length (join_entries sep es) + (if es = [] then 0 else length sep) = sum_list (map (\<lambda>e. length e + length sep) es)"
  by (induction sep es rule: join_entries.induct) auto

lemma compose_array_fits:
  "compose_array fmt es = Inr (''['' @ join_entries (if fmt then '', '' else '','') es @ '']'')"
proof -
  let ?sep = "if fmt then '', '' else '',''"
  have "length (join_entries ?sep es) \<le> sum_list (map (\<lambda>e. length e + length ?sep) es)"
    using length_join_entries [of ?sep es] by linarith
  also have "\<dots> \<le> sum_list (map (\<lambda>e. length e + 2 + (if fmt then 1 else 0)) es)"
    by (rule sum_list_mono) auto
  finally show ?thesis by (simp add: compose_array_def into_buffer_def)
qed

lemma length_object_lines:
  "length (object_lines fmt depth es) + (if es = [] then 0 else 1) =
     sum_list (map (\<lambda>(n, e). length e + length n + 2 + (if fmt then 2 + depth else 0)) es)"
  by (induction fmt depth es rule: object_lines.induct) (auto simp: tabs_def)

lemma compose_object_fits:
  "compose_object fmt depth es =
     Inr (''{'' @ (if fmt then [CHR 0x0A] else '''') @ object_lines fmt depth es @
        (if fmt then tabs (depth - 1) else '''') @ ''}'')"
proof -
  have "length (object_lines fmt depth es) \<le>
      sum_list (map (\<lambda>(n, e). length e + length n + 2 + (if fmt then 2 + depth else 0)) es)"
    using length_object_lines [of fmt depth es] by linarith
  then show ?thesis by (cases fmt) (simp_all add: compose_object_def into_buffer_def tabs_def)
qed

lemma print_string_fits: "\<exists>t. print_string_ptr s = Inr t"
  by (cases s) (simp_all add: print_string_quoted, simp add: print_string_ptr_def)

subsection \<open>Printed items\<close>

lemma reads_literals:
  "reads ''null'' JNull" "reads ''false'' JFalse" "reads ''true'' JTrue"
  by (rule readsI; simp add: solid_def cJSON_New_Item_def)+

lemma reads_string: "printable s \<Longrightarrow> reads (quoted_text s) (JString s)"
proof (rule readsI [OF solid_quoted])
  fix rest n assume p: "printable s"
  have "\<exists>q. quoted_text s @ rest = CHR 0x22 # q" by (simp add: quoted_text_def)
  then obtain q where q: "quoted_text s @ rest = CHR 0x22 # q" ..
  show "\<exists>c. parse_value (Suc n) (quoted_text s @ rest) = Inr (Some (c, rest)) \<and> json_of c = Some (JString s)"
    using parse_string_quoted [OF p, of rest] p unfolding q by simp
qed

lemma show_int_first: "\<exists>c s. show_int i = c # s \<and> (c = CHR ''-'' \<or> isdigit c)"
  using show_nat_Cons [of "nat i"] by (auto simp: show_int_def)

lemma reads_number:
  assumes "int32 i"
  shows "reads (show_int i) (JNumber i)"
proof -
  obtain c s where c: "show_int i = c # s" "c = CHR ''-'' \<or> isdigit c" using show_int_first by blast
  have lit: "c \<noteq> CHR ''n'' \<and> c \<noteq> CHR ''f'' \<and> c \<noteq> CHR ''t'' \<and> c \<noteq> CHR 0x22" and "32 < (of_char c :: nat)" "c \<noteq> CHR '']''"
    using c(2) by (auto simp: isdigit_def)
  then have s: "solid (show_int i)" using c(1) by (simp add: solid_def)
  show ?thesis
  proof (rule readsI [OF s])
    fix rest n assume "ends rest"
    from parse_number_show_int [OF assms this] c lit assms
    show "\<exists>ca. parse_value (Suc n) (show_int i @ rest) = Inr (Some (ca, rest)) \<and> json_of ca = Some (JNumber i)" by auto
  qed
qed

lemma hd_join_solid: "list_all2 reads es js \<Longrightarrow> es \<noteq> [] \<Longrightarrow> solid (join_entries sep es)"
  by (cases es; cases "tl es") (auto simp: list_all2_Cons1 solid_def dest!: reads_solid)

lemma reads_array:
  assumes "list_all2 reads es js"
  shows "reads (''['' @ join_entries (if fmt then '', '' else '','') es @ '']'') (JArray js)"
proof (rule readsI)
  fix rest n
  let ?sp = "if fmt then '' '' else ''''"
  have sep: "(if fmt then '', '' else '','') = CHR '','' # ?sp" and sp: "blank ?sp" by simp_all
  let ?t = "join_entries (CHR '','' # ?sp) es"
  assume "length (''['' @ join_entries (if fmt then '', '' else '','') es @ '']'') \<le> Suc n"
  then have len: "length ?t < n" unfolding sep by simp
  show "\<exists>c. parse_value (Suc n) ((''['' @ join_entries (if fmt then '', '' else '','') es @ '']'') @ rest) = Inr (Some (c, rest)) \<and>
    json_of c = Some (JArray js)"
  proof (cases "es = []")
    case True
    then show ?thesis using assms by (simp add: cJSON_New_Item_def isdigit_def)
  next
    case False
    have solid: "solid ?t" by (rule hd_join_solid [OF assms False])
    have sk: "skip (?t @ CHR '']'' # rest) = Inr (?t @ CHR '']'' # rest)"
      using skip_solid [of "[]", OF _ solid] by simp
    obtain cs where cs: "parse_elements n (?t @ CHR '']'' # rest) = Inr (Some (cs, rest))" "json_list cs = Some js"
      using elements_read [OF assms False blank_simps(1) sp len, of rest] by auto
    have "\<not> starts (CHR '']'') (?t @ CHR '']'' # rest)" using solid by (cases ?t) (auto simp: solid_def)
    then show ?thesis unfolding sep using cs sk by (simp add: isdigit_def)
  qed
qed (simp add: solid_def)

lemma members_blank: "blank ws \<Longrightarrow> parse_members n (ws @ v) = parse_members n v"
proof (cases n)
  case (Suc k)
  assume "blank ws"
  then have "skip (ws @ v) = skip v" by (induction ws) auto
  then show ?thesis using Suc by simp
qed simp

lemma reads_object:
  assumes "list_all2 member_reads es ms"
  shows "reads (''{'' @ (if fmt then [CHR 0x0A] else '''') @ object_lines fmt depth es @
    (if fmt then tabs (depth - 1) else '''') @ ''}'') (JObject ms)" (is "reads ?text _")
proof (rule readsI)
  fix rest n
  let ?nl = "if fmt then [CHR 0x0A] else ''''" and ?we = "if fmt then tabs (depth - 1) else ''''"
  have b: "blank ?nl" "blank ?we" by simp_all
  assume "length ?text \<le> Suc n"
  then have len: "length (object_lines fmt depth es) < n" by simp
  show "\<exists>c. parse_value (Suc n) (?text @ rest) = Inr (Some (c, rest)) \<and> json_of c = Some (JObject ms)"
  proof (cases "es = []")
    case True
    then have "skip (?nl @ object_lines fmt depth es @ ?we @ CHR ''}'' # rest) = Inr (CHR ''}'' # rest)"
      using skip_char [of "?nl @ ?we" "CHR ''}''" rest] by simp
    then show ?thesis using assms True by (simp add: cJSON_New_Item_def isdigit_def)
  next
    case False
    then obtain nm e es' where es: "es = (nm, e) # es'" by (cases es) auto
    obtain s where s: "nm = quoted_text s" using assms es by (auto simp: list_all2_Cons1 member_reads_def)
    let ?t = "if fmt then tabs depth else ''''"
    obtain q where q: "object_lines fmt depth es @ ?we @ CHR ''}'' # rest = ?t @ quoted_text s @ q"
      by (simp add: es s)
    have sk: "skip (?nl @ object_lines fmt depth es @ ?we @ CHR ''}'' # rest) = Inr (quoted_text s @ q)"
      unfolding q using skip_solid [of "?nl @ ?t" "quoted_text s" q] solid_quoted by simp
    have nb: "\<not> starts (CHR ''}'') (quoted_text s @ q)" by (simp add: quoted_text_def)
    obtain cs where cs: "parse_members n (object_lines fmt depth es @ ?we @ CHR ''}'' # rest) = Inr (Some (cs, rest))"
        "json_members cs = Some ms"
      using members_read [OF assms False blank_simps(1) b(2) len, of rest] by auto
    have "parse_members n (quoted_text s @ q) = Inr (Some (cs, rest))"
      using cs(1) members_blank [of ?t n "quoted_text s @ q"] unfolding q by simp
    then show ?thesis using sk nb cs(2) by (simp add: isdigit_def)
  qed
qed (simp add: solid_def)

lemma print_reads:
  "json_of c = Some j \<Longrightarrow> \<exists>t. print_value fmt depth c = Inr (Some t) \<and> reads t j"
  "json_list cs = Some js \<Longrightarrow> \<exists>es. print_entries fmt depth cs = Inr (Some es) \<and> list_all2 reads es js"
  "json_members cs = Some ms \<Longrightarrow> \<exists>es. print_members fmt depth cs = Inr (Some es) \<and> list_all2 member_reads es ms"
proof (induction c and cs and cs arbitrary: j fmt depth and js fmt depth and ms fmt depth
    rule: json_of_json_list_json_members.induct)
  case (1 t vs vi vd nm cs)
  let ?c = "CJSON t vs vi vd nm cs"
  consider "t = 2" | "t = 0" | "t = 1" | "t = 3" | "t = 4" | "t = 5" | "t = 6"
    using "1.prems" by (auto split: if_splits)
  then show ?case
  proof cases
    case 4
    then have "int32 vi" "vd = of_int vi" "j = JNumber vi" using "1.prems" by (auto split: if_splits)
    then show ?thesis using 4 print_number_int reads_number by simp
  next
    case 5
    then obtain s where "vs = Some s" "printable s" "j = JString s" using "1.prems" by (auto split: option.splits if_splits)
    then show ?thesis using 5 print_string_quoted reads_string by simp
  next
    case 6
    then obtain js where js: "json_list cs = Some js" "j = JArray js" using "1.prems" by auto
    obtain es where es: "print_entries fmt (depth + 1) cs = Inr (Some es)" "list_all2 reads es js"
      using "1.IH"(1) [OF _ _ _ _ _ _ js(1)] 6 by fastforce
    then show ?thesis using 6 js reads_array [OF es(2), of fmt] by (simp add: compose_array_fits)
  next
    case 7
    then obtain ms where ms: "json_members cs = Some ms" "j = JObject ms" using "1.prems" by auto
    obtain es where es: "print_members fmt (depth + 1) cs = Inr (Some es)" "list_all2 member_reads es ms"
      using "1.IH"(2) [OF _ _ _ _ _ _ _ ms(1)] 7 by fastforce
    then show ?thesis using 7 ms reads_object [OF es(2), of fmt "depth + 1"] by (cases fmt) (simp_all add: compose_object_fits)
  qed (use "1.prems" reads_literals in simp_all)
next
  case 2
  then show ?case by simp
next
  case (3 c cs)
  then obtain j js' where j: "json_of c = Some j" "json_list cs = Some js'" "js = j # js'"
    by (auto split: option.splits)
  obtain e where e: "print_value fmt depth c = Inr (Some e)" "reads e j" using "3.IH"(1) [OF j(1)] by blast
  obtain es where es: "print_entries fmt depth cs = Inr (Some es)" "list_all2 reads es js'"
    using "3.IH"(2) [OF j(1,2)] by blast
  show ?case using j e es by simp
next
  case 4
  then show ?case by simp
next
  case (5 c cs)
  then obtain s j ms' where j: "cj_string c = Some s" "printable s" "json_of c = Some j" "json_members cs = Some ms'"
    "ms = (s, j) # ms'" by (auto split: option.splits if_splits)
  obtain e where e: "print_value fmt depth c = Inr (Some e)" "reads e j" using "5.IH"(1) [OF j(1,2,3)] by blast
  obtain es where es: "print_members fmt depth cs = Inr (Some es)" "list_all2 member_reads es ms'"
    using "5.IH"(2) [OF j(1,2,3,4)] by blast
  have "member_reads (quoted_text s, e) (s, j)" using j e by (simp add: member_reads_def)
  then show ?case using j e es by (simp add: print_string_quoted)
qed

subsection \<open>The bound of the parser\<close>

lemma skip_length: "skip v = Inr v' \<Longrightarrow> v' \<noteq> [] \<and> length v' \<le> length v"
  by (induction v) (auto split: if_splits)

lemma string_body_length: "string_body v = Inr (out, r) \<Longrightarrow> length r \<le> length v"
proof (induction v arbitrary: out r rule: string_body.induct)
  case (2 c s)
  then show ?case
    by (fastforce split: if_splits list.splits option.splits simp: result_simps)
qed simp

lemma parse_string_length:
  assumes "parse_string v = Inr (Some (s, r))"
  shows "length r < length v"
proof -
  obtain q where v: "v = CHR 0x22 # q" using assms by (cases v) (auto simp: parse_string_def starts_def split: if_splits)
  obtain len out p where b: "string_body q = Inr (out, p)" "r = (if starts (CHR 0x22) p then tl p else p)"
    using assms v by (auto simp: parse_string_def result_simps)
  have "length r \<le> length p" using b(2) by simp
  also have "\<dots> \<le> length q" using string_body_length [OF b(1)] .
  finally show ?thesis using v by simp
qed

lemma digits_loop_length: "digits_loop n k s = (a, b, r) \<Longrightarrow> length r \<le> length s"
  by (induction n k s rule: digits_loop.induct) (auto split: if_splits)

lemma exponent_loop_length: "exponent_loop e s = Inr (x, r) \<Longrightarrow> length r \<le> length s"
  by (induction e s rule: exponent_loop.induct) (auto split: if_splits simp: Let_def)

lemma parse_exponent_length: "parse_exponent s = Inr (e, g, r) \<Longrightarrow> length r \<le> length s"
  by (auto simp: parse_exponent_def Let_def result_simps split: if_splits dest!: exponent_loop_length)

lemma take_digits_length: "take_digits n s = Inr (a, b, r) \<Longrightarrow> length r < length s"
  by (auto simp: take_digits_def split: list.splits dest!: digits_loop_length)

lemma bindR_diverges: "bindR r f = Inl Diverges \<longleftrightarrow> r = Inl Diverges \<or> (\<exists>a. r = Inr a \<and> f a = Inl Diverges)"
  by (cases r) auto

lemma mapR_diverges: "mapR f r = Inl Diverges \<longleftrightarrow> r = Inl Diverges"
  by (cases r) auto

lemma not_diverges_simps [simp]:
  "into_buffer n t \<noteq> Inl Diverges" "skip v \<noteq> Inl Diverges" "int_of_double d \<noteq> Inl Diverges"
  "take_digits x s \<noteq> Inl Diverges" "exponent_loop e s \<noteq> Inl Diverges"
  "string_len s \<noteq> Inl Diverges" "string_body s \<noteq> Inl Diverges"
proof -
  show "into_buffer n t \<noteq> Inl Diverges" by (simp add: into_buffer_def)
  show "skip v \<noteq> Inl Diverges" by (induction v) auto
  show "int_of_double d \<noteq> Inl Diverges" by (simp add: int_of_double_def Let_def)
  show "take_digits x s \<noteq> Inl Diverges" by (simp add: take_digits_def split: list.splits)
  show "exponent_loop e s \<noteq> Inl Diverges" by (induction e s rule: exponent_loop.induct) (auto simp: Let_def)
  show "string_len s \<noteq> Inl Diverges"
  proof (induction s rule: string_len.induct)
    case (2 c s)
    show ?case
    proof (cases "c = CHR 0x22 \<or> (of_char c :: nat) \<le> 31 \<or> c \<noteq> CHR 0x5C")
      case True
      then show ?thesis using 2(2) by (cases "c = CHR 0x22 \<or> (of_char c :: nat) \<le> 31") (simp_all add: mapR_diverges)
    next
      case False
      then show ?thesis using 2(1) by (cases s) (simp_all add: mapR_diverges)
    qed
  qed simp
  show "string_body s \<noteq> Inl Diverges"
  proof (induction s rule: string_body.induct)
    case (2 c s)
    show ?case
    proof (cases s)
      case (Cons e r)
      show ?thesis
      proof (cases "c = CHR 0x22 \<or> (of_char c :: nat) \<le> 31 \<or> c \<noteq> CHR 0x5C")
        case True
        then show ?thesis using 2(1) by (cases "c = CHR 0x22 \<or> (of_char c :: nat) \<le> 31") (simp_all add: mapR_diverges)
      next
        case False
        then show ?thesis using 2(2,3) Cons by (simp add: mapR_diverges split: option.split)
      qed
    qed (simp add: mapR_diverges)
  qed simp
qed

lemma parse_string_not_diverges: "parse_string s \<noteq> Inl Diverges"
  by (auto simp: parse_string_def bindR_diverges)

lemma parse_number_not_diverges: "parse_number s \<noteq> Inl Diverges"
proof -
  have e: "parse_exponent r \<noteq> Inl Diverges" for r
    by (simp add: parse_exponent_def Let_def mapR_diverges)
  have "(if b then take_digits x r else Inr y) \<noteq> Inl Diverges" for b x r y by simp
  then show ?thesis
    unfolding parse_number_def Let_def bindR_diverges using e by (simp add: bindR_diverges mapR_diverges split: prod.split)
qed

lemma parse_number_length:
  assumes "parse_number v = Inr (c, r)" "v \<noteq> []" "starts (CHR ''-'') v \<or> isdigit (hd v)"
  shows "length r < length v"
proof -
  define s0 where "s0 = (if starts (CHR ''-'') v then tl v else v)"
  define s1 where "s1 = (if starts (CHR ''0'') s0 then tl s0 else s0)"
  obtain n k s2 n' k' s3 e g where p:
    "(if digit_1_9 s1 then take_digits 0 s1 else Inr (0, 0, s1)) = Inr (n, k, s2)"
    "(if starts (CHR ''.'') s2 then take_digits n (tl s2) else Inr (n, 0, s2)) = Inr (n', k', s3)"
    "parse_exponent s3 = Inr (e, g, r)"
    using assms(1) unfolding parse_number_def Let_def s1_def [unfolded s0_def, symmetric]
    by (auto simp: result_simps)
  have "length r \<le> length s3" using parse_exponent_length [OF p(3)] .
  also have "\<dots> \<le> length s2" using p(2) take_digits_length by (fastforce split: if_splits)
  also have "\<dots> \<le> length s1" using p(1) take_digits_length by (fastforce split: if_splits)
  finally have r: "length r \<le> length s1" .
  show ?thesis
  proof (cases "starts (CHR ''-'') v \<or> starts (CHR ''0'') v")
    case True
    then have "length s1 < length v" using assms(2) by (cases v) (auto simp: s1_def s0_def)
    with r show ?thesis by simp
  next
    case False
    then have s: "s1 = v" "digit_1_9 v" using assms(2,3) by (cases v; auto simp: s1_def s0_def digit_1_9_def)+
    then have "length s2 < length v" using p(1) take_digits_length by fastforce
    moreover have "length r \<le> length s2" using \<open>length r \<le> length s3\<close> \<open>length s3 \<le> length s2\<close> by simp
    ultimately show ?thesis by simp
  qed
qed

lemma mapped:
  "mapR (map_option (apfst f)) p = Inr (Some (a, r)) \<longleftrightarrow> (\<exists>b. p = Inr (Some (b, r)) \<and> a = f b)"
  "mapR Some q = Inr (Some x) \<longleftrightarrow> q = Inr x"
  by (cases p; auto simp: map_option_case split: option.splits) (cases q; simp)

text \<open>Each parser takes at least one character.\<close>

lemma parse_elements_SucD:
  assumes "parse_elements (Suc n) v = Inr (Some (cs, r))"
  obtains v1 c v2 v3 where "skip v = Inr v1" "parse_value n v1 = Inr (Some (c, v2))" "skip v2 = Inr v3"
    "r = tl v3 \<or> (\<exists>cs'. parse_elements n (tl v3) = Inr (Some (cs', r)))"
proof -
  obtain v1 x where x: "skip v = Inr v1" "parse_value n v1 = Inr x"
    "then_skip x (\<lambda>c v2.
       if starts (CHR '','') v2 then mapR (map_option (apfst (Cons c))) (parse_elements n (tl v2))
       else if starts (CHR '']'') v2 then Inr (Some ([c], tl v2))
       else Inr None) = Inr (Some (cs, r))"
    using assms by (auto simp: result_simps)
  then obtain c v2 where c: "x = Some (c, v2)" by (cases x) auto
  from x(3) c obtain v3 where "skip v2 = Inr v3"
    "r = tl v3 \<or> (\<exists>cs'. parse_elements n (tl v3) = Inr (Some (cs', r)))"
    by (auto simp: bindR_eq_Inr mapped split: if_splits)
  with x c show thesis by (intro that) auto
qed

lemma parse_members_SucD:
  assumes "parse_members (Suc n) v = Inr (Some (cs, r))"
  obtains v0 s w v1 v2 c w2 v3 where "skip v = Inr v0" "parse_string v0 = Inr (Some (s, w))" "skip w = Inr v1"
    "skip (tl v1) = Inr v2" "parse_value n v2 = Inr (Some (c, w2))" "skip w2 = Inr v3"
    "r = tl v3 \<or> (\<exists>cs'. parse_members n (tl v3) = Inr (Some (cs', r)))"
proof -
  let ?fin = "\<lambda>s c0 v3. let c = set_name (Some s) c0 in
         if starts (CHR '','') v3 then mapR (map_option (apfst (Cons c))) (parse_members n (tl v3))
         else if starts (CHR ''}'') v3 then Inr (Some ([c], tl v3))
         else Inr None"
  obtain v0 x where x: "skip v = Inr v0" "parse_string v0 = Inr x"
    "then_skip x (\<lambda>s v1. if \<not> starts (CHR '':'') v1 then Inr None
       else bindR (skip (tl v1)) (\<lambda>v2. bindR (parse_value n v2) (\<lambda>r. then_skip r (?fin s)))) = Inr (Some (cs, r))"
    using assms by (auto simp: result_simps)
  then obtain s w where s: "x = Some (s, w)" by (cases x) auto
  from x(3) s obtain v1 v2 y where y: "skip w = Inr v1" "skip (tl v1) = Inr v2" "parse_value n v2 = Inr y"
    "then_skip y (?fin s) = Inr (Some (cs, r))"
    by (auto simp: result_simps split: if_splits)
  then obtain c w2 where c: "y = Some (c, w2)" by (cases y) auto
  from y(4) c obtain v3 where "skip w2 = Inr v3"
    "r = tl v3 \<or> (\<exists>cs'. parse_members n (tl v3) = Inr (Some (cs', r)))"
    by (auto simp: bindR_eq_Inr mapped Let_def split: if_splits)
  with x s y c show thesis by (intro that) auto
qed

lemma parse_value_SucD:
  assumes "parse_value (Suc n) v = Inr (Some (c, r))"
  shows "length r < length v \<or> (\<exists>v1. skip (tl v) = Inr v1 \<and> v \<noteq> [] \<and>
    ((\<exists>cs. parse_elements n v1 = Inr (Some (cs, r))) \<or> (\<exists>cs. parse_members n v1 = Inr (Some (cs, r)))))"
proof -
  have lit: "length (drop k v) < length v" if "take k v = t" "t \<noteq> []" "0 < k" for k t
    using that by (cases v) auto
  have num: "length r < length v" if "parse_number v = Inr (c, r)" "starts (CHR ''-'') v \<or> v \<noteq> [] \<and> isdigit (hd v)"
    using parse_number_length [OF that(1)] that(2) by (cases v) auto
  have tl1: "length (tl v1) < length v" if "skip (tl v) = Inr v1" "v \<noteq> []" for v1
    using skip_length [OF that(1)] that(2) by (cases v; cases v1) auto
  have v: "starts d v \<Longrightarrow> v \<noteq> []" for d by auto
  show ?thesis
    using assms lit [of 4] lit [of 5] num tl1 parse_string_length v
    by (auto simp: bindR_eq_Inr mapped split: if_splits)
qed

lemma parse_length:
  "(\<forall>v c r. parse_value n v = Inr (Some (c, r)) \<longrightarrow> length r < length v) \<and>
   (\<forall>v cs r. parse_elements n v = Inr (Some (cs, r)) \<longrightarrow> length r < length v) \<and>
   (\<forall>v cs r. parse_members n v = Inr (Some (cs, r)) \<longrightarrow> length r < length v)"
proof (induction n)
  case (Suc n)
  have v: "length r < length v" if q: "parse_value (Suc n) v = Inr (Some (c, r))" for v c r
    using parse_value_SucD [OF q]
  proof (elim disjE exE conjE)
    fix v1 cs assume "skip (tl v) = Inr v1" "v \<noteq> []" "parse_elements n v1 = Inr (Some (cs, r))"
    with Suc.IH skip_length [of "tl v" v1] show ?thesis by fastforce
  next
    fix v1 cs assume "skip (tl v) = Inr v1" "v \<noteq> []" "parse_members n v1 = Inr (Some (cs, r))"
    with Suc.IH skip_length [of "tl v" v1] show ?thesis by fastforce
  qed
  have e: "length r < length v" if q: "parse_elements (Suc n) v = Inr (Some (cs, r))" for v cs r
  proof -
    obtain v1 c v2 v3 where p: "skip v = Inr v1" "parse_value n v1 = Inr (Some (c, v2))" "skip v2 = Inr v3"
      "r = tl v3 \<or> (\<exists>cs'. parse_elements n (tl v3) = Inr (Some (cs', r)))" by (rule parse_elements_SucD [OF q])
    have "length r \<le> length (tl v3)" using p(4) Suc.IH by fastforce
    moreover have "length v2 < length v1" using p(2) Suc.IH by blast
    ultimately show ?thesis using skip_length [OF p(1)] skip_length [OF p(3)] by (cases v3) simp_all
  qed
  have m: "length r < length v" if q: "parse_members (Suc n) v = Inr (Some (cs, r))" for v cs r
  proof -
    obtain v0 s w v1 v2 c w2 v3 where p: "skip v = Inr v0" "parse_string v0 = Inr (Some (s, w))" "skip w = Inr v1"
      "skip (tl v1) = Inr v2" "parse_value n v2 = Inr (Some (c, w2))" "skip w2 = Inr v3"
      "r = tl v3 \<or> (\<exists>cs'. parse_members n (tl v3) = Inr (Some (cs', r)))" by (rule parse_members_SucD [OF q])
    have "length r \<le> length (tl v3)" using p(7) Suc.IH by fastforce
    moreover have "length w2 < length v2" using p(5) Suc.IH by blast
    ultimately show ?thesis
      using skip_length [OF p(1)] parse_string_length [OF p(2)] skip_length [OF p(3)] skip_length [OF p(4)] skip_length [OF p(6)]
      by (cases v3; cases v1) simp_all
  qed
  show ?case using v e m by blast
qed simp

lemma parse_bound:
  "(\<forall>v. 2 * length v < n \<longrightarrow> parse_value n v \<noteq> Inl Diverges) \<and>
   (\<forall>v. 2 * length v + 1 < n \<longrightarrow> parse_elements n v \<noteq> Inl Diverges) \<and>
   (\<forall>v. 2 * length v + 1 < n \<longrightarrow> parse_members n v \<noteq> Inl Diverges)"
proof (induction n)
  case (Suc n)
  have v: "parse_value (Suc n) v \<noteq> Inl Diverges" if q: "2 * length v < Suc n" for v
  proof -
    have "parse_elements n v1 \<noteq> Inl Diverges \<and> parse_members n v1 \<noteq> Inl Diverges"
      if r: "skip (tl v) = Inr v1" for v1
    proof -
      have "2 * length v1 + 1 < n" using skip_length [OF r] q by (cases v) auto
      then show ?thesis using Suc.IH by blast
    qed
    then show ?thesis using parse_string_not_diverges parse_number_not_diverges
      by (simp add: bindR_diverges mapR_diverges)
  qed
  have val: "parse_value n v1 \<noteq> Inl Diverges" if "skip u = Inr v1" "length u \<le> length v" "2 * length v + 1 < Suc n" for u v v1
    using skip_length [OF that(1)] that(2,3) Suc.IH by simp
  have tls: "2 * length (tl v3) + 1 < n"
    if "skip u = Inr v1" "length u \<le> length v" "2 * length v + 1 < Suc n" "parse_value n v1 = Inr (Some (c, w))"
      "skip w = Inr v3" for u v v1 c w v3
  proof -
    have "length w < length v1" using parse_length that(4) by blast
    then show ?thesis using skip_length [OF that(1)] skip_length [OF that(5)] that(2,3) by (cases v3) auto
  qed
  have e: "parse_elements (Suc n) v \<noteq> Inl Diverges" if q: "2 * length v + 1 < Suc n" for v
  proof
    assume "parse_elements (Suc n) v = Inl Diverges"
    then obtain v1 x where x: "skip v = Inr v1" "parse_value n v1 = Inr x"
      "then_skip x (\<lambda>c v2.
        if starts (CHR '','') v2 then mapR (map_option (apfst (Cons c))) (parse_elements n (tl v2))
        else if starts (CHR '']'') v2 then Inr (Some ([c], tl v2)) else Inr None) = Inl Diverges"
      using val [OF _ order_refl q] by (auto simp: bindR_diverges)
    then obtain c w v3 where "x = Some (c, w)" "skip w = Inr v3" "parse_elements n (tl v3) = Inl Diverges"
      by (cases x) (auto simp: bindR_diverges mapR_diverges split: if_splits)
    with tls [OF x(1) order_refl q] x(2) Suc.IH show False by blast
  qed
  have m: "parse_members (Suc n) v \<noteq> Inl Diverges" if q: "2 * length v + 1 < Suc n" for v
  proof
    let ?fin = "\<lambda>s c0 v3. let c = set_name (Some s) c0 in
         if starts (CHR '','') v3 then mapR (map_option (apfst (Cons c))) (parse_members n (tl v3))
         else if starts (CHR ''}'') v3 then Inr (Some ([c], tl v3))
         else Inr None"
    assume "parse_members (Suc n) v = Inl Diverges"
    then obtain v0 x where x: "skip v = Inr v0" "parse_string v0 = Inr x"
      "then_skip x (\<lambda>s v1. if \<not> starts (CHR '':'') v1 then Inr None
        else bindR (skip (tl v1)) (\<lambda>v2. bindR (parse_value n v2) (\<lambda>r. then_skip r (?fin s)))) = Inl Diverges"
      using parse_string_not_diverges by (auto simp: bindR_diverges)
    then obtain s w v1 where s: "x = Some (s, w)" "skip w = Inr v1"
      "bindR (skip (tl v1)) (\<lambda>v2. bindR (parse_value n v2) (\<lambda>r. then_skip r (?fin s))) = Inl Diverges"
      by (cases x) (auto simp: bindR_diverges split: if_splits)
    have le: "length (tl v1) \<le> length v"
      using skip_length [OF x(1)] skip_length [OF s(2)] parse_string_length [of v0 s w] x(2) s(1) by (cases v1) simp_all
    obtain v2 y where y: "skip (tl v1) = Inr v2" "parse_value n v2 = Inr y" "then_skip y (?fin s) = Inl Diverges"
      using s(3) val [OF _ le q] by (auto simp: bindR_diverges)
    then obtain c w2 v3 where "y = Some (c, w2)" "skip w2 = Inr v3" "parse_members n (tl v3) = Inl Diverges"
      by (cases y) (auto simp: bindR_diverges mapR_diverges Let_def split: if_splits)
    with tls [OF y(1) le q] y(2) Suc.IH show False by blast
  qed
  show ?case using v e m by blast
qed simp

text \<open>A bound that is not reached can be larger.\<close>

lemma bindR_grow:
  assumes "r \<noteq> Inl Diverges \<Longrightarrow> r' = r" "\<And>x. r = Inr x \<Longrightarrow> k x \<noteq> Inl Diverges \<Longrightarrow> k' x = k x" "bindR r k \<noteq> Inl Diverges"
  shows "bindR r' k' = bindR r k"
  using assms by (cases r) (auto simp: bindR_diverges)

lemma then_skip_grow:
  assumes "\<And>a v. k a v \<noteq> Inl Diverges \<Longrightarrow> k' a v = k a v" "then_skip r k \<noteq> Inl Diverges"
  shows "then_skip r k' = then_skip r k"
  using assms(2) by (auto simp: then_skip_def split: option.splits intro!: bindR_grow assms(1))

lemma parse_grow:
  "(\<forall>v. parse_value n v \<noteq> Inl Diverges \<longrightarrow> parse_value (Suc n) v = parse_value n v) \<and>
   (\<forall>v. parse_elements n v \<noteq> Inl Diverges \<longrightarrow> parse_elements (Suc n) v = parse_elements n v) \<and>
   (\<forall>v. parse_members n v \<noteq> Inl Diverges \<longrightarrow> parse_members (Suc n) v = parse_members n v)"
proof (induction n)
  case (Suc n)
  note IH = Suc.IH [THEN conjunct1, rule_format] Suc.IH [THEN conjunct2, THEN conjunct1, rule_format] Suc.IH [THEN conjunct2, THEN conjunct2, rule_format]
  have v: "parse_value (Suc (Suc n)) v = parse_value (Suc n) v" if d: "parse_value (Suc n) v \<noteq> Inl Diverges" for v
    using d unfolding parse_value.simps(2) [of "Suc n" v] parse_value.simps(2) [of n v]
    by (auto intro!: bindR_grow arg_cong [of _ _ "mapR _"] IH simp: mapR_diverges bindR_diverges simp del: parse_value.simps parse_elements.simps parse_members.simps)
  have e: "parse_elements (Suc (Suc n)) v = parse_elements (Suc n) v" if d: "parse_elements (Suc n) v \<noteq> Inl Diverges" for v
    using d unfolding parse_elements.simps(2) [of "Suc n" v] parse_elements.simps(2) [of n v]
    by (rule bindR_grow [rotated 2]) (auto intro!: bindR_grow then_skip_grow arg_cong [of _ _ "mapR _"] IH simp: mapR_diverges simp del: parse_value.simps parse_elements.simps parse_members.simps)
  have m: "parse_members (Suc (Suc n)) v = parse_members (Suc n) v" if d: "parse_members (Suc n) v \<noteq> Inl Diverges" for v
    using d unfolding parse_members.simps(2) [of "Suc n" v] parse_members.simps(2) [of n v]
    by (rule bindR_grow [rotated 2]) (auto intro!: bindR_grow then_skip_grow arg_cong [of _ _ "mapR _"] IH simp: mapR_diverges Let_def simp del: parse_value.simps parse_elements.simps parse_members.simps)
  show ?case using v e m by blast
qed simp

lemma parse_value_more: "parse_value n v \<noteq> Inl Diverges \<Longrightarrow> n \<le> m \<Longrightarrow> parse_value m v = parse_value n v"
proof (induction m)
  case (Suc m)
  then show ?case using parse_grow [of m] by (cases "n \<le> m") (auto simp: le_Suc_eq simp del: parse_value.simps)
qed simp

section \<open>Properties\<close>

text \<open>C10. The text the printer makes of an item, formatted or not, is read back by the parser
  as an item of the same value: the same nesting and order, the same names, strings and numbers.
  In front of more characters the function \<open>parse_value\<close> reads just that text and stops at what follows it, unless this begins with a digit, a dot or
  the letter e.\<close>

theorem json_roundtrip:
  assumes "json_of c = Some j"
  shows "(\<exists>t c'. cJSON_Print c = Inr (Some t) \<and> cJSON_Parse t = Inr (Some c') \<and> json_of c' = Some j \<and>
      (\<forall>rest n. ends rest \<and> length t \<le> n \<longrightarrow> (\<exists>d. parse_value n (t @ rest) = Inr (Some (d, rest)) \<and> json_of d = Some j))) \<and>
    (\<exists>t c'. cJSON_PrintUnformatted c = Inr (Some t) \<and> cJSON_Parse t = Inr (Some c') \<and> json_of c' = Some j \<and>
      (\<forall>rest n. ends rest \<and> length t \<le> n \<longrightarrow> (\<exists>d. parse_value n (t @ rest) = Inr (Some (d, rest)) \<and> json_of d = Some j)))"
proof -
  have "\<exists>t c'. print_value fmt 0 c = Inr (Some t) \<and> cJSON_Parse t = Inr (Some c') \<and> json_of c' = Some j \<and>
      (\<forall>rest n. ends rest \<and> length t \<le> n \<longrightarrow> (\<exists>d. parse_value n (t @ rest) = Inr (Some (d, rest)) \<and> json_of d = Some j))" for fmt
  proof -
    obtain t where t: "print_value fmt 0 c = Inr (Some t)" "reads t j" using print_reads(1) [OF assms] by blast
    have "skip t = Inr t" using skip_solid [of "[]" t "[]"] reads_solid [OF t(2)] by simp
    moreover obtain c' where "parse_value (2 * length t + 2) t = Inr (Some (c', []))" "json_of c' = Some j"
      using readsE [OF t(2), of "[]" "2 * length t + 2"] by auto
    ultimately show ?thesis using t by (auto simp: cJSON_Parse_def reads_def)
  qed
  then show ?thesis unfolding cJSON_Print_def cJSON_PrintUnformatted_def by blast
qed

definition sample_item :: cJSON where
  "sample_item = cJSON_AddItemToObject (cJSON_AddItemToObject cJSON_CreateObject ''success'' (CJSON 3 None 1 1 None []))
     ''message'' (cJSON_CreateString [CHR ''o'', CHR 0x22, CHR 0x0A])"

theorem json_roundtrip_witness:
  "json_of sample_item = Some (JObject [(''success'', JNumber 1), (''message'', JString [CHR ''o'', CHR 0x22, CHR 0x0A])]) \<and>
   (\<exists>t c'. cJSON_Print sample_item = Inr (Some t) \<and> cJSON_Parse t = Inr (Some c') \<and>
     json_of c' = Some (JObject [(''success'', JNumber 1), (''message'', JString [CHR ''o'', CHR 0x22, CHR 0x0A])]))"
proof -
  have j: "json_of sample_item = Some (JObject [(''success'', JNumber 1), (''message'', JString [CHR ''o'', CHR 0x22, CHR 0x0A])])"
    by (simp add: sample_item_def cJSON_AddItemToObject_def cJSON_AddItemToArray_def cJSON_CreateObject_def
        cJSON_CreateString_def cJSON_New_Item_def INT_MIN_def INT_MAX_def)
  show ?thesis using j json_roundtrip [OF j] by blast
qed

text \<open>C35. Parsing ends. On every text a bound of more than twice its length on the nested calls of \<open>parse_value\<close>,
  \<open>parse_array\<close> and \<open>parse_object\<close>, with their loop rounds counted as calls, is never reached, and the result does not depend on the
  bound; \<open>cJSON_Parse\<close> has such a bound.\<close>

theorem json_parse_ends:
  "cJSON_Parse s \<noteq> Inl Diverges \<and>
   (\<forall>v n m. 2 * length v < n \<and> 2 * length v < m \<longrightarrow> parse_value n v \<noteq> Inl Diverges \<and> parse_value n v = parse_value m v)"
proof (intro conjI allI impI)
  have b: "parse_value n v \<noteq> Inl Diverges" if "2 * length v < n" for n v using parse_bound [of n] that by blast
  then have "parse_value (2 * length v + 2) v \<noteq> Inl Diverges" for v by (simp del: parse_value.simps)
  then show "cJSON_Parse s \<noteq> Inl Diverges" by (simp add: cJSON_Parse_def bindR_diverges mapR_diverges del: parse_value.simps)
  show "parse_value n v \<noteq> Inl Diverges" if "2 * length v < n \<and> 2 * length v < m" for v n m using b that by blast
  show "parse_value n v = parse_value m v" if "2 * length v < n \<and> 2 * length v < m" for v n m
  proof -
    have "parse_value k v = parse_value (Suc (2 * length v)) v" if "2 * length v < k" for k
      by (rule parse_value_more) (use b [of v "Suc (2 * length v)"] that in \<open>simp_all del: parse_value.simps\<close>)
    then show ?thesis using that by metis
  qed
qed

theorem json_parse_ends_witness: "2 * length ''[1]'' < (7 :: nat) \<and> parse_value 7 ''[1]'' = parse_value 8 ''[1]''"
  using json_parse_ends [of "''[1]''"] by (simp del: parse_value.simps)

text \<open>A text of blanks only, the empty one among them, makes \<open>cJSON_Parse\<close> read past the
  terminator of the text: \<open>skip\<close> takes the terminator for a blank.\<close>

theorem json_blank_overrun:
  assumes "\<forall>c \<in> set s. (of_char c :: nat) \<le> 32"
  shows "cJSON_Parse s = Inl Undefined"
proof -
  have "skip s = Inl Undefined" using assms by (induction s) auto
  then show ?thesis by (simp add: cJSON_Parse_def)
qed

theorem json_blank_overrun_witness: "cJSON_Parse '' '' = Inl Undefined"
  by (rule json_blank_overrun) simp

lemma okR_mapR: "okR (mapR f r) = okR r"
  by (cases r) auto

lemma okR_bindI: "okR r \<Longrightarrow> (\<And>a. okR (f a)) \<Longrightarrow> okR (bindR r f)"
  by (cases r) auto

lemma print_number_fits:
  assumes "int32 vi" "\<bar>vd\<bar> \<le> 10 ^ 62 - 1" "vd = 0 \<or> bpow 10 (- 330) \<le> \<bar>vd\<bar>"
  shows "okR (print_number (CJSON t vs vi vd nm cs))"
proof -
  have i: "length (show_int vi) + 1 \<le> 21" using length_show_int [OF assms(1)] by simp
  have f0: "length (fmt_fixed 0 vd) + 1 \<le> 64" using length_fmt_fixed(2) [of vd 0 61] assms(2) by simp
  have f6: "length (fmt_fixed 6 vd) + 1 \<le> 64" if "\<bar>vd\<bar> \<le> 10 ^ 9" using length_fmt_fixed(1) [of vd 6 9] that by simp
  have s: "length (fmt_sci 6 vd) + 1 \<le> 64"
  proof (cases "vd = 0")
    case False
    have "bpow 10 62 = 10 ^ 62" by (simp only: bpow_def) simp
    then have "\<bar>vd\<bar> \<le> bpow 10 62" using assms(2) by linarith
    moreover have "bpow 10 (- 900) \<le> bpow 10 (- 330)" by (rule less_imp_le) (simp add: bpow_less_iff)
    ultimately show ?thesis using length_fmt_sci [OF False, of 6] order_trans [of "bpow 10 (- 900)" "bpow 10 (- 330)" "\<bar>vd\<bar>"] assms(3) False by linarith
  next
    case True
    have "show_nat 0 = ''0''" by code_simp
    then show ?thesis using True by (simp add: fmt_sci_def sci_def fmt_exp_def pad_zeros_def)
  qed
  show ?thesis using i f0 f6 s by (auto simp: print_number_def Let_def into_buffer_def not_less)
qed

text \<open>The sizes of the numbers inside an item: \<open>valueint\<close> is an \<open>int\<close>, \<open>valuedouble\<close> is at most \<open>10 ^ 62 - 1\<close>, and above
  \<open>10 ^ -330\<close> unless it is zero, as every \<open>double\<close> is.\<close>

fun numbers_moderate :: "cJSON \<Rightarrow> bool" where
  "numbers_moderate (CJSON t vs vi vd nm cs) \<longleftrightarrow>
     (t mod 256 = cJSON_Number \<longrightarrow> int32 vi \<and> \<bar>vd\<bar> \<le> 10 ^ 62 - 1 \<and> (vd = 0 \<or> bpow 10 (- 330) \<le> \<bar>vd\<bar>)) \<and> list_all numbers_moderate cs"

text \<open>C34. The lengths that \<open>print_number\<close>, \<open>print_string_ptr\<close>, \<open>print_array\<close> and \<open>print_object\<close> allocate are
  large enough: printing an item of any shape and nesting never writes past the end of a
  buffer, provided its numbers are at most \<open>10 ^ 62 - 1\<close> in absolute value.\<close>

theorem json_print_in_bounds:
  assumes "numbers_moderate c"
  shows "okR (print_value fmt depth c)"
proof -
  have "(numbers_moderate c \<longrightarrow> okR (print_value fmt depth c)) \<and> True"
    and "list_all numbers_moderate cs \<longrightarrow> okR (print_entries fmt depth cs)"
    and "list_all numbers_moderate cs \<longrightarrow> okR (print_members fmt depth cs)" for cs
  proof (induction fmt depth c and fmt depth cs and fmt depth cs rule: print_value_print_entries_print_members.induct)
    case (1 fmt depth t vs vi vd nm cs)
    have s: "okR (print_string_ptr vs)" using print_string_fits [of vs] by (auto simp: okR_iff)
    have n: "numbers_moderate (CJSON t vs vi vd nm cs) \<Longrightarrow> t mod 256 = cJSON_Number \<Longrightarrow> okR (print_number (CJSON t vs vi vd nm cs))"
      by (rule print_number_fits) simp_all
    show ?case
      using 1 s n by (auto simp: Let_def okR_mapR compose_array_fits compose_object_fits intro!: okR_bindI split: option.split)
  next
    case (3 fmt depth c cs)
    then show ?case by (auto simp: okR_iff split: option.split)
  next
    case (5 fmt depth c cs)
    then show ?case using print_string_fits [of "cj_string c"] by (auto simp: okR_iff)
  qed simp_all
  then show ?thesis using assms by blast
qed

theorem json_print_in_bounds_witness:
  "numbers_moderate (cJSON_AddItemToArray sample_item (CJSON 3 None 0 (1 / 4) None [])) \<and>
   okR (print_value True 0 (cJSON_AddItemToArray sample_item (CJSON 3 None 0 (1 / 4) None [])))"
proof -
  have b: "bpow 10 (- 330) \<le> 1" "bpow 10 (- 330) \<le> 1 / 4" using bpow_less_iff [of 10 "- 330" "- 1"] by (simp_all add: bpow_def)
  have "numbers_moderate (cJSON_AddItemToArray sample_item (CJSON 3 None 0 (1 / 4) None []))"
    using b by (simp add: sample_item_def cJSON_AddItemToObject_def cJSON_AddItemToArray_def cJSON_CreateObject_def
        cJSON_CreateString_def cJSON_New_Item_def INT_MIN_def INT_MAX_def)
  then show ?thesis using json_print_in_bounds by blast
qed

end
