(* ===== verification/Movid_Http.thy ===== *)
theory Movid_Http
  imports Movid_Strings
begin

text \<open>
  The part of libevent's \<open>http.c\<close> the web interface stands on: header lists, the escaping
  of HTML, the encoding of URIs, the arguments of a query, the choice of the
  callback for a request, the first line and the headers of a request, and the head of a reply.

  A \<open>TAILQ\<close> of headers is the list of its keys and values. C strings are lists of
  characters other than NUL, and a \<open>char *\<close> that may be \<open>NULL\<close> is an option. \<open>malloc\<close> is
  assumed to succeed; sockets and buffers are not modelled, a reply is the text that is sent.
\<close>

section \<open>Headers\<close>

type_synonym evkeyvalq = "(string \<times> string) list"

definition strcaseeq :: "string \<Rightarrow> string \<Rightarrow> bool" where
  "strcaseeq a b \<longleftrightarrow> map tolower a = map tolower b"

fun evhttp_find_header :: "evkeyvalq \<Rightarrow> string \<Rightarrow> string option" where
  "evhttp_find_header [] key = None"
| "evhttp_find_header ((k, v) # hs) key = (if strcaseeq k key then Some v else evhttp_find_header hs key)"

definition evhttp_clear_headers :: "evkeyvalq \<Rightarrow> evkeyvalq" where
  "evhttp_clear_headers hs = []"

fun evhttp_remove_header :: "evkeyvalq \<Rightarrow> string \<Rightarrow> int \<times> evkeyvalq" where
  "evhttp_remove_header [] key = (-1, [])"
| "evhttp_remove_header ((k, v) # hs) key =
     (if strcaseeq k key then (0, hs) else apsnd (Cons (k, v)) (evhttp_remove_header hs key))"

definition is_crlf :: "char \<Rightarrow> bool" where
  "is_crlf c \<longleftrightarrow> c = CHR 0x0D \<or> c = CHR 0x0A"

text \<open>After a run of line ends the value must go on with a space or a tab.\<close>

function evhttp_header_is_valid_value :: "string \<Rightarrow> bool" where
  "evhttp_header_is_valid_value value =
     (case dropWhile (\<lambda>c. \<not> is_crlf c) value of
        [] \<Rightarrow> True
      | c # r \<Rightarrow>
          (case dropWhile is_crlf r of
             [] \<Rightarrow> False
           | d # q \<Rightarrow> if d \<noteq> CHR '' '' \<and> d \<noteq> CHR 0x09 then False else evhttp_header_is_valid_value (d # q)))"
  by pat_completeness auto
termination
proof (relation "measure length")
  fix s c r d q
  assume "dropWhile (\<lambda>c. \<not> is_crlf c) s = c # r" "dropWhile is_crlf r = d # q"
  then have "length (c # r) \<le> length s" "length (d # q) \<le> length r"
    by (metis length_dropWhile_le)+
  then show "(d # q, s) \<in> measure length" by simp
qed simp

declare evhttp_header_is_valid_value.simps [simp del]

definition evhttp_add_header_internal :: "evkeyvalq \<Rightarrow> string \<Rightarrow> string \<Rightarrow> int \<times> evkeyvalq" where
  "evhttp_add_header_internal hs key value = (0, hs @ [(key, value)])"

definition evhttp_add_header :: "evkeyvalq \<Rightarrow> string \<Rightarrow> string \<Rightarrow> int \<times> evkeyvalq" where
  "evhttp_add_header hs key value =
     (if CHR 0x0D \<in> set key \<or> CHR 0x0A \<in> set key then (-1, hs)
      else if \<not> evhttp_header_is_valid_value value then (-1, hs)
      else evhttp_add_header_internal hs key value)"

definition evhttp_append_to_last_header :: "evkeyvalq \<Rightarrow> string \<Rightarrow> int \<times> evkeyvalq" where
  "evhttp_append_to_last_header hs line =
     (if hs = [] then (-1, hs) else (0, butlast hs @ [(fst (last hs), snd (last hs) @ line)]))"

section \<open>Texts\<close>

text \<open>\<open>strsep(&s, d)\<close> for one delimiter: the token, and the new value of \<open>s\<close>.\<close>

definition strsep :: "char \<Rightarrow> string option \<Rightarrow> string option \<times> string option" where
  "strsep d s =
     (case s of
        None \<Rightarrow> (None, None)
      | Some t \<Rightarrow> (Some (takeWhile (\<lambda>c. c \<noteq> d) t),
                   if d \<in> set t then Some (tl (dropWhile (\<lambda>c. c \<noteq> d) t)) else None))"

definition html_replace :: "char \<Rightarrow> string" where
  "html_replace ch =
     (if ch = CHR ''<'' then ''&lt;''
      else if ch = CHR ''>'' then ''&gt;''
      else if ch = CHR 0x22 then ''&quot;''
      else if ch = CHR 0x27 then ''&#039;''
      else if ch = CHR ''&'' then ''&amp;''
      else [ch])"

definition evhttp_htmlescape :: "string \<Rightarrow> string" where
  "evhttp_htmlescape html = concat (map html_replace html)"

text \<open>The characters of the table \<open>uri_chars\<close>.\<close>

definition uri_chars :: "char \<Rightarrow> bool" where
  "uri_chars c =
     (let n = (of_char c :: nat) in
      n = 33 \<or> n = 36 \<or> 39 \<le> n \<and> n \<le> 58 \<or> n = 61 \<or> 64 \<le> n \<and> n \<le> 90 \<or> n = 95 \<or> 97 \<le> n \<and> n \<le> 122 \<or> n = 126)"

definition hex_char :: "nat \<Rightarrow> char" where
  "hex_char d = (if d < 10 then char_of (48 + d) else char_of (55 + d))"

fun evhttp_encode_uri :: "string \<Rightarrow> string" where
  "evhttp_encode_uri [] = []"
| "evhttp_encode_uri (c # s) =
     (if uri_chars c then [c]
      else let n = (of_char c :: nat) in [CHR ''%'', hex_char (n div 16), hex_char (n mod 16)]) @ evhttp_encode_uri s"

fun evhttp_decode_uri_internal :: "bool \<Rightarrow> string \<Rightarrow> string" where
  "evhttp_decode_uri_internal in_query [] = []"
| "evhttp_decode_uri_internal in_query (c # s) =
     (if c = CHR ''?'' then c # evhttp_decode_uri_internal True s
      else if c = CHR ''+'' \<and> in_query then CHR '' '' # evhttp_decode_uri_internal in_query s
      else (case s of
              a # b # r \<Rightarrow>
                if c = CHR ''%'' \<and> isxdigit a \<and> isxdigit b
                then char_of (hex_digits [a, b]) # evhttp_decode_uri_internal in_query r
                else c # evhttp_decode_uri_internal in_query s
            | _ \<Rightarrow> c # evhttp_decode_uri_internal in_query s))"

text \<open>The decoded text may hold a NUL (from \<open>%00\<close>): as a C string it ends there.\<close>

definition evhttp_decode_uri :: "string \<Rightarrow> string" where
  "evhttp_decode_uri uri = c_str (evhttp_decode_uri_internal False uri)"

section \<open>Queries\<close>

text \<open>The loop over the arguments; it stops at an argument without \<open>=\<close>.\<close>

function query_loop :: "string option \<Rightarrow> evkeyvalq \<Rightarrow> evkeyvalq" where
  "query_loop p hs =
     (if p = None \<or> p = Some '''' then hs
      else (let (argument, p1) = strsep (CHR ''&'') p;
                (key, value) = strsep (CHR ''='') argument
            in case value of
                 None \<Rightarrow> hs
               | Some v \<Rightarrow>
                   query_loop p1 (snd (evhttp_add_header_internal hs (the key) (c_str (evhttp_decode_uri_internal True v))))))"
  by pat_completeness auto
termination
proof (relation "measure (\<lambda>(p, hs). case p of None \<Rightarrow> 0 | Some s \<Rightarrow> Suc (length s))")
  fix p hs x argument p1 xa key val v
  assume p: "\<not> (p = None \<or> p = Some '''')" "x = strsep (CHR ''&'') p" "(argument, p1) = x"
  then obtain s where s: "p = Some s" "s \<noteq> ''''" by (cases p) auto
  have "length (tl (dropWhile (\<lambda>c. c \<noteq> CHR ''&'') s)) < length s"
    using s(2) length_dropWhile_le [of "\<lambda>c. c \<noteq> CHR ''&''" s] by (cases s) (auto simp: less_Suc_eq_le intro: le_trans)
  then show "((p1, snd (evhttp_add_header_internal hs (the key) (c_str (evhttp_decode_uri_internal True v)))), (p, hs))
    \<in> measure (\<lambda>(p, hs). case p of None \<Rightarrow> 0 | Some s \<Rightarrow> Suc (length s))"
    using p s(1) by (auto simp: strsep_def split: if_splits)
qed simp

declare query_loop.simps [simp del]

definition evhttp_parse_query :: "string \<Rightarrow> evkeyvalq" where
  "evhttp_parse_query uri =
     (if CHR ''?'' \<notin> set uri then []
      else query_loop (snd (strsep (CHR ''?'') (Some uri))) [])"

section \<open>Callbacks\<close>

text \<open>A callback is registered under a path; \<open>'a\<close> stands for the handlers.\<close>

definition evhttp_set_cb :: "(string \<times> 'a) list \<Rightarrow> string \<Rightarrow> 'a \<Rightarrow> (string \<times> 'a) list" where
  "evhttp_set_cb cbs uri cb = cbs @ [(uri, cb)]"

fun evhttp_del_cb :: "(string \<times> 'a) list \<Rightarrow> string \<Rightarrow> int \<times> (string \<times> 'a) list" where
  "evhttp_del_cb [] uri = (-1, [])"
| "evhttp_del_cb ((w, cb) # cbs) uri =
     (if w = uri then (0, cbs) else apsnd (Cons (w, cb)) (evhttp_del_cb cbs uri))"

text \<open>\<open>strncmp(a, b, n) == 0\<close>, on texts with their terminators.\<close>

definition strncmp_eq :: "string \<Rightarrow> string \<Rightarrow> nat \<Rightarrow> bool" where
  "strncmp_eq a b n \<longleftrightarrow> take n (a @ [CHR 0x00]) = take n (b @ [CHR 0x00])"

fun evhttp_dispatch_callback :: "(string \<times> 'a) list \<Rightarrow> string \<Rightarrow> 'a option" where
  "evhttp_dispatch_callback [] uri = None"
| "evhttp_dispatch_callback ((w, cb) # cbs) uri =
     (let offset = length (takeWhile (\<lambda>c. c \<noteq> CHR ''?'') uri);
          res = (if CHR ''?'' \<notin> set uri then w = uri
                 else strncmp_eq w uri offset \<and> (w @ [CHR 0x00]) ! offset = CHR 0x00)
      in if res then Some cb else evhttp_dispatch_callback cbs uri)"

section \<open>Reading a request\<close>

text \<open>\<open>evbuffer_readline\<close> takes a line off the buffer, with its one or two end characters.\<close>

definition evbuffer_readline :: "string \<Rightarrow> (string \<times> string) option" where
  "evbuffer_readline data =
     (let line = takeWhile (\<lambda>c. \<not> is_crlf c) data in
      case dropWhile (\<lambda>c. \<not> is_crlf c) data of
        [] \<Rightarrow> None
      | fch # r \<Rightarrow>
          Some (c_str line,
            case r of [] \<Rightarrow> [] | sch # q \<Rightarrow> if is_crlf sch \<and> sch \<noteq> fch then q else r))"

datatype evhttp_cmd_type = EVHTTP_REQ_GET | EVHTTP_REQ_POST | EVHTTP_REQ_HEAD

datatype evhttp_request_kind = EVHTTP_REQUEST | EVHTTP_RESPONSE

datatype message_read_status = ALL_DATA_READ | MORE_DATA_EXPECTED | DATA_CORRUPTED

record evhttp_request =
  rq_kind :: evhttp_request_kind
  rq_type :: evhttp_cmd_type
  rq_uri :: "string option"
  rq_major :: int
  rq_minor :: int
  rq_proxy :: bool
  rq_response_code :: int
  rq_response_code_line :: string
  rq_input_headers :: evkeyvalq
  rq_output_headers :: evkeyvalq
  rq_output_buffer :: string
  rq_chunked :: bool
  rq_ntoread :: int

definition set_version :: "string \<Rightarrow> evhttp_request \<Rightarrow> evhttp_request option" where
  "set_version version req =
     (if version = ''HTTP/1.0'' then Some (req\<lparr>rq_major := 1, rq_minor := 0\<rparr>)
      else if version = ''HTTP/1.1'' then Some (req\<lparr>rq_major := 1, rq_minor := 1\<rparr>)
      else None)"

definition set_method :: "string \<Rightarrow> evhttp_request \<Rightarrow> evhttp_request option" where
  "set_method method req =
     (if method = ''GET'' then Some (req\<lparr>rq_type := EVHTTP_REQ_GET\<rparr>)
      else if method = ''POST'' then Some (req\<lparr>rq_type := EVHTTP_REQ_POST\<rparr>)
      else if method = ''HEAD'' then Some (req\<lparr>rq_type := EVHTTP_REQ_HEAD\<rparr>)
      else None)"

text \<open>\<open>None\<close> is the result \<open>-1\<close>; the request is then dropped.\<close>

definition evhttp_parse_request_line :: "evhttp_request \<Rightarrow> string \<Rightarrow> evhttp_request option" where
  "evhttp_parse_request_line req line =
     (let (method, l1) = strsep (CHR '' '') (Some line);
          (uri, l2) = strsep (CHR '' '') l1;
          (version, l3) = strsep (CHR '' '') l2
      in if l1 = None \<or> l2 = None \<or> l3 \<noteq> None then None
         else Option.bind (set_method (the method) req) (\<lambda>req1.
              map_option (\<lambda>req2. req2\<lparr>rq_uri := uri,
                  rq_proxy := rq_proxy req2 \<or> (the uri \<noteq> '''' \<and> hd (the uri) \<noteq> CHR ''/'')\<rparr>)
                (set_version (the version) req1)))"

definition evhttp_parse_response_line :: "evhttp_request \<Rightarrow> string \<Rightarrow> evhttp_request option" where
  "evhttp_parse_response_line req line =
     (let (protocol, l1) = strsep (CHR '' '') (Some line);
          (number, l2) = strsep (CHR '' '') l1
      in if l1 = None \<or> l2 = None then None
         else Option.bind (set_version (the protocol) req) (\<lambda>req1.
              let code = atoi (the number) in
              if code = 0 then None
              else Some (req1\<lparr>rq_response_code := code, rq_response_code_line := the l2\<rparr>)))"

definition evhttp_parse_firstline :: "evhttp_request \<Rightarrow> string \<Rightarrow> message_read_status \<times> evhttp_request \<times> string" where
  "evhttp_parse_firstline req buffer =
     (case evbuffer_readline buffer of
        None \<Rightarrow> (MORE_DATA_EXPECTED, req, buffer)
      | Some (line, rest) \<Rightarrow>
          (case (case rq_kind req of EVHTTP_REQUEST \<Rightarrow> evhttp_parse_request_line req line
                                   | EVHTTP_RESPONSE \<Rightarrow> evhttp_parse_response_line req line) of
             None \<Rightarrow> (DATA_CORRUPTED, req, rest)
           | Some req1 \<Rightarrow> (ALL_DATA_READ, req1, rest)))"

lemma readline_shorter: "evbuffer_readline b = Some (l, r) \<Longrightarrow> length r < length b"
proof -
  assume a: "evbuffer_readline b = Some (l, r)"
  obtain f q where q: "dropWhile (\<lambda>c. \<not> is_crlf c) b = f # q"
    using a by (auto simp: evbuffer_readline_def split: list.splits)
  then have "length (f # q) \<le> length b" by (metis length_dropWhile_le)
  moreover have "length r \<le> length q" using a q by (auto simp: evbuffer_readline_def split: list.splits if_splits)
  ultimately show ?thesis by simp
qed

text \<open>One header line.\<close>

definition header_line :: "evkeyvalq \<Rightarrow> string \<Rightarrow> int \<times> evkeyvalq" where
  "header_line headers line =
     (if hd line = CHR '' '' \<or> hd line = CHR 0x09 then evhttp_append_to_last_header headers line
      else (let (skey, svalue) = strsep (CHR '':'') (Some line) in
            case svalue of
              None \<Rightarrow> (-1, headers)
            | Some v \<Rightarrow> evhttp_add_header headers (the skey) (dropWhile (\<lambda>c. c = CHR '' '') v)))"

function evhttp_parse_headers :: "evkeyvalq \<Rightarrow> string \<Rightarrow> message_read_status \<times> evkeyvalq \<times> string" where
  "evhttp_parse_headers headers buffer =
     (case evbuffer_readline buffer of
        None \<Rightarrow> (MORE_DATA_EXPECTED, headers, buffer)
      | Some (line, rest) \<Rightarrow>
          if line = '''' then (ALL_DATA_READ, headers, rest)
          else (let (ret, headers1) = header_line headers line in
                if ret = -1 then (DATA_CORRUPTED, headers1, rest)
                else evhttp_parse_headers headers1 rest))"
  by pat_completeness auto
termination
  by (relation "measure (\<lambda>(h, b). length b)") (auto dest: readline_shorter)

declare evhttp_parse_headers.simps [simp del]

text \<open>\<open>evutil_strtoll(s, &endp, 10)\<close> with the test that the whole text is a number.\<close>

definition whole_number :: "string \<Rightarrow> int option" where
  "whole_number s =
     (let s1 = dropWhile isspace s;
          neg = starts (CHR ''-'') s1;
          s2 = (if neg \<or> starts (CHR ''+'') s1 then tl s1 else s1);
          v = int (digits_val s2)
      in if s2 = '''' \<or> \<not> list_all isdigit s2 then None
         else Some (max LONG_MIN (min LONG_MAX (if neg then - v else v))))"

definition evhttp_get_body_length :: "evhttp_request \<Rightarrow> evhttp_request option" where
  "evhttp_get_body_length req =
     (case (evhttp_find_header (rq_input_headers req) ''Content-Length'',
            evhttp_find_header (rq_input_headers req) ''Connection'') of
        (None, None) \<Rightarrow> Some (req\<lparr>rq_ntoread := -1\<rparr>)
      | (None, Some connection) \<Rightarrow>
          if \<not> strcaseeq connection ''Close'' then None else Some (req\<lparr>rq_ntoread := -1\<rparr>)
      | (Some content_length, _) \<Rightarrow>
          (case whole_number content_length of
             None \<Rightarrow> None
           | Some n \<Rightarrow> if n < 0 then None else Some (req\<lparr>rq_ntoread := n\<rparr>)))"

section \<open>Writing a reply\<close>

definition crlf :: string where
  "crlf = [CHR 0x0D, CHR 0x0A]"

definition add_output_header :: "string \<Rightarrow> string \<Rightarrow> evhttp_request \<Rightarrow> evhttp_request" where
  "add_output_header key v req = req\<lparr>rq_output_headers := snd (evhttp_add_header (rq_output_headers req) key v)\<rparr>"

definition remove_output_header :: "string \<Rightarrow> evhttp_request \<Rightarrow> evhttp_request" where
  "remove_output_header key req = req\<lparr>rq_output_headers := snd (evhttp_remove_header (rq_output_headers req) key)\<rparr>"

definition evhttp_is_connection_close :: "bool \<Rightarrow> evkeyvalq \<Rightarrow> bool" where
  "evhttp_is_connection_close proxy headers =
     (if proxy
      then (case evhttp_find_header headers ''Proxy-Connection'' of
              None \<Rightarrow> True | Some c \<Rightarrow> \<not> strcaseeq c ''keep-alive'')
      else (case evhttp_find_header headers ''Connection'' of
              None \<Rightarrow> False | Some c \<Rightarrow> strcaseeq c ''close''))"

definition evhttp_is_connection_keepalive :: "evkeyvalq \<Rightarrow> bool" where
  "evhttp_is_connection_keepalive headers =
     (case evhttp_find_header headers ''Connection'' of
        None \<Rightarrow> False | Some c \<Rightarrow> strcaseeq (take 10 c) ''keep-alive'')"

text \<open>\<open>date\<close> is the text \<open>strftime\<close> makes of the clock.\<close>

definition evhttp_maybe_add_date_header :: "string \<Rightarrow> evhttp_request \<Rightarrow> evhttp_request" where
  "evhttp_maybe_add_date_header date req =
     (if evhttp_find_header (rq_output_headers req) ''Date'' = None then add_output_header ''Date'' date req else req)"

definition evhttp_maybe_add_content_length_header :: "int \<Rightarrow> evhttp_request \<Rightarrow> evhttp_request" where
  "evhttp_maybe_add_content_length_header len req =
     (if evhttp_find_header (rq_output_headers req) ''Transfer-Encoding'' = None \<and>
         evhttp_find_header (rq_output_headers req) ''Content-Length'' = None
      then add_output_header ''Content-Length'' (take 11 (show_int len)) req else req)"

definition status_line :: "evhttp_request \<Rightarrow> string" where
  "status_line req =
     ''HTTP/'' @ show_int (rq_major req) @ ''.'' @ show_int (rq_minor req) @ '' '' @
     show_int (rq_response_code req) @ '' '' @ rq_response_code_line req @ crlf"

definition evhttp_make_header_response :: "string \<Rightarrow> evhttp_request \<Rightarrow> evhttp_request" where
  "evhttp_make_header_response date req =
     (let keep = evhttp_is_connection_keepalive (rq_input_headers req);
          r1 = (if rq_major req = 1 \<and> rq_minor req = 1 then evhttp_maybe_add_date_header date req else req);
          r2 = (if rq_major req = 1 \<and> rq_minor req = 0 \<and> keep then add_output_header ''Connection'' ''keep-alive'' r1 else r1);
          r3 = (if rq_major req = 1 \<and> (rq_minor req = 1 \<or> keep)
                then evhttp_maybe_add_content_length_header (int (length (rq_output_buffer req))) r2 else r2);
          r4 = (if rq_output_buffer req \<noteq> '''' \<and> evhttp_find_header (rq_output_headers r3) ''Content-Type'' = None
                then add_output_header ''Content-Type'' ''text/html; charset=ISO-8859-1'' r3 else r3)
      in if evhttp_is_connection_close (rq_proxy req) (rq_input_headers req)
         then (let r5 = remove_output_header ''Connection'' r4;
                   r6 = (if rq_proxy req then r5 else add_output_header ''Connection'' ''close'' r5)
               in remove_output_header ''Proxy-Connection'' r6)
         else r4)"

definition headers_text :: "evkeyvalq \<Rightarrow> string" where
  "headers_text hs = concat (map (\<lambda>(k, v). k @ '': '' @ v @ crlf) hs) @ crlf"

text \<open>\<open>evhttp_make_header\<close> of a reply: the text that goes to the connection.\<close>

definition evhttp_make_header :: "string \<Rightarrow> evhttp_request \<Rightarrow> evhttp_request \<times> string" where
  "evhttp_make_header date req =
     (let r = evhttp_make_header_response date req
      in (r, status_line req @ headers_text (rq_output_headers r) @ rq_output_buffer r))"

definition evhttp_response_code :: "int \<Rightarrow> string \<Rightarrow> evhttp_request \<Rightarrow> evhttp_request" where
  "evhttp_response_code code reason req =
     req\<lparr>rq_kind := EVHTTP_RESPONSE, rq_response_code := code, rq_response_code_line := reason\<rparr>"

definition evhttp_send :: "string \<Rightarrow> string \<Rightarrow> evhttp_request \<Rightarrow> evhttp_request \<times> string" where
  "evhttp_send date databuf req =
     evhttp_make_header date (req\<lparr>rq_output_buffer := rq_output_buffer req @ databuf\<rparr>)"

definition evhttp_send_reply :: "string \<Rightarrow> int \<Rightarrow> string \<Rightarrow> string \<Rightarrow> evhttp_request \<Rightarrow> evhttp_request \<times> string" where
  "evhttp_send_reply date code reason databuf req = evhttp_send date databuf (evhttp_response_code code reason req)"

definition evhttp_send_page :: "string \<Rightarrow> string \<Rightarrow> evhttp_request \<Rightarrow> evhttp_request \<times> string" where
  "evhttp_send_page date databuf req =
     (let r1 = (if rq_major req = 0 \<or> rq_minor req = 0 then req\<lparr>rq_major := 1, rq_minor := 1\<rparr> else req);
          r2 = (if rq_kind r1 \<noteq> EVHTTP_RESPONSE then evhttp_response_code 200 ''OK'' r1 else r1);
          r3 = r2\<lparr>rq_output_headers := evhttp_clear_headers (rq_output_headers r2)\<rparr>
      in evhttp_send date databuf
           (add_output_header ''Connection'' ''close'' (add_output_header ''Content-Type'' ''text/html'' r3)))"

definition error_page :: "int \<Rightarrow> string \<Rightarrow> string" where
  "error_page error reason =
     (let nl = [CHR 0x0A] in
      ''<HTML><HEAD>'' @ nl @ ''<TITLE>'' @ show_int error @ '' '' @ reason @ ''</TITLE>'' @ nl @
      ''</HEAD><BODY>'' @ nl @ ''<H1>Method Not Implemented</H1>'' @ nl @
      ''Invalid method in request<P>'' @ nl @ ''</BODY></HTML>'' @ nl)"

definition evhttp_send_error :: "string \<Rightarrow> int \<Rightarrow> string \<Rightarrow> evhttp_request \<Rightarrow> evhttp_request \<times> string" where
  "evhttp_send_error date error reason req =
     evhttp_send_page date (error_page error reason)
       (evhttp_response_code error reason (add_output_header ''Connection'' ''close'' req))"

definition hex_lower :: "nat \<Rightarrow> char" where
  "hex_lower d = (if d < 10 then char_of (48 + d) else char_of (87 + d))"

fun show_hex :: "nat \<Rightarrow> string" where
  "show_hex n = (if n < 16 then [hex_lower n] else show_hex (n div 16) @ [hex_lower (n mod 16)])"

declare show_hex.simps [simp del]

text \<open>A reply in pieces. The text the three functions send; \<open>%x\<close> takes the low 32 bits of the
  length.\<close>

definition evhttp_send_reply_start :: "string \<Rightarrow> int \<Rightarrow> string \<Rightarrow> evhttp_request \<Rightarrow> evhttp_request \<times> string" where
  "evhttp_send_reply_start date code reason req =
     (let r1 = evhttp_response_code code reason req
      in evhttp_make_header date
           (if rq_major r1 = 1 \<and> rq_minor r1 = 1
            then (add_output_header ''Transfer-Encoding'' ''chunked'' r1)\<lparr>rq_chunked := True\<rparr> else r1))"

definition evhttp_send_reply_chunk :: "evhttp_request \<Rightarrow> string \<Rightarrow> string" where
  "evhttp_send_reply_chunk req databuf =
     (if rq_chunked req then show_hex (length databuf mod 2 ^ 32) @ crlf @ databuf @ crlf else databuf)"

definition evhttp_send_reply_end :: "evhttp_request \<Rightarrow> evhttp_request \<times> string" where
  "evhttp_send_reply_end req =
     (if rq_chunked req then (req\<lparr>rq_chunked := False\<rparr>, ''0'' @ crlf @ crlf) else (req, ''''))"

text \<open>\<open>evhttp_handle_request\<close> answers itself (\<open>Inl\<close>), or gives the handler to call.\<close>

definition not_found_page :: "string \<Rightarrow> string" where
  "not_found_page uri =
     ''<html><head><title>404 Not Found</title></head><body><h1>Not Found</h1><p>The requested URL '' @
     evhttp_htmlescape uri @ '' was not found on this server.</p></body></html>'' @ [CHR 0x0A]"

definition evhttp_handle_request ::
  "string \<Rightarrow> (string \<times> 'a) list \<Rightarrow> 'a option \<Rightarrow> evhttp_request \<Rightarrow> (evhttp_request \<times> string) + 'a" where
  "evhttp_handle_request date callbacks gencb req =
     (case rq_uri req of
        None \<Rightarrow> Inl (evhttp_send_error date 400 ''Bad Request'' req)
      | Some uri \<Rightarrow>
          (case evhttp_dispatch_callback callbacks uri of
             Some cb \<Rightarrow> Inr cb
           | None \<Rightarrow>
               (case gencb of
                  Some cb \<Rightarrow> Inr cb
                | None \<Rightarrow> Inl (evhttp_send_page date (not_found_page uri) (evhttp_response_code 404 ''Not Found'' req)))))"

section \<open>URIs and queries\<close>

lemma of_char_lt: "(of_char (c :: char) :: nat) < 256"
proof -
  have "(of_char c :: nat) mod 256 = of_char c" by simp
  then show ?thesis by (metis mod_less_divisor zero_less_numeral)
qed

lemma hex_val_hex_char: "d < 16 \<Longrightarrow> hex_val (hex_char d) = Some d"
  by (simp add: hex_val_def hex_char_def Let_def)

lemma decode_encoded_char:
  "evhttp_decode_uri_internal b ([CHR ''%'', hex_char (n div 16), hex_char (n mod 16)] @ s) =
     char_of n # evhttp_decode_uri_internal b s" if "n < 256" for n
  using that hex_val_hex_char [of "n div 16"] hex_val_hex_char [of "n mod 16"] by (simp add: hex_digits_def less_mult_imp_div_less)

definition plus_to_space :: "bool \<Rightarrow> string \<Rightarrow> string" where
  "plus_to_space b s = map (\<lambda>c. if b \<and> c = CHR ''+'' then CHR '' '' else c) s"

lemma decode_plain_char:
  "c \<noteq> CHR ''?'' \<Longrightarrow> c \<noteq> CHR ''%'' \<Longrightarrow>
     evhttp_decode_uri_internal b (c # s) = (if b \<and> c = CHR ''+'' then CHR '' '' else c) # evhttp_decode_uri_internal b s"
  by (auto split: list.split)

lemma uri_chars_plain: "uri_chars c \<Longrightarrow> c \<noteq> CHR ''?'' \<and> c \<noteq> CHR ''%'' \<and> c \<noteq> CHR ''&''"
  by (auto simp: uri_chars_def)

declare evhttp_decode_uri_internal.simps(2) [simp del]

lemma decode_encode: "evhttp_decode_uri_internal b (evhttp_encode_uri s) = plus_to_space b s"
proof (induction s)
  case (Cons c s)
  show ?case
  proof (cases "uri_chars c")
    case True
    then show ?thesis using Cons uri_chars_plain [OF True] by (simp add: decode_plain_char plus_to_space_def)
  next
    case False
    then have "c \<noteq> CHR ''+''" by (auto simp: uri_chars_def)
    then show ?thesis using False Cons decode_encoded_char [OF of_char_lt [of c]] by (simp add: Let_def plus_to_space_def)
  qed
qed (simp add: plus_to_space_def)

lemma encode_no_amp: "CHR ''&'' \<notin> set (evhttp_encode_uri s)"
proof (induction s)
  case (Cons c s)
  have "hex_char d \<noteq> CHR ''&''" if "d < 16" for d
    using hex_val_hex_char [OF that] by (auto simp: hex_val_def)
  moreover have "(of_char c :: nat) div 16 < 16" "(of_char c :: nat) mod 16 < 16"
    using of_char_lt [of c] by (simp_all add: less_mult_imp_div_less)
  ultimately have "hex_char (of_char c div 16) \<noteq> CHR ''&''" "hex_char (of_char c mod 16) \<noteq> CHR ''&''" by blast+
  then show ?case using Cons uri_chars_plain [of c] by (auto simp: Let_def)
qed simp

text \<open>The text of a query.\<close>

definition query_text :: "(string \<times> string) list \<Rightarrow> string" where
  "query_text kvs = join_with (CHR ''&'') (map (\<lambda>(k, v). k @ CHR ''='' # evhttp_encode_uri v) kvs)"

definition key_ok :: "string \<Rightarrow> bool" where
  "key_ok k \<longleftrightarrow> CHR ''='' \<notin> set k \<and> CHR ''&'' \<notin> set k"

lemma strsep_hit: "d \<notin> set w \<Longrightarrow> strsep d (Some (w @ d # r)) = (Some w, Some r)"
  by (induction w) (auto simp: strsep_def)

lemma strsep_miss: "d \<notin> set w \<Longrightarrow> strsep d (Some w) = (Some w, None)"
  by (auto simp: strsep_def takeWhile_eq_all_conv)

lemma query_step:
  assumes "key_ok k" "CHR 0x00 \<notin> set v"
  shows "query_loop (Some (k @ CHR ''='' # evhttp_encode_uri v)) hs = hs @ [(k, plus_to_space True v)]"
    and "query_loop (Some (k @ CHR ''='' # evhttp_encode_uri v @ CHR ''&'' # r)) hs =
      query_loop (Some r) (hs @ [(k, plus_to_space True v)])"
proof -
  let ?a = "k @ CHR ''='' # evhttp_encode_uri v"
  have amp: "CHR ''&'' \<notin> set ?a" using assms(1) encode_no_amp [of v] by (simp add: key_ok_def)
  have eq: "strsep (CHR ''='') (Some ?a) = (Some k, Some (evhttp_encode_uri v))"
    using assms(1) by (intro strsep_hit) (simp add: key_ok_def)
  have "CHR 0x00 \<notin> set (plus_to_space True v)" using assms(2) by (auto simp: plus_to_space_def)
  then have dec: "c_str (evhttp_decode_uri_internal True (evhttp_encode_uri v)) = plus_to_space True v"
    by (simp add: decode_encode c_str_id)
  note step = query_loop.simps [of "Some (k @ CHR ''='' # evhttp_encode_uri v)" hs]
    query_loop.simps [of "Some (k @ CHR ''='' # evhttp_encode_uri v @ CHR ''&'' # r)" hs]
  show "query_loop (Some ?a) hs = hs @ [(k, plus_to_space True v)]"
    using strsep_miss [OF amp] eq dec step(1) by (simp add: evhttp_add_header_internal_def query_loop.simps [of None])
  show "query_loop (Some (k @ CHR ''='' # evhttp_encode_uri v @ CHR ''&'' # r)) hs =
      query_loop (Some r) (hs @ [(k, plus_to_space True v)])"
    using strsep_hit [OF amp, of r] eq dec step(2) by (simp add: evhttp_add_header_internal_def)
qed

lemma query_loop_text:
  assumes "\<forall>(k, v) \<in> set kvs. key_ok k \<and> CHR 0x00 \<notin> set v"
  shows "query_loop (Some (query_text kvs)) hs = hs @ map (\<lambda>(k, v). (k, plus_to_space True v)) kvs"
  using assms
proof (induction kvs arbitrary: hs)
  case (Cons kv kvs)
  obtain k v where kv: "kv = (k, v)" by (cases kv)
  have ok: "key_ok k" "CHR 0x00 \<notin> set v" using Cons.prems kv by auto
  show ?case
  proof (cases kvs)
    case Nil
    then show ?thesis using query_step(1) [OF ok] kv by (simp add: query_text_def)
  next
    case (Cons kv2 kvs2)
    then have "query_text (kv # kvs) = k @ CHR ''='' # evhttp_encode_uri v @ CHR ''&'' # query_text kvs"
      by (simp add: query_text_def kv split: prod.split)
    then show ?thesis using query_step(2) [OF ok] Cons.IH Cons.prems kv by simp
  qed
qed (simp add: query_text_def query_loop.simps)

text \<open>C23. The arguments of a query are read back. From a URI made of a path, a question mark and
  the arguments \<open>key=value\<close> joined with \<open>&\<close>, the values encoded by \<open>evhttp_encode_uri\<close>,
  \<open>evhttp_parse_query\<close> gets the list of arguments in order, with each value as it was but for
  its plus signs, which become spaces: the encoder leaves a plus sign as it is and the decoder
  of queries takes every plus sign for a space.\<close>

theorem query_roundtrip:
  assumes "CHR ''?'' \<notin> set path" and "\<forall>(k, v) \<in> set kvs. key_ok k \<and> CHR 0x00 \<notin> set v"
  shows "evhttp_parse_query (path @ CHR ''?'' # query_text kvs) = map (\<lambda>(k, v). (k, plus_to_space True v)) kvs"
  using query_loop_text [OF assms(2), of "[]"] strsep_hit [OF assms(1), of "query_text kvs"]
  by (simp add: evhttp_parse_query_def)

theorem query_roundtrip_witness:
  "evhttp_parse_query (''/pipeline/set'' @ CHR ''?'' # query_text [(''name'', ''a&b''), (''value'', ''1+1'')]) =
     [(''name'', ''a&b''), (''value'', ''1 1'')]"
  using query_roundtrip [of "''/pipeline/set''" "[(''name'', ''a&b''), (''value'', ''1+1'')]"]
  by (simp add: key_ok_def plus_to_space_def)

text \<open>C36. Decoding undoes encoding: applied to the result of
  \<open>evhttp_encode_uri\<close>, \<open>evhttp_decode_uri\<close> gives the original string.\<close>

theorem uri_roundtrip:
  assumes "CHR 0x00 \<notin> set s"
  shows "evhttp_decode_uri (evhttp_encode_uri s) = s"
  using assms by (simp add: evhttp_decode_uri_def decode_encode plus_to_space_def c_str_id)

theorem uri_roundtrip_witness: "evhttp_decode_uri (evhttp_encode_uri ''100% a?b+c'') = ''100% a?b+c''"
  by (rule uri_roundtrip) simp

section \<open>Dispatch\<close>

lemma callback_match:
  assumes "CHR 0x00 \<notin> set w" "CHR ''?'' \<in> set uri" "CHR 0x00 \<notin> set uri"
  shows "strncmp_eq w uri (length (takeWhile (\<lambda>c. c \<noteq> CHR ''?'') uri)) \<and>
      (w @ [CHR 0x00]) ! length (takeWhile (\<lambda>c. c \<noteq> CHR ''?'') uri) = CHR 0x00 \<longleftrightarrow>
    w = takeWhile (\<lambda>c. c \<noteq> CHR ''?'') uri"
proof -
  let ?p = "takeWhile (\<lambda>c. c \<noteq> CHR ''?'') uri"
  have "length ?p < length uri"
    using assms(2) by (induction uri) auto
  then have t: "take (length ?p) (uri @ [CHR 0x00]) = ?p" by (simp flip: takeWhile_eq_take)
  show ?thesis
  proof
    assume a: "strncmp_eq w uri (length ?p) \<and> (w @ [CHR 0x00]) ! length ?p = CHR 0x00"
    then have e: "take (length ?p) (w @ [CHR 0x00]) = ?p" using t by (simp add: strncmp_eq_def)
    have "length ?p \<le> length w + 1" using arg_cong [OF e, of length] by simp
    have "\<not> length ?p < length w"
    proof
      assume "length ?p < length w"
      then have "w ! length ?p = CHR 0x00" using a by (simp add: nth_append)
      with assms(1) \<open>length ?p < length w\<close> show False by (metis nth_mem)
    qed
    moreover have "length ?p \<noteq> length w + 1"
    proof
      assume "length ?p = length w + 1"
      then have "w @ [CHR 0x00] = ?p" using e by simp
      then have "CHR 0x00 \<in> set ?p" by (metis in_set_conv_decomp)
      then show False using assms(3) by (auto dest: set_takeWhileD)
    qed
    ultimately have "length ?p = length w" using \<open>length ?p \<le> length w + 1\<close> by simp
    with e show "w = ?p" by simp
  next
    assume "w = ?p"
    then show "strncmp_eq w uri (length ?p) \<and> (w @ [CHR 0x00]) ! length ?p = CHR 0x00"
      using t by (simp add: strncmp_eq_def)
  qed
qed

lemma dispatch_map_of:
  assumes "\<forall>(w, cb) \<in> set cbs. CHR 0x00 \<notin> set w" and "CHR 0x00 \<notin> set uri"
  shows "evhttp_dispatch_callback cbs uri = map_of cbs (takeWhile (\<lambda>c. c \<noteq> CHR ''?'') uri)"
  using assms
proof (induction cbs)
  case (Cons b cbs)
  obtain w cb where b: "b = (w, cb)" by (cases b)
  have w: "CHR 0x00 \<notin> set w" using Cons.prems(1) b by auto
  have IH: "evhttp_dispatch_callback cbs uri = map_of cbs (takeWhile (\<lambda>c. c \<noteq> CHR ''?'') uri)"
    using Cons by auto
  show ?case
  proof (cases "CHR ''?'' \<in> set uri")
    case True
    then show ?thesis using callback_match [OF w True assms(2)] IH b by (auto simp: Let_def)
  next
    case False
    then have "takeWhile (\<lambda>c. c \<noteq> CHR ''?'') uri = uri" by (auto simp: takeWhile_eq_all_conv)
    from IH [unfolded this] show ?thesis unfolding \<open>takeWhile (\<lambda>c. c \<noteq> CHR ''?'') uri = uri\<close> using False b by (auto simp: Let_def)
  qed
qed simp

text \<open>C37. A request goes to the first callback registered under exactly the part of its URI
  before the question mark; no other callback is a prefix match or a longer match.\<close>

theorem dispatch_exact:
  assumes "\<forall>(w, cb) \<in> set cbs. CHR 0x00 \<notin> set w" and "CHR 0x00 \<notin> set uri"
  shows "evhttp_dispatch_callback cbs uri = map_of cbs (takeWhile (\<lambda>c. c \<noteq> CHR ''?'') uri)"
  by (rule dispatch_map_of [OF assms])

theorem dispatch_exact_witness:
  "evhttp_dispatch_callback [(''/pipeline/set'', 1), (''/pipeline/get'', 2 :: nat)] ''/pipeline/get?name=a'' = Some 2"
  using dispatch_exact [of "[(''/pipeline/set'', 1), (''/pipeline/get'', 2 :: nat)]" "''/pipeline/get?name=a''"] by simp

section \<open>Escaping\<close>

lemma html_replace_safe: "set (html_replace c) \<inter> {CHR ''<'', CHR ''>'', CHR 0x22, CHR 0x27} = {}"
  by (auto simp: html_replace_def)

lemma html_replace_prefix:
  assumes "html_replace c @ x = html_replace d @ y"
  shows "c = d \<and> x = y"
proof -
  have one: "c = d \<and> x = y" if "html_replace c = [c]" "c \<noteq> CHR ''&''" "html_replace c @ x = html_replace d @ y" for c d x y
    using that(1,3) that(2) by (cases "html_replace d = [d]") (auto simp: html_replace_def split: if_splits)
  have special: "html_replace e = [e] \<and> e \<noteq> CHR ''&'' \<or> e \<in> {CHR ''<'', CHR ''>'', CHR 0x22, CHR 0x27, CHR ''&''}" for e
    by (auto simp: html_replace_def)
  consider "html_replace c = [c]" "c \<noteq> CHR ''&''" | "html_replace d = [d]" "d \<noteq> CHR ''&''"
    | "c \<in> {CHR ''<'', CHR ''>'', CHR 0x22, CHR 0x27, CHR ''&''}" "d \<in> {CHR ''<'', CHR ''>'', CHR 0x22, CHR 0x27, CHR ''&''}"
    using special [of c] special [of d] by blast
  then show ?thesis
  proof cases
    case 1
    then show ?thesis using one assms by blast
  next
    case 2
    then show ?thesis using one assms by metis
  next
    case 3
    then show ?thesis using assms by (elim insertE emptyE) (simp_all add: html_replace_def)
  qed
qed

lemma html_replace_nonempty: "html_replace c \<noteq> []"
  by (simp add: html_replace_def)

text \<open>C39. The escaped text holds none of the characters that open or end a tag or an
  attribute: no angle bracket and no quote, so the page for an unknown URI shows the URI and nothing
  else. No two texts have the same escape.\<close>

theorem htmlescape_safe:
  "set (evhttp_htmlescape s) \<inter> {CHR ''<'', CHR ''>'', CHR 0x22, CHR 0x27} = {} \<and> inj evhttp_htmlescape"
proof
  show "set (evhttp_htmlescape s) \<inter> {CHR ''<'', CHR ''>'', CHR 0x22, CHR 0x27} = {}"
    using html_replace_safe unfolding evhttp_htmlescape_def by fastforce
  show "inj evhttp_htmlescape"
  proof (rule injI)
    fix s t assume "evhttp_htmlescape s = evhttp_htmlescape t"
    then show "s = t"
    proof (induction s arbitrary: t)
      case Nil
      then show ?case by (cases t) (simp_all add: evhttp_htmlescape_def html_replace_nonempty)
    next
      case (Cons c s)
      then obtain d t' where t: "t = d # t'" by (cases t) (simp_all add: evhttp_htmlescape_def html_replace_nonempty)
      from Cons.prems t html_replace_prefix have "c = d" "evhttp_htmlescape s = evhttp_htmlescape t'"
        by (auto simp: evhttp_htmlescape_def)
      with Cons.IH t show ?case by simp
    qed
  qed
qed

section \<open>Headers on the wire\<close>

text \<open>A header that can be sent: a line of its own that is no continuation line.\<close>

definition header_ok :: "string \<times> string \<Rightarrow> bool" where
  "header_ok kv \<longleftrightarrow>
     list_all (\<lambda>c. \<not> is_crlf c \<and> c \<noteq> CHR 0x00) (fst kv @ snd kv) \<and> fst kv \<noteq> '''' \<and> CHR '':'' \<notin> set (fst kv) \<and>
     hd (fst kv) \<noteq> CHR '' '' \<and> hd (fst kv) \<noteq> CHR 0x09 \<and> \<not> starts (CHR '' '') (snd kv)"

lemma readline_crlf:
  assumes "list_all (\<lambda>c. \<not> is_crlf c \<and> c \<noteq> CHR 0x00) l"
  shows "evbuffer_readline (l @ crlf @ r) = Some (l, r)"
proof -
  have l: "\<forall>c \<in> set l. \<not> is_crlf c" "CHR 0x00 \<notin> set l" using assms by (auto simp: list_all_iff)
  have "takeWhile (\<lambda>c. \<not> is_crlf c) (l @ crlf @ r) = l" "dropWhile (\<lambda>c. \<not> is_crlf c) (l @ crlf @ r) = crlf @ r"
    using l(1) by (simp_all add: takeWhile_append2 dropWhile_append2 crlf_def is_crlf_def)
  then show ?thesis using c_str_id [OF l(2)] by (simp add: evbuffer_readline_def crlf_def is_crlf_def)
qed

lemma valid_value_line: "\<forall>c \<in> set v. \<not> is_crlf c \<Longrightarrow> evhttp_header_is_valid_value v"
proof -
  assume "\<forall>c \<in> set v. \<not> is_crlf c"
  then have "dropWhile (\<lambda>c. \<not> is_crlf c) v = []" by (simp add: dropWhile_eq_Nil_conv)
  then show ?thesis by (simp only: evhttp_header_is_valid_value.simps [of v] list.case)
qed

lemma header_line_ok:
  assumes "header_ok (k, v)"
  shows "header_line hs (k @ '': '' @ v) = (0, hs @ [(k, v)])"
proof -
  have k: "k \<noteq> ''''" "CHR '':'' \<notin> set k" "hd k \<noteq> CHR '' ''" "hd k \<noteq> CHR 0x09" "\<not> starts (CHR '' '') v"
    "\<forall>c \<in> set (k @ v). \<not> is_crlf c" using assms by (auto simp: header_ok_def list_all_iff)
  have "strsep (CHR '':'') (Some (k @ '': '' @ v)) = (Some k, Some ('' '' @ v))" using strsep_hit [OF k(2)] by simp
  moreover have "dropWhile (\<lambda>c. c = CHR '' '') ('' '' @ v) = v" using k(5) by (cases v) auto
  moreover have "CHR 0x0D \<notin> set k" "CHR 0x0A \<notin> set k" using k(6) by (auto simp: is_crlf_def)
  moreover have "evhttp_header_is_valid_value v" using k(6) by (intro valid_value_line) auto
  ultimately show ?thesis
    using k(1,3,4) by (simp add: header_line_def evhttp_add_header_def evhttp_add_header_internal_def)
qed

text \<open>C24. The headers of a reply can be read by the same library: \<open>evhttp_parse_headers\<close>, given the
  lines \<open>evhttp_make_header\<close> writes for a list of headers and the body after them, reports that it
  has read all headers, adds exactly these headers in order to the ones it had, and leaves
  the body in the buffer.\<close>

theorem headers_roundtrip:
  assumes "\<forall>kv \<in> set hs. header_ok kv"
  shows "evhttp_parse_headers h0 (headers_text hs @ body) = (ALL_DATA_READ, h0 @ hs, body)"
  using assms
proof (induction hs arbitrary: h0)
  case Nil
  have "evbuffer_readline (crlf @ body) = Some ('''', body)" using readline_crlf [of "''''" body] by simp
  then show ?case by (subst evhttp_parse_headers.simps) (simp add: headers_text_def)
next
  case (Cons kv hs)
  obtain k v where kv: "kv = (k, v)" by (cases kv)
  have ok: "header_ok (k, v)" using Cons.prems kv by simp
  have "list_all (\<lambda>c. \<not> is_crlf c \<and> c \<noteq> CHR 0x00) (k @ '': '' @ v)"
    using ok by (simp add: header_ok_def is_crlf_def)
  then have r: "evbuffer_readline (headers_text (kv # hs) @ body) = Some (k @ '': '' @ v, headers_text hs @ body)"
    using readline_crlf [of "k @ '': '' @ v" "headers_text hs @ body"] by (simp add: headers_text_def kv)
  have ne: "k @ '': '' @ v \<noteq> ''''" by simp
  show ?case
    using Cons r header_line_ok [OF ok] ne kv
    by (subst evhttp_parse_headers.simps) (simp add: Let_def del: append_is_Nil_conv)
qed

theorem headers_roundtrip_witness:
  "evhttp_parse_headers [] (headers_text [(''Content-Type'', ''application/json'')] @ ''{}'') =
     (ALL_DATA_READ, [(''Content-Type'', ''application/json'')], ''{}'')"
  using headers_roundtrip [of "[(''Content-Type'', ''application/json'')]" "[]" "''{}''"]
  by (simp add: header_ok_def is_crlf_def)

end
