(* ===== verification/Movid_Web.thy ===== *)
theory Movid_Web
  imports Movid_Removal Movid_Json Movid_Http
begin

text \<open>
  \<open>src/movid.cpp\<close>: the web interface that creates, connects, configures and removes
  modules while the program runs, the streams of images to the browser, and the main loop.

  A handler is a function of the state of the application: the pipeline (whose
  modules live in the store), the flag \<open>want_quit\<close>, the delay of the main loop, the files of
  the preset slots and the open image streams. It gives the reply that is sent, and the new state.
  JSON is built with the functions of cJSON; an item that the source adds to its parent
  before it fills it is filled first here, which gives the same tree. A module that has
  died or a failed assertion is a failure of the handler. The functions of OpenCV are not
  modelled: whether the stream module has an image to send is an argument. A handler that is
  called without a URI clears a header list that was never initialised: \<open>Undefined\<close>.
\<close>

section \<open>State and replies\<close>

record chunk_req_state =
  ck_stream :: maddr
  ck_closed :: bool
  ck_delay :: int

record app =
  ap_pl :: moPipeline
  ap_heap :: heap
  ap_want_quit :: bool
  ap_delay :: int
  ap_slots :: "string \<Rightarrow> string option"
  ap_streams :: "chunk_req_state list"

record reply =
  rp_code :: int
  rp_reason :: string
  rp_headers :: evkeyvalq
  rp_body :: string

type_synonym handler = "app \<Rightarrow> (reply \<times> app) result"

text \<open>What the program is linked with: the methods of the classes, the registered classes, the
  streams a destructor deletes.\<close>

record env =
  ev_vt :: dispatch
  ev_db :: factory
  ev_frees :: "moModule \<Rightarrow> saddr list"

definition ok_reply :: "string \<Rightarrow> string \<Rightarrow> reply" where
  "ok_reply ctype body =
     \<lparr>rp_code = 200, rp_reason = ''Everything is fine'', rp_headers = [(''Content-Type'', ctype)], rp_body = body\<rparr>"

text \<open>\<open>strlen\<close> of a null result of the printer.\<close>

definition web_json :: "cJSON result \<Rightarrow> handler" where
  "web_json item st =
     bindR item (\<lambda>r. bindR (cJSON_Print r) (\<lambda>out.
       case out of None \<Rightarrow> Inl NullDeref | Some t \<Rightarrow> Inr (ok_reply ''application/json'' t, st)))"

fun json_object :: "(string \<times> cJSON result) list \<Rightarrow> cJSON \<Rightarrow> cJSON result" where
  "json_object [] o1 = Inr o1"
| "json_object ((k, v) # kvs) o1 = bindR v (\<lambda>c. json_object kvs (cJSON_AddItemToObject o1 k c))"

abbreviation jobj :: "(string \<times> cJSON result) list \<Rightarrow> cJSON result" where
  "jobj kvs \<equiv> json_object kvs cJSON_CreateObject"

abbreviation jstr :: "string \<Rightarrow> cJSON result" where
  "jstr s \<equiv> Inr (cJSON_CreateString (c_str s))"

abbreviation jnum :: "double \<Rightarrow> cJSON result" where
  "jnum d \<equiv> cJSON_CreateNumber d"

abbreviation jint :: "int \<Rightarrow> cJSON result" where
  "jint i \<equiv> cJSON_CreateNumber (of_int i)"

fun json_array :: "cJSON result list \<Rightarrow> cJSON \<Rightarrow> cJSON result" where
  "json_array [] a = Inr a"
| "json_array (v # vs) a = bindR v (\<lambda>c. json_array vs (cJSON_AddItemToArray a c))"

definition web_message :: "string \<Rightarrow> int \<Rightarrow> handler" where
  "web_message message success = web_json (jobj [(''success'', jint success), (''message'', jstr message)])"

definition web_error :: "string \<Rightarrow> handler" where
  "web_error message = web_message message 0"

definition web_ok :: handler where
  "web_ok = web_message ''ok'' 1"

definition web_status :: handler where
  "web_status = web_message ''ok'' 1"

section \<open>Arguments\<close>

definition with_query :: "string option \<Rightarrow> (evkeyvalq \<Rightarrow> handler) \<Rightarrow> handler" where
  "with_query uri k st = (case uri of None \<Rightarrow> Inl Undefined | Some u \<Rightarrow> k (evhttp_parse_query u) st)"

definition need_arg :: "evkeyvalq \<Rightarrow> string \<Rightarrow> string \<Rightarrow> (string \<Rightarrow> handler) \<Rightarrow> handler" where
  "need_arg headers key msg k st =
     (case evhttp_find_header headers key of None \<Rightarrow> web_error msg st | Some v \<Rightarrow> k v st)"

definition int_arg :: "evkeyvalq \<Rightarrow> string \<Rightarrow> int \<Rightarrow> int" where
  "int_arg headers key d = (case evhttp_find_header headers key of None \<Rightarrow> d | Some v \<Rightarrow> atoi v)"

definition set_heap :: "heap \<Rightarrow> app \<Rightarrow> app" where
  "set_heap h st = st\<lparr>ap_heap := h\<rparr>"

definition lookup_module :: "string \<Rightarrow> (maddr option \<Rightarrow> handler) \<Rightarrow> handler" where
  "lookup_module i k st = bindR (getModuleById i (ap_pl st) (ap_heap st)) (\<lambda>(m, h). k m (set_heap h st))"

definition need_object :: "string \<Rightarrow> string \<Rightarrow> (maddr \<Rightarrow> handler) \<Rightarrow> handler" where
  "need_object i msg k = lookup_module i (\<lambda>m. case m of None \<Rightarrow> web_error msg | Some a \<Rightarrow> k a)"

definition do_heap :: "(heap \<Rightarrow> heap result) \<Rightarrow> handler \<Rightarrow> handler" where
  "do_heap f k st = bindR (f (ap_heap st)) (\<lambda>h. k (set_heap h st))"

section \<open>Building and wiring\<close>

definition web_pipeline_create :: "env \<Rightarrow> string option \<Rightarrow> handler" where
  "web_pipeline_create ev uri =
     with_query uri (\<lambda>headers. need_arg headers ''objectname'' ''missing objectname'' (\<lambda>name st.
       bindR (factory_create (ev_db ev) name (ap_heap st)) (\<lambda>(m, h).
         case m of
           None \<Rightarrow> web_error ''invalid objectname'' (set_heap h st)
         | Some a \<Rightarrow>
             bindR (addElement (Some a) (ap_pl st) h) (\<lambda>(p, h1).
             bindR (property_get ''id'' a h1) (\<lambda>(i, h2).
               web_message i 1 (st\<lparr>ap_pl := p, ap_heap := h2\<rparr>))))))"

definition web_pipeline_connect :: "string option \<Rightarrow> handler" where
  "web_pipeline_connect uri =
     with_query uri (\<lambda>headers.
       need_arg headers ''out'' ''missing out'' (\<lambda>out_name.
       need_arg headers ''in'' ''missing in'' (\<lambda>in_name.
         let outidx = int_arg headers ''outidx'' 0; inidx = int_arg headers ''inidx'' 0 in
         lookup_module in_name (\<lambda>in_mod.
         lookup_module out_name (\<lambda>out_mod.
           case in_mod of
             None \<Rightarrow> web_error ''in object not found''
           | Some a \<Rightarrow>
               if out_mod = None \<and> out_name \<noteq> ''NULL'' then web_error ''out object not found''
               else if out_name = ''NULL'' then do_heap (setInput None inidx a) web_ok
               else (case out_mod of
                       None \<Rightarrow> (\<lambda>st. Inl NullDeref)
                     | Some b \<Rightarrow> do_heap (\<lambda>h. bindR (get_module h b) (\<lambda>m.
                                    bindR (getOutput m outidx) (\<lambda>s. setInput s inidx a h))) web_ok))))))"

definition web_pipeline_get :: "string option \<Rightarrow> handler" where
  "web_pipeline_get uri =
     with_query uri (\<lambda>headers.
       need_arg headers ''objectname'' ''missing objectname'' (\<lambda>i.
       need_arg headers ''name'' ''missing name'' (\<lambda>name.
       need_object i ''object not found'' (\<lambda>a st.
         bindR (property_get name a (ap_heap st)) (\<lambda>(v, h). web_message v 1 (set_heap h st))))))"

text \<open>The loop of \<open>web_pipeline_set\<close>: as long as there is a name and a value, set and remove them.\<close>

lemma remove_header_shorter:
  "evhttp_find_header hs key = Some v \<Longrightarrow> length (snd (evhttp_remove_header hs key)) < length hs"
  by (induction hs key rule: evhttp_remove_header.induct) (auto split: if_splits)

lemma remove_header_le: "length (snd (evhttp_remove_header hs key)) \<le> length hs"
  by (induction hs key rule: evhttp_remove_header.induct) auto

lemma remove_pair_shorter:
  assumes "evhttp_find_header hs k = Some v"
  shows "length (snd (evhttp_remove_header (snd (evhttp_remove_header hs k)) k')) < length hs"
  using remove_header_shorter [OF assms] remove_header_le [of "snd (evhttp_remove_header hs k)" k'] by linarith

function set_loop :: "env \<Rightarrow> maddr \<Rightarrow> evkeyvalq \<Rightarrow> heap \<Rightarrow> heap result" where
  "set_loop ev a headers h =
     (case (evhttp_find_header headers ''name'', evhttp_find_header headers ''value'') of
        (Some name, Some v) \<Rightarrow>
          bindR (property_set (ev_vt ev) name v a h) (\<lambda>h1.
            set_loop ev a (snd (evhttp_remove_header (snd (evhttp_remove_header headers ''name'')) ''value'')) h1)
      | _ \<Rightarrow> Inr h)"
  by pat_completeness auto
termination
  by (relation "measure (\<lambda>(ev, a, headers, h). length headers)") (auto intro: remove_pair_shorter [OF sym])

declare set_loop.simps [simp del]

definition web_pipeline_set :: "env \<Rightarrow> string option \<Rightarrow> handler" where
  "web_pipeline_set ev uri =
     with_query uri (\<lambda>headers.
       need_arg headers ''objectname'' ''missing objectname'' (\<lambda>i.
       need_object i ''object not found'' (\<lambda>a. do_heap (set_loop ev a headers) web_ok)))"

section \<open>Removing and running\<close>

definition web_pipeline_remove :: "env \<Rightarrow> string option \<Rightarrow> handler" where
  "web_pipeline_remove ev uri =
     with_query uri (\<lambda>headers.
       need_arg headers ''objectname'' ''missing objectname'' (\<lambda>i.
       need_object i ''object not found'' (\<lambda>a st.
         bindR (remove_module (ev_vt ev) (ev_frees ev) a (ap_pl st) (ap_heap st)) (\<lambda>(p, h).
           web_ok (st\<lparr>ap_pl := p, ap_heap := h\<rparr>)))))"

definition web_pipeline_start :: "env \<Rightarrow> double \<Rightarrow> handler" where
  "web_pipeline_start ev now st =
     bindR (pipe_start (ev_vt ev) now (ap_pl st) (ap_heap st)) (\<lambda>h. web_ok (set_heap h st))"

definition web_pipeline_stop :: "env \<Rightarrow> handler" where
  "web_pipeline_stop ev st =
     bindR (pipe_stop (ev_vt ev) (ap_pl st) (ap_heap st)) (\<lambda>h. web_ok (set_heap h st))"

definition web_pipeline_quit :: handler where
  "web_pipeline_quit st =
     mapR (\<lambda>(r, st1). (r, st1\<lparr>ap_want_quit := False\<rparr>)) (web_message ''bye'' 1 st)"

definition web_pipeline_gui :: "env \<Rightarrow> string option \<Rightarrow> handler" where
  "web_pipeline_gui ev uri =
     with_query uri (\<lambda>headers.
       need_arg headers ''objectname'' ''missing objectname'' (\<lambda>i.
       need_object i ''object not found'' (\<lambda>a st.
         bindR (getGui (ev_vt ev) a (ap_heap st)) (\<lambda>(g, h).
           Inr (ok_reply ''text/plain'' (concat (map (\<lambda>l. c_str l @ [CHR 0x0A]) g)), set_heap h st)))))"

section \<open>Reports\<close>

text \<open>The reports read the properties of the modules one after the other; reading the id of a module
  may create the property.\<close>

definition stats_json :: "mo_module_stats_t \<Rightarrow> cJSON result" where
  "stats_json s =
     jobj [(''average_fps'', jnum (average_fps s)), (''average_process_time'', jnum (average_process_time s)),
           (''average_wait_time'', jnum (average_wait_time s)),
           (''total_process_frame'', jnum (dbl (of_nat (total_process_frame s)))),
           (''total_process_time'', jnum (total_process_time s)), (''total_wait_time'', jnum (total_wait_time s))]"

fun stats_loop :: "maddr list \<Rightarrow> heap \<Rightarrow> ((string \<times> cJSON result) list \<times> heap) result" where
  "stats_loop [] h = Inr ([], h)"
| "stats_loop (a # as) h =
     bindR (property_get ''id'' a h) (\<lambda>(i, h1). bindR (get_module h1 a) (\<lambda>m.
       mapR (\<lambda>(js, h2). ((c_str i, stats_json (stats m)) # js, h2)) (stats_loop as h1)))"

definition web_pipeline_stats :: handler where
  "web_pipeline_stats st =
     bindR (stats_loop (pl_modules (ap_pl st)) (ap_heap st)) (\<lambda>(js, h).
       web_json (jobj [(''success'', jint 1), (''message'', jstr ''ok''), (''stats'', jobj js)]) (set_heap h st))"

definition props_json :: "(string, moProperty) smap \<Rightarrow> cJSON result" where
  "props_json ps = jobj (map (\<lambda>(k, p). (c_str k, bindR (asString p) (\<lambda>v. jstr v))) ps)"

definition prop_info_json :: "moProperty \<Rightarrow> cJSON result" where
  "prop_info_json p =
     jobj ([(''type'', jstr (getPropertyTypeName (ptype p))), (''readonly'', jint (if readonly p then 1 else 0))] @
       (if have_max p then [(''max'', jint (val_max p))] else []) @
       (if have_min p then [(''min'', jint (val_min p))] else []) @
       (if have_choices p then [(''choices'', jstr (val_choices p))] else []))"

definition io_json :: "(int \<Rightarrow> moDataStreamInfo option) \<Rightarrow> int \<Rightarrow> (string \<times> cJSON result) list result" where
  "io_json infos k =
     (case infos k of
        None \<Rightarrow> Inl NullDeref
      | Some f \<Rightarrow> Inr [(''index'', jint k), (''name'', jstr (info_name f)), (''type'', jstr (info_type f))])"

definition used_json :: "saddr option \<Rightarrow> string \<times> cJSON result" where
  "used_json ds = (''used'', jint (if ds = None then 0 else 1))"

fun inputs_json :: "moModule \<Rightarrow> nat \<Rightarrow> nat \<Rightarrow> cJSON result list result" where
  "inputs_json m k 0 = Inr []"
| "inputs_json m k (Suc n) =
     bindR (getInput m (int k)) (\<lambda>ds. bindR (io_json (getInputInfos m) (int k)) (\<lambda>io.
       mapR (Cons (jobj (io @ [used_json ds]))) (inputs_json m (Suc k) n)))"

text \<open>The ids of the observers of an output, under their numbers.\<close>

fun observers_json :: "nat \<Rightarrow> maddr list \<Rightarrow> heap \<Rightarrow> ((string \<times> cJSON result) list \<times> heap) result" where
  "observers_json j [] h = Inr ([], h)"
| "observers_json j (b # bs) h =
     bindR (property_get ''id'' b h) (\<lambda>(i, h1).
       mapR (\<lambda>(js, h2). ((show_nat j, jstr i) # js, h2)) (observers_json (Suc j) bs h1))"

fun outputs_json :: "maddr \<Rightarrow> nat \<Rightarrow> nat \<Rightarrow> heap \<Rightarrow> (cJSON result list \<times> heap) result" where
  "outputs_json a k 0 h = Inr ([], h)"
| "outputs_json a k (Suc n) h =
     bindR (get_module h a) (\<lambda>m. bindR (getOutput m (int k)) (\<lambda>ds. bindR (io_json (getOutputInfos m) (int k)) (\<lambda>io.
     bindR (case ds of
              None \<Rightarrow> Inr ([], h)
            | Some s \<Rightarrow> bindR (get_stream h s) (\<lambda>d. observers_json 0 (observers d) h)) (\<lambda>(obs, h1).
       mapR (\<lambda>(js, h2). (jobj (io @ [used_json ds, (''observers'', jobj obs)]) # js, h2)) (outputs_json a (Suc k) n h1)))))"

text \<open>\<open>getCapabilities() & MO_MODULE_GUI ? 1 : 0\<close>\<close>

definition gui_flag :: "moModule \<Rightarrow> int" where
  "gui_flag m = (if capabilities m AND MO_MODULE_GUI = 0 then 0 else 1)"

definition array_of :: "string \<Rightarrow> cJSON result list \<Rightarrow> (string \<times> cJSON result) list" where
  "array_of key js = (if js = [] then [] else [(key, json_array js cJSON_CreateArray)])"

definition module_status :: "maddr \<Rightarrow> heap \<Rightarrow> ((string \<times> cJSON result) \<times> heap) result" where
  "module_status a h =
     bindR (property_get ''id'' a h) (\<lambda>(i, h1). bindR (get_module h1 a) (\<lambda>m.
     bindR (inputs_json m 0 (getInputCount m)) (\<lambda>ins.
     mapR (\<lambda>(outs, h2).
       ((c_str i,
         jobj ([(''name'', jstr (class_name m)), (''description'', jstr (class_description m)),
                (''author'', jstr (class_author m)), (''running'', jint (if is_started m then 1 else 0)),
                (''gui'', jint (gui_flag m)), (''properties'', props_json (properties m)),
                (''propertiesInfos'', jobj (map (\<lambda>(k, p). (c_str k, prop_info_json p)) (properties m)))] @
               array_of ''inputs'' ins @ array_of ''outputs'' outs)), h2))
       (outputs_json a 0 (getOutputCount m) h1))))"

fun status_loop :: "maddr list \<Rightarrow> heap \<Rightarrow> ((string \<times> cJSON result) list \<times> heap) result" where
  "status_loop [] h = Inr ([], h)"
| "status_loop (a # as) h =
     bindR (module_status a h) (\<lambda>(j, h1). mapR (\<lambda>(js, h2). (j # js, h2)) (status_loop as h1))"

definition web_pipeline_status :: handler where
  "web_pipeline_status st =
     bindR (get_module (ap_heap st) (pl_this (ap_pl st))) (\<lambda>pm.
     bindR (status_loop (pl_modules (ap_pl st)) (ap_heap st)) (\<lambda>(js, h).
       web_json (jobj [(''success'', jint 1), (''message'', jstr ''ok''),
         (''status'', jobj [(''version'', jstr ''0.2''), (''size'', jint (int (length (pl_modules (ap_pl st))))),
            (''running'', jint (if is_started pm then 1 else 0)), (''modules'', jobj js)])]) (set_heap h st)))"

section \<open>The catalogue of classes\<close>

fun infos_json :: "(int \<Rightarrow> saddr option result) \<Rightarrow> (int \<Rightarrow> moDataStreamInfo option) \<Rightarrow> nat \<Rightarrow> nat \<Rightarrow> cJSON result list result" where
  "infos_json get infos k 0 = Inr []"
| "infos_json get infos k (Suc n) =
     bindR (get (int k)) (\<lambda>_. bindR (io_json infos (int k)) (\<lambda>io.
       mapR (Cons (jobj io)) (infos_json get infos (Suc k) n)))"

definition catalogue_io :: "moModule \<Rightarrow> (string \<times> cJSON result) list result" where
  "catalogue_io m =
     bindR (infos_json (getInput m) (getInputInfos m) 0 (getInputCount m)) (\<lambda>ins.
     mapR (\<lambda>outs. array_of ''inputs'' ins @ array_of ''outputs'' outs)
       (infos_json (getOutput m) (getOutputInfos m) 0 (getOutputCount m)))"

text \<open>Each class of the list is created, described and deleted.\<close>

fun list_loop :: "env \<Rightarrow> string list \<Rightarrow> heap \<Rightarrow> ((string \<times> cJSON result) list \<times> heap) result" where
  "list_loop ev [] h = Inr ([], h)"
| "list_loop ev (c # cs) h =
     bindR (factory_create (ev_db ev) c h) (\<lambda>(ma, h1).
       case ma of
         None \<Rightarrow> Inl NullDeref
       | Some a \<Rightarrow>
           bindR (get_module h1 a) (\<lambda>m. bindR (catalogue_io m) (\<lambda>io.
           bindR (delete_module (ev_frees ev) a h1) (\<lambda>h2.
             mapR (\<lambda>(js, h3).
               ((c_str (class_name m),
                 jobj ([(''name'', jstr (class_name m)), (''description'', jstr (class_description m)),
                        (''author'', jstr (class_author m)), (''gui'', jint (gui_flag m))] @ io)) # js, h3))
               (list_loop ev cs h2)))))"

definition web_factory_list :: "env \<Rightarrow> handler" where
  "web_factory_list ev st =
     (let names = factory_list (ev_db ev) in
      bindR (list_loop ev names (ap_heap st)) (\<lambda>(details, h).
        web_json (jobj [(''success'', jint 1), (''message'', jstr ''ok''),
          (''list'', json_array (map (\<lambda>n. jstr n) names) cJSON_CreateArray), (''details'', jobj details)]) (set_heap h st)))"

definition web_factory_describe :: "env \<Rightarrow> string option \<Rightarrow> handler" where
  "web_factory_describe ev uri =
     with_query uri (\<lambda>headers. need_arg headers ''name'' ''missing name'' (\<lambda>name st.
       bindR (factory_create (ev_db ev) name (ap_heap st)) (\<lambda>(ma, h).
         case ma of
           None \<Rightarrow> web_error ''invalid name'' (set_heap h st)
         | Some a \<Rightarrow>
             bindR (get_module h a) (\<lambda>m. bindR (catalogue_io m) (\<lambda>io.
             bindR (delete_module (ev_frees ev) a h) (\<lambda>h1.
               web_json (jobj [(''success'', jint 1), (''message'', jstr ''ok''),
                 (''describe'', jobj ([(''name'', jstr (class_name m)), (''description'', jstr (class_description m)),
                    (''author'', jstr (class_author m)), (''running'', jint (if is_started m then 1 else 0)),
                    (''gui'', jint (gui_flag m)), (''properties'', props_json (properties m))] @ io))]) (set_heap h1 st)))))))"

section \<open>Slots, dump, files\<close>

definition slot_name :: "int \<Rightarrow> string" where
  "slot_name i = ''presets/slots/slot-'' @ show_int i @ ''.txt''"

text \<open>\<open>mtime\<close> is what \<open>stat\<close> reports, \<open>None\<close> when it fails.\<close>

definition web_pipeline_slot_refresh :: "(string \<Rightarrow> int option) \<Rightarrow> handler" where
  "web_pipeline_slot_refresh mtime =
     web_json (jobj [(''success'', jint 1), (''message'', jstr ''ok''),
       (''slots'', json_array (map (\<lambda>i. jobj [(''lastmod'', case mtime (slot_name i) of None \<Rightarrow> jint 0 | Some t \<Rightarrow> jint t)]) [1..10])
          cJSON_CreateArray)])"

definition clear_app :: "env \<Rightarrow> app \<Rightarrow> app result" where
  "clear_app ev st =
     mapR (\<lambda>(p, h). st\<lparr>ap_pl := p, ap_heap := h\<rparr>) (pipe_clear (ev_vt ev) (ev_frees ev) (ap_pl st) (ap_heap st))"

definition web_pipeline_slot_load :: "env \<Rightarrow> string option \<Rightarrow> handler" where
  "web_pipeline_slot_load ev uri =
     with_query uri (\<lambda>headers. need_arg headers ''idx'' ''missing idx'' (\<lambda>s_idx st.
       let slotidx = atoi s_idx in
       if slotidx < 1 \<or> slotidx > 10 then web_error ''invalid idx'' st
       else bindR (clear_app ev st) (\<lambda>st1.
            bindR (pipe_parse (ev_vt ev) (ev_db ev) (ap_slots st1 (slot_name slotidx)) (ap_pl st1) (ap_heap st1) (ap_delay st1))
              (\<lambda>(ok, ps).
                let st2 = st1\<lparr>ap_pl := ps_pl ps, ap_heap := ps_heap ps, ap_delay := ps_delay ps\<rparr> in
                if \<not> ok then web_error ''unable to parse slot'' st2 else web_ok st2))))"

text \<open>\<open>writable\<close> tells whether the slot can be opened for writing.\<close>

definition web_pipeline_slot_save :: "string \<Rightarrow> (string \<Rightarrow> bool) \<Rightarrow> string option \<Rightarrow> handler" where
  "web_pipeline_slot_save date writable uri st0 =
     bindR (pipe_serializeCreation date (ap_pl st0) (ap_heap st0)) (\<lambda>(sout, h).
       with_query uri (\<lambda>headers. need_arg headers ''idx'' ''missing idx'' (\<lambda>s_idx st.
         let slotidx = atoi s_idx in
         if slotidx < 1 \<or> slotidx > 10 then web_error ''invalid idx'' st
         else if \<not> writable (slot_name slotidx) then web_error ''unable to open slot for writing'' st
         else web_ok (st\<lparr>ap_slots := (ap_slots st)(slot_name slotidx := Some sout)\<rparr>))) (set_heap h st0))"

definition web_pipeline_dump :: "string \<Rightarrow> string option \<Rightarrow> handler" where
  "web_pipeline_dump date uri st0 =
     bindR (pipe_serializeCreation date (ap_pl st0) (ap_heap st0)) (\<lambda>(sout, h).
       with_query uri (\<lambda>headers st.
         Inr (\<lparr>rp_code = 200, rp_reason = ''OK'',
               rp_headers =
                 (if evhttp_find_header headers ''download'' \<noteq> None
                  then [(''Content-Type'', ''application/force-download; name='' @ [CHR 0x22] @ ''movid-pipeline.txt'' @ [CHR 0x22]),
                        (''Content-Disposition'', ''attachment; filename='' @ [CHR 0x22] @ ''movid-pipeline.txt'' @ [CHR 0x22])]
                  else [(''Content-Type'', ''text/plain'')]),
               rp_body = c_str sout\<rparr>, st)) (set_heap h st0))"

definition web_index :: handler where
  "web_index st =
     Inr (\<lparr>rp_code = 302, rp_reason = ''Everything is fine'', rp_headers = [(''Location'', ''/gui/index.html'')], rp_body = ''''\<rparr>, st)"

definition error_reply :: "int \<Rightarrow> string \<Rightarrow> reply" where
  "error_reply code reason = \<lparr>rp_code = code, rp_reason = reason, rp_headers = [], rp_body = error_page code reason\<rparr>"

text \<open>\<open>strstr(s, t) != NULL\<close>\<close>

definition occurs :: "string \<Rightarrow> string \<Rightarrow> bool" where
  "occurs t s = list_ex (\<lambda>i. take (length t) (drop i s) = t) [0..<Suc (length s)]"

text \<open>The name of the file, cut to the buffer of 256 characters.\<close>

definition file_name :: "string \<Rightarrow> string \<Rightarrow> string" where
  "file_name guidir uri =
     (let baseuri = the (fst (strsep (CHR ''?'') (Some uri))) in take 255 (guidir @ ''/'' @ drop 5 baseuri))"

definition ends_with :: "string \<Rightarrow> string \<Rightarrow> bool" where
  "ends_with t s \<longleftrightarrow> length t \<le> length s \<and> drop (length s - length t) s = t"

definition content_type :: "string \<Rightarrow> string" where
  "content_type filename =
     (if ends_with ''js'' filename then ''application/javascript''
      else if ends_with ''css'' filename then ''text/css''
      else if ends_with ''png'' filename then ''image/png''
      else if ends_with ''swf'' filename then ''application/x-shockwave-flash''
      else ''text/html'')"

text \<open>\<open>files\<close> are the files of the machine; a file that is opened is read completely.\<close>

definition web_file :: "(string \<Rightarrow> string option) \<Rightarrow> string \<Rightarrow> string \<Rightarrow> handler" where
  "web_file files guidir uri st =
     (if take 5 uri \<noteq> ''/gui/'' then Inr (error_reply 404 ''Not found'', st)
      else if occurs ''..'' uri then Inr (error_reply 403 ''Security error'', st)
      else (let filename = file_name guidir uri in
            case files filename of
              None \<Rightarrow> Inr (error_reply 404 ''Not found'', st)
            | Some text1 \<Rightarrow> Inr (ok_reply (content_type filename) text1, st)))"

section \<open>Streams to the browser\<close>

text \<open>The constructor of \<open>otStreamModule\<close>: its input starts on a stream of its own.\<close>

definition new_stream_module :: "heap \<Rightarrow> (maddr \<times> heap) result" where
  "new_stream_module h =
     (case free_mods h of
        [] \<Rightarrow> Inl BadAlloc
      | a # as \<Rightarrow>
          bindR (alloc_stream ''stream'' (h\<lparr>free_mods := as\<rparr>)) (\<lambda>(s, h1).
            let (i, h2) = createId ''WebStream'' h1;
                m0 = (moModule_ctor ''Stream'' '''' '''' MO_MODULE_INPUT a)\<lparr>is_internal := True\<rparr>;
                m1 = m0\<lparr>properties := smap_set ''scale'' (new_int 1 '''') (smap_set ''id'' (new_string i '''') (properties m0))\<rparr>
            in mapR (\<lambda>m2. (a, put_module a m2 h2))
                 (declareInput 0 (Cell (Some s)) (Some (info ''stream'' ''IplImage,IplImage8'' ''Image to stream on webbrowser'')) m1)))"

definition stream_reply :: reply where
  "stream_reply =
     \<lparr>rp_code = 200, rp_reason = ''Everything is fine'',
      rp_headers = [(''Content-Type'', ''multipart/x-mixed-replace; boundary=mjpegstream'')], rp_body = ''''\<rparr>"

definition web_pipeline_stream :: "env \<Rightarrow> string option \<Rightarrow> handler" where
  "web_pipeline_stream ev uri =
     with_query uri (\<lambda>headers.
       need_arg headers ''objectname'' ''missing objectname'' (\<lambda>i.
       need_object i ''object not found'' (\<lambda>b st.
         let idx = int_arg headers ''index'' 0 in
         bindR (get_module (ap_heap st) b) (\<lambda>m.
           if idx < 0 \<or> idx \<ge> int (getOutputCount m) then web_error ''invalid index'' st
           else bindR (new_stream_module (ap_heap st)) (\<lambda>(a, h).
                bindR (case evhttp_find_header headers ''scale'' of
                         None \<Rightarrow> Inr h | Some v \<Rightarrow> property_set (ev_vt ev) ''scale'' v a h) (\<lambda>h1.
                bindR (getOutput m idx) (\<lambda>s.
                bindR (setInput s 0 a h1) (\<lambda>h2.
                  Inr (stream_reply, st\<lparr>ap_heap := h2,
                    ap_streams := ap_streams st @ [\<lparr>ck_stream = a, ck_closed = False, ck_delay = int_arg headers ''delay'' 100\<rparr>]\<rparr>)))))))))"

definition web_pipeline_stream_close :: "nat \<Rightarrow> app \<Rightarrow> app" where
  "web_pipeline_stream_close k st = st\<lparr>ap_streams := (ap_streams st)[k := (ap_streams st ! k)\<lparr>ck_closed := True\<rparr>]\<rparr>"

text \<open>The timer of a stream. A closed stream is detached and its module deleted; its destructor
  deletes no stream. Otherwise the image of the module, if there is one, is sent as a
  JPEG (\<open>frame\<close>), and the timer is set again.\<close>

definition stream_chunk :: "string \<Rightarrow> string" where
  "stream_chunk frame =
     ''--mjpegstream'' @ crlf @ ''Content-Type: image/jpeg'' @ crlf @
     ''Content-Length: '' @ show_nat (length frame) @ crlf @ crlf @ frame"

definition web_pipeline_stream_trickle :: "nat \<Rightarrow> string option \<Rightarrow> app \<Rightarrow> (string \<times> app) result" where
  "web_pipeline_stream_trickle k frame st =
     (let ck = ap_streams st ! k in
      if ck_closed ck then
        bindR (setInput None 0 (ck_stream ck) (ap_heap st)) (\<lambda>h1.
          mapR (\<lambda>h2. ('''', st\<lparr>ap_heap := h2, ap_streams := take k (ap_streams st) @ drop (Suc k) (ap_streams st)\<rparr>))
            (delete_module (\<lambda>m. []) (ck_stream ck) h1))
      else Inr (case frame of None \<Rightarrow> '''' | Some f \<Rightarrow> stream_chunk f, st))"

section \<open>The server and the main loop\<close>

text \<open>What the handlers ask of the machine: the clock, the date as a text, the files.\<close>

record world =
  w_now :: double
  w_date :: string
  w_files :: "string \<Rightarrow> string option"
  w_mtime :: "string \<Rightarrow> int option"
  w_writable :: "string \<Rightarrow> bool"
  w_guidir :: string

definition callbacks_table :: "env \<Rightarrow> world \<Rightarrow> (string \<times> (string option \<Rightarrow> handler)) list" where
  "callbacks_table ev w =
     [(''/'', \<lambda>uri. web_index),
      (''/factory/list'', \<lambda>uri. web_factory_list ev),
      (''/factory/describe'', web_factory_describe ev),
      (''/pipeline/create'', web_pipeline_create ev),
      (''/pipeline/remove'', web_pipeline_remove ev),
      (''/pipeline/status'', \<lambda>uri. web_pipeline_status),
      (''/pipeline/connect'', web_pipeline_connect),
      (''/pipeline/set'', web_pipeline_set ev),
      (''/pipeline/get'', web_pipeline_get),
      (''/pipeline/gui'', web_pipeline_gui ev),
      (''/pipeline/stream'', web_pipeline_stream ev),
      (''/pipeline/start'', \<lambda>uri. web_pipeline_start ev (w_now w)),
      (''/pipeline/stop'', \<lambda>uri. web_pipeline_stop ev),
      (''/pipeline/quit'', \<lambda>uri. web_pipeline_quit),
      (''/pipeline/dump'', web_pipeline_dump (w_date w)),
      (''/pipeline/stats'', \<lambda>uri. web_pipeline_stats),
      (''/pipeline/slot/refresh'', \<lambda>uri. web_pipeline_slot_refresh (w_mtime w)),
      (''/pipeline/slot/load'', web_pipeline_slot_load ev),
      (''/pipeline/slot/save'', web_pipeline_slot_save (w_date w) (w_writable w))]"

definition serve :: "env \<Rightarrow> world \<Rightarrow> string \<Rightarrow> handler" where
  "serve ev w uri =
     (case evhttp_dispatch_callback (callbacks_table ev w) uri of
        Some cb \<Rightarrow> cb (Some uri)
      | None \<Rightarrow> web_file (w_files w) (w_guidir w) uri)"

definition signal_term :: "app \<Rightarrow> app" where
  "signal_term st = st\<lparr>ap_want_quit := True\<rparr>"

text \<open>The inner loop of \<open>main\<close>, which reports the errors of the pipeline: \<open>None\<close> when it does not
  end.\<close>

partial_function (option) error_loop :: "bool \<Rightarrow> app \<Rightarrow> app result option" where
  "error_loop test_mode st =
     (case pipe_haveError (ap_pl st) (ap_heap st) of
        Inl e \<Rightarrow> Some (Inl e)
      | Inr b \<Rightarrow>
          if \<not> b then Some (Inr st)
          else (case pipe_getLastError (ap_pl st) (ap_heap st) of
             Inl e \<Rightarrow> Some (Inl e)
           | Inr (s, h) \<Rightarrow>
               error_loop test_mode (st\<lparr>ap_heap := h, ap_want_quit := ap_want_quit st \<or> test_mode\<rparr>)))"

definition main_iteration :: "env \<Rightarrow> bool \<Rightarrow> double \<Rightarrow> double \<Rightarrow> app \<Rightarrow> app result option" where
  "main_iteration ev test_mode now now' st =
     (case get_module (ap_heap st) (pl_this (ap_pl st)) of
        Inl e \<Rightarrow> Some (Inl e)
      | Inr pm \<Rightarrow>
          if is_started pm
          then (case pipe_poll (ev_vt ev) now now' (ap_pl st) (ap_heap st) of
                  Inl e \<Rightarrow> Some (Inl e)
                | Inr h \<Rightarrow> error_loop test_mode (set_heap h st))
          else Some (Inr st))"

text \<open>The main loop. A turn polls the pipeline at the time of the world and then lets the server
  handle the requests that have come; \<open>now'\<close> is the time after an update.\<close>

fun serve_all :: "env \<Rightarrow> world \<Rightarrow> string list \<Rightarrow> app \<Rightarrow> app result" where
  "serve_all ev w [] st = Inr st"
| "serve_all ev w (uri # uris) st = bindR (serve ev w uri st) (\<lambda>(r, st1). serve_all ev w uris st1)"

fun main_loop :: "env \<Rightarrow> bool \<Rightarrow> (world \<times> double \<times> string list) list \<Rightarrow> app \<Rightarrow> app result option" where
  "main_loop ev test_mode [] st = Some (Inr st)"
| "main_loop ev test_mode ((w, now', uris) # turns) st =
     (if ap_want_quit st then Some (Inr st)
      else (case main_iteration ev test_mode (w_now w) now' st of
              None \<Rightarrow> None
            | Some (Inl e) \<Rightarrow> Some (Inl e)
            | Some (Inr st1) \<Rightarrow>
                (case serve_all ev w uris st1 of
                   Inl e \<Rightarrow> Some (Inl e)
                 | Inr st2 \<Rightarrow> main_loop ev test_mode turns st2)))"

section \<open>Options\<close>

datatype option_arg = OSyslog | ODetach | OPidfile string | OGuidir string | ONoHttp | OPipeline string
  | OInfo string | OTest | OHelp

record config =
  cf_syslog :: bool
  cf_detach :: bool
  cf_pidfile :: string
  cf_guidir :: string
  cf_httpserver :: bool
  cf_pipelinefn :: string
  cf_test_mode :: bool

definition default_config :: config where
  "default_config =
     \<lparr>cf_syslog = False, cf_detach = False, cf_pidfile = ''/var/run/movid.pid'', cf_guidir = ''gui/html'',
      cf_httpserver = True, cf_pipelinefn = '''', cf_test_mode = False\<rparr>"

text \<open>The options in the order \<open>getopt_long\<close> gives them. \<open>Some 0\<close> is a result that ends the
  program; the names of the modules to describe go to the output.\<close>

fun parse_options :: "option_arg list \<Rightarrow> config \<Rightarrow> int option \<times> string option \<times> config" where
  "parse_options [] cf = (None, None, cf)"
| "parse_options (OSyslog # os) cf = parse_options os (cf\<lparr>cf_syslog := True\<rparr>)"
| "parse_options (ODetach # os) cf = parse_options os (cf\<lparr>cf_detach := True\<rparr>)"
| "parse_options (OPidfile f # os) cf = parse_options os (cf\<lparr>cf_pidfile := f\<rparr>)"
| "parse_options (OGuidir f # os) cf = parse_options os (cf\<lparr>cf_guidir := f\<rparr>)"
| "parse_options (ONoHttp # os) cf = parse_options os (cf\<lparr>cf_httpserver := False\<rparr>)"
| "parse_options (OPipeline f # os) cf = parse_options os (cf\<lparr>cf_pipelinefn := f\<rparr>)"
| "parse_options (OInfo n # os) cf = (Some 0, Some n, cf)"
| "parse_options (OTest # os) cf = parse_options os (cf\<lparr>cf_test_mode := True\<rparr>)"
| "parse_options (OHelp # os) cf = (Some 0, None, cf)"

text \<open>From the options to the main loop: the first pipeline. \<open>Inr None\<close> is the exit with status 1.\<close>

definition startup :: "env \<Rightarrow> double \<Rightarrow> (string \<Rightarrow> string option) \<Rightarrow> config \<Rightarrow> heap \<Rightarrow> app option result" where
  "startup ev now files cf h =
     (let start_app = (\<lambda>p h d. \<lparr>ap_pl = p, ap_heap = h, ap_want_quit = False, ap_delay = d, ap_slots = files, ap_streams = []\<rparr>) in
      if cf_pipelinefn cf \<noteq> '''' then
        bindR (new_pipeline h) (\<lambda>(p, h1).
        bindR (pipe_parse (ev_vt ev) (ev_db ev) (files (cf_pipelinefn cf)) p h1 5) (\<lambda>(ok, ps).
          if \<not> ok then Inr None
          else mapR (\<lambda>h2. Some (start_app (ps_pl ps) h2 (ps_delay ps))) (pipe_start (ev_vt ev) now (ps_pl ps) (ps_heap ps))))
      else if \<not> cf_httpserver cf then Inr None
      else mapR (\<lambda>(p, h1). Some (start_app p h1 5)) (new_pipeline h))"

end
