(* ===== verification/Movid_Session.thy ===== *)
theory Movid_Session
  imports Movid_Web
begin

text \<open>
  What the web interface promises: every request that builds, wires, configures, runs or
  removes modules leaves the application consistent, in any order of requests. The rules below
  follow the shape of the handlers: a rule for each step of a handler says what the rest of the
  handler may rely on.
\<close>

section \<open>Replies\<close>

text \<open>An item that prints at every depth.\<close>

definition prints :: "cJSON \<Rightarrow> bool" where
  "prints c \<longleftrightarrow> (\<forall>fmt depth. \<exists>t. print_value fmt depth c = Inr (Some t))"

lemma prints_set_name [simp]: "prints (set_name nm c) = prints c"
proof (cases c)
  case (CJSON t vs vi vd nm' cs)
  have "print_number (CJSON t vs vi vd nm cs) = print_number (CJSON t vs vi vd nm' cs)" by (simp add: print_number_def)
  then show ?thesis using CJSON by (simp add: prints_def cong: if_cong)
qed

lemma prints_string: "prints (CJSON cJSON_String vs vi vd nm cs)"
  using print_string_fits [of vs] by (auto simp: prints_def)

lemma prints_int: "int32 i \<Longrightarrow> prints (CJSON cJSON_Number vs i (of_int i) nm cs)"
  by (simp add: prints_def print_number_int)

lemma print_members_Some: "\<forall>c \<in> set cs. prints c \<Longrightarrow> \<exists>es. print_members fmt depth cs = Inr (Some es)"
proof (induction cs)
  case (Cons c cs)
  obtain es where es: "print_members fmt depth cs = Inr (Some es)" using Cons by auto
  have "prints c" using Cons.prems by simp
  then obtain t where t: "print_value fmt depth c = Inr (Some t)" unfolding prints_def by blast
  obtain n where n: "print_string_ptr (cj_string c) = Inr n" using print_string_fits by blast
  show ?case using es t n by simp
qed simp

lemma prints_object:
  assumes "\<forall>c \<in> set cs. prints c"
  shows "prints (CJSON cJSON_Object vs vi vd nm cs)"
  unfolding prints_def
proof (intro allI)
  fix fmt depth
  obtain es where "print_members fmt (depth + 1) cs = Inr (Some es)" using print_members_Some [OF assms] by blast
  then show "\<exists>t. print_value fmt depth (CJSON cJSON_Object vs vi vd nm cs) = Inr (Some t)"
    by (simp add: Let_def compose_object_fits)
qed

lemma web_message_total:
  assumes "success = 0 \<or> success = 1"
  shows "\<exists>r. web_message message success st = Inr (r, st)"
proof -
  have i: "int32 success" using assms by (auto simp: INT_MIN_def INT_MAX_def)
  have n: "cJSON_CreateNumber (of_int success) = Inr (CJSON cJSON_Number None success (of_int success) None [])"
    using int_of_double_of_int [OF i] by (simp add: cJSON_CreateNumber_def)
  let ?c = "CJSON cJSON_Object None 0 0 None
    [CJSON cJSON_Number None success (of_int success) (Some ''success'') [],
     CJSON cJSON_String (Some (c_str message)) 0 0 (Some ''message'') []]"
  have "prints ?c" by (rule prints_object) (auto simp: prints_int [OF i] prints_string)
  then obtain t where t: "print_value True 0 ?c = Inr (Some t)" by (auto simp: prints_def)
  have "json_object [(''success'', jint success), (''message'', jstr message)] cJSON_CreateObject = Inr ?c"
    using n by (simp add: cJSON_AddItemToObject_def cJSON_AddItemToArray_def cJSON_CreateObject_def
        cJSON_New_Item_def cJSON_CreateString_def)
  then show ?thesis using t by (simp add: web_message_def web_json_def cJSON_Print_def)
qed

section \<open>The invariant of the application\<close>

definition alive :: "heap \<Rightarrow> maddr \<Rightarrow> bool" where
  "alive h a \<longleftrightarrow> mods h a \<noteq> None"

lemma aliveE: "alive h a \<Longrightarrow> (\<And>m. mods h a = Some m \<Longrightarrow> P) \<Longrightarrow> P"
  by (auto simp: alive_def)

lemma keeps_alive: "keeps h h' \<Longrightarrow> alive h' a = alive h a"
  using same_outlines_alive [OF keeps_same_outlines] by (simp add: alive_def)

lemma calm_alive: "calm h h' \<Longrightarrow> alive h' a = alive h a"
  using same_outlines_alive [OF calm_same_outlines] by (simp add: alive_def)

text \<open>The objects the application has pointers to: the pipeline, the modules of the open image
  streams and the elements of the pipeline.\<close>

definition owned :: "app \<Rightarrow> maddr list" where
  "owned st = pl_this (ap_pl st) # map ck_stream (ap_streams st) @ pl_modules (ap_pl st)"

definition app_ok :: "app \<Rightarrow> bool" where
  "app_ok st \<longleftrightarrow>
     good (ap_heap st) \<and> distinct (owned st) \<and> (\<forall>a \<in> set (owned st). alive (ap_heap st) a) \<and>
     pl_last_internal_error (ap_pl st) = ''''"

lemma app_okD:
  assumes "app_ok st"
  shows "good (ap_heap st)" "heap_ok (ap_heap st)" "mem_ok (ap_heap st)" "distinct (owned st)"
    "\<And>a. a \<in> set (pl_modules (ap_pl st)) \<Longrightarrow> alive (ap_heap st) a"
    "\<forall>b \<in> set (pl_this (ap_pl st) # pl_modules (ap_pl st)). mods (ap_heap st) b \<noteq> None"
    "pl_last_internal_error (ap_pl st) = ''''"
  using assms by (auto simp: app_ok_def good_def owned_def alive_def)

lemma app_ok_set_heap:
  assumes "app_ok st" "good h" "\<And>a. alive (ap_heap st) a \<Longrightarrow> alive h a"
  shows "app_ok (set_heap h st)"
  using assms by (simp add: app_ok_def set_heap_def owned_def)

lemma app_ok_keeps: "app_ok st \<Longrightarrow> keeps (ap_heap st) h \<Longrightarrow> app_ok (set_heap h st)"
  using app_ok_set_heap [of st h] keeps_good [OF _ app_okD(1)] keeps_alive by blast

text \<open>A handler that returns leaves a consistent application; it fails only for lack of memory.\<close>

definition served :: "(reply \<times> app) result \<Rightarrow> bool" where
  "served r \<longleftrightarrow> (case r of Inl e \<Rightarrow> e = BadAlloc | Inr (rp, st) \<Rightarrow> app_ok st)"

lemma served_message: "success = 0 \<or> success = 1 \<Longrightarrow> app_ok st \<Longrightarrow> served (web_message message success st)"
  using web_message_total [of success message st] by (auto simp: served_def)

lemma served_simps [simp]:
  "served (Inl BadAlloc)" "served (Inr (rp, st)) = app_ok st"
  "app_ok st \<Longrightarrow> served (web_error msg st)" "app_ok st \<Longrightarrow> served (web_ok st)"
  using served_message [of 0] served_message [of 1] by (simp_all add: served_def web_error_def web_ok_def)

lemma served_with_query: "(\<And>headers. served (k headers st)) \<Longrightarrow> served (with_query (Some uri) k st)"
  by (simp add: with_query_def)

lemma served_need_arg:
  "app_ok st \<Longrightarrow> (\<And>v. served (k v st)) \<Longrightarrow> served (need_arg headers key msg k st)"
  by (simp add: need_arg_def split: option.split)

lemma getModuleById_loop_keeps:
  assumes "heap_ok h" "\<forall>a \<in> set as. mods h a \<noteq> None"
  shows "\<exists>r h'. getModuleById_loop i as h = Inr (r, h') \<and> keeps h h' \<and> (\<forall>a. r = Some a \<longrightarrow> a \<in> set as)"
  using assms
proof (induction as arbitrary: h)
  case Nil
  then show ?case by (simp add: keeps_refl)
next
  case (Cons a as)
  obtain m where m: "mods h a = Some m" using Cons.prems(2) by auto
  obtain s h1 where h1: "property_get ''id'' a h = Inr (s, h1)" "keeps h h1"
    using property_get_keeps [OF Cons.prems(1) m] by blast
  have "\<forall>b \<in> set as. mods h1 b \<noteq> None" using Cons.prems(2) same_outlines_alive [OF keeps_same_outlines [OF h1(2)]] by simp
  then obtain r h2 where h2: "getModuleById_loop i as h1 = Inr (r, h2)" "keeps h1 h2" "\<forall>b. r = Some b \<longrightarrow> b \<in> set as"
    using Cons.IH [OF keepsD(1) [OF h1(2)]] by blast
  show ?case using h1 h2 keeps_trans [OF h1(2) h2(2)] by (cases "s = i") auto
qed

lemma served_lookup_module:
  assumes ok: "app_ok st"
    and k: "\<And>r st'. app_ok st' \<Longrightarrow> ap_pl st' = ap_pl st \<Longrightarrow> ap_streams st' = ap_streams st \<Longrightarrow>
      (\<And>a. r = Some a \<Longrightarrow> a \<in> set (pl_modules (ap_pl st))) \<Longrightarrow> served (k r st')"
  shows "served (lookup_module i k st)"
proof -
  obtain r h where h: "getModuleById i (ap_pl st) (ap_heap st) = Inr (r, h)" "keeps (ap_heap st) h"
    "\<forall>a. r = Some a \<longrightarrow> a \<in> set (pl_modules (ap_pl st))"
    using getModuleById_loop_keeps [OF app_okD(2) [OF ok], of "pl_modules (ap_pl st)" i] app_okD(6) [OF ok]
    by (auto simp: getModuleById_def)
  have "served (k r (set_heap h st))"
    by (rule k) (use app_ok_keeps [OF ok h(2)] h(3) in \<open>auto simp: set_heap_def\<close>)
  then show ?thesis using h(1) by (simp add: lookup_module_def)
qed

lemma served_need_object:
  assumes ok: "app_ok st"
    and k: "\<And>a st'. app_ok st' \<Longrightarrow> a \<in> set (pl_modules (ap_pl st')) \<Longrightarrow> served (k a st')"
  shows "served (need_object i msg k st)"
  unfolding need_object_def
  by (rule served_lookup_module [OF ok]) (auto intro!: k split: option.split)

lemma served_do_heap:
  assumes "app_ok st" "\<exists>h. f (ap_heap st) = Inr h \<and> good h \<and> (\<forall>a. alive (ap_heap st) a \<longrightarrow> alive h a)"
  shows "served (do_heap f web_ok st)"
  using assms app_ok_set_heap [OF assms(1)] by (auto simp: do_heap_def)

lemmas served_intros = served_with_query served_need_arg served_need_object served_do_heap

section \<open>The handlers\<close>

definition env_of :: "dispatch \<Rightarrow> (moModule \<Rightarrow> saddr list) \<Rightarrow> nat \<Rightarrow> env" where
  "env_of vt frees n = \<lparr>ev_vt = vt, ev_db = factory_init n, ev_frees = frees\<rparr>"

lemma env_of_simps [simp]:
  "ev_vt (env_of vt frees n) = vt" "ev_db (env_of vt frees n) = factory_init n" "ev_frees (env_of vt frees n) = frees"
  by (simp_all add: env_of_def)

lemma grown_good:
  assumes g: "good h" and gr: "grown a h h'" "mods h a = None" and h': "heap_ok h'" "mem_ok h'" "mods h' a = Some m"
    and fresh: "\<forall>n s. map_of (output_map m) n = Some (Cell (Some s)) \<longrightarrow> streams h s = None"
  shows "good h'"
proof -
  have old: "mods h' b = mods h b" if "b \<noteq> a" for b using gr(1) that by (simp add: grown_def)
  have live: "streams h s \<noteq> None" if "mods h b = Some mb" "s \<in> out_streams mb" for b mb s
    using graph_okD(3) [OF heap_okD(1) [OF goodD(1) [OF g]] that(1)] that(2) by (auto simp: out_streams_def)
  have new: "b = a" if q: "mods h' b = Some mb" "out_streams m \<inter> out_streams mb \<noteq> {}" for b mb
  proof (rule ccontr)
    assume ne: "b \<noteq> a"
    obtain s where s: "s \<in> out_streams m" "s \<in> out_streams mb" using q(2) by blast
    then show False using live [of b mb s] old [OF ne] q(1) fresh by (auto simp: out_streams_def)
  qed
  have "outputs_private h'"
    unfolding outputs_private_def
  proof (intro allI impI)
    fix x y mx my assume xy: "mods h' x = Some mx" "mods h' y = Some my" "out_streams mx \<inter> out_streams my \<noteq> {}"
    consider "x = a" | "y = a" | "x \<noteq> a" "y \<noteq> a" by blast
    then show "x = y"
    proof cases
      case 1
      then show ?thesis using new [OF xy(2)] xy h'(3) by simp
    next
      case 2
      then show ?thesis using new [OF xy(1)] xy h'(3) by (simp add: inf_commute)
    next
      case 3
      then show ?thesis using old xy goodD(3) [OF g] unfolding outputs_private_def by metis
    qed
  qed
  with h' show ?thesis by (simp add: good_def)
qed

lemma grown_alive: "grown a h h' \<Longrightarrow> alive h' a \<Longrightarrow> alive h b \<Longrightarrow> alive h' b"
  by (cases "b = a") (auto simp: grown_def alive_def)

lemma getOutput_live:
  assumes "heap_ok h" "mods h b = Some m"
  shows "\<exists>s. getOutput m n = Inr s \<and> (\<forall>t. s = Some t \<longrightarrow> streams h t \<noteq> None)"
proof -
  obtain s where s: "getOutput m n = Inr s" using getOutput_ok [OF heap_okD(3) [OF assms]] by blast
  have "streams h t \<noteq> None" if "s = Some t" for t
  proof -
    from s that have "map_of (output_map m) n = Some (Cell (Some t))"
      by (auto simp: getOutput_def deref_storage_def split: option.splits storage.splits)
    from graph_okD(3) [OF heap_okD(1) [OF assms(1)] assms(2) this] show ?thesis by auto
  qed
  with s show ?thesis by blast
qed

lemma setInput_good:
  assumes "good h" "alive h a" "\<And>s. stream = Some s \<Longrightarrow> streams h s \<noteq> None"
  shows "\<exists>h'. setInput stream n a h = Inr h' \<and> good h' \<and> calm h h'"
proof -
  obtain m where m: "mods h a = Some m" using assms(2) by (rule aliveE)
  obtain h' where h': "setInput stream n a h = Inr h'" "heap_ok h'" "calm h h'"
    using setInput_heap_ok [OF goodD(1,2) [OF assms(1)] m assms(3)] by blast
  with calm_good [OF h'(3) heap_okD(1) [OF h'(2)] assms(1)] show ?thesis by blast
qed

lemma served_connect:
  assumes ok: "app_ok st"
  shows "served (web_pipeline_connect (Some uri) st)"
proof -
  have wire: "served (do_heap (setInput None n a) web_ok st')"
    "b \<in> set (pl_modules (ap_pl st')) \<Longrightarrow> served (do_heap (\<lambda>h. bindR (get_module h b) (\<lambda>m.
       bindR (getOutput m k) (\<lambda>s. setInput s n a h))) web_ok st')"
    if st': "app_ok st'" "a \<in> set (pl_modules (ap_pl st'))" for st' a b n k
  proof -
    have g: "good (ap_heap st')" and a: "alive (ap_heap st') a" using app_okD(1,5) [OF st'(1)] st'(2) by auto
    show "served (do_heap (setInput None n a) web_ok st')"
      by (rule served_do_heap [OF st'(1)]) (use setInput_good [OF g a, of None] calm_alive in blast)
    assume b: "b \<in> set (pl_modules (ap_pl st'))"
    obtain m where m: "mods (ap_heap st') b = Some m" using app_okD(5) [OF st'(1) b] by (rule aliveE)
    obtain s where s: "getOutput m k = Inr s" "\<forall>t. s = Some t \<longrightarrow> streams (ap_heap st') t \<noteq> None"
      using getOutput_live [OF goodD(1) [OF g] m] by blast
    obtain h' where h': "setInput s n a (ap_heap st') = Inr h'" "good h'" "calm (ap_heap st') h'"
      using setInput_good [OF g a] s(2) by blast
    show "served (do_heap (\<lambda>h. bindR (get_module h b) (\<lambda>m.
       bindR (getOutput m k) (\<lambda>s. setInput s n a h))) web_ok st')"
      by (rule served_do_heap [OF st'(1)]) (use m s(1) h' calm_alive [OF h'(3)] in \<open>auto simp: store_eval\<close>)
  qed
  show ?thesis
    unfolding web_pipeline_connect_def Let_def
    by (intro served_intros served_lookup_module ok; simp split: option.split if_split) (auto intro!: wire)
qed

lemma served_get: "app_ok st \<Longrightarrow> served (web_pipeline_get (Some uri) st)"
  unfolding web_pipeline_get_def
proof (intro served_intros)
  fix name a st' assume ok: "app_ok st'" and a: "a \<in> set (pl_modules (ap_pl st'))"
  obtain m where m: "mods (ap_heap st') a = Some m" using app_okD(5) [OF ok a] by (rule aliveE)
  obtain v h where "property_get name a (ap_heap st') = Inr (v, h)" "keeps (ap_heap st') h"
    using property_get_keeps [OF app_okD(2) [OF ok] m] by blast
  then show "served (bindR (property_get name a (ap_heap st')) (\<lambda>(v, h). web_message v 1 (set_heap h st')))"
    using served_message [OF _ app_ok_keeps [OF ok]] by auto
qed

context destructor_contract
begin

lemma served_create:
  assumes ok: "app_ok st"
  shows "served (web_pipeline_create (env_of vt frees n) (Some uri) st)"
  unfolding web_pipeline_create_def
proof (intro served_with_query served_need_arg ok, unfold env_of_simps)
  fix name
  let ?h = "ap_heap st"
  let ?rest = "\<lambda>(m, h). case m of None \<Rightarrow> web_error ''invalid objectname'' (set_heap h st)
         | Some a \<Rightarrow> bindR (addElement (Some a) (ap_pl st) h) (\<lambda>(p, h1).
             bindR (property_get ''id'' a h1) (\<lambda>(i, h2). web_message i 1 (st\<lparr>ap_pl := p, ap_heap := h2\<rparr>)))"
  show "served (bindR (factory_create (factory_init n) name ?h) ?rest)"
    using factory_create_total [OF app_okD(2,3) [OF ok], of n name]
  proof (elim disjE exE conjE)
    assume "factory_create (factory_init n) name ?h = Inl BadAlloc"
    then show ?thesis by simp
  next
    assume "factory_create (factory_init n) name ?h = Inr (None, ?h)"
    moreover have "set_heap ?h st = st" by (simp add: set_heap_def)
    ultimately show ?thesis using ok by simp
  next
    fix a h m
    assume c: "factory_create (factory_init n) name ?h = Inr (Some a, h)" "mods ?h a = None"
      "heap_ok h" "mem_ok h" "grown a ?h h" "mods h a = Some m"
      and fresh: "\<forall>k s. map_of (output_map m) k = Some (Cell (Some s)) \<longrightarrow> streams ?h s = None"
    have g: "good h" by (rule grown_good [OF app_okD(1) [OF ok] c(5,2,3,4,6) fresh])
    let ?p = "(ap_pl st)\<lparr>pl_modules := pl_modules (ap_pl st) @ [a]\<rparr>"
    obtain h1 where h1: "addElement (Some a) (ap_pl st) h = Inr (?p, h1)" "keeps h h1"
      using addElement_keeps [OF c(3,6)] by blast
    obtain m1 where m1: "mods h1 a = Some m1" using keepsD(2) [OF h1(2) c(6)] by blast
    obtain i h2 where h2: "property_get ''id'' a h1 = Inr (i, h2)" "keeps h1 h2"
      using property_get_keeps [OF keepsD(1) [OF h1(2)] m1] by blast
    have k: "keeps h h2" by (rule keeps_trans [OF h1(2) h2(2)])
    have ha: "alive h a" using c(6) by (simp add: alive_def)
    have al: "alive h2 b" if "alive ?h b \<or> b = a" for b
      using that keeps_alive [OF k] grown_alive [OF c(5) ha] ha by auto
    have "a \<notin> set (owned st)" using ok c(2) by (auto simp: app_ok_def alive_def)
    then have "app_ok (st\<lparr>ap_pl := ?p, ap_heap := h2\<rparr>)"
      using ok keeps_good [OF k g] al by (auto simp: app_ok_def owned_def)
    then show ?thesis using c(1) h1(1) h2(1) served_message by simp
  qed
qed

lemma set_loop_keeps:
  assumes "heap_ok h" "alive h a"
  shows "\<exists>h'. set_loop (env_of vt frees n) a headers h = Inr h' \<and> keeps h h'"
  using assms
proof (induction "env_of vt frees n" a headers h rule: set_loop.induct)
  case (1 a headers h)
  show ?case
  proof (cases "evhttp_find_header headers ''name'' = None \<or> evhttp_find_header headers ''value'' = None")
    case True
    then show ?thesis using keeps_refl [OF 1(2)] by (subst set_loop.simps) (auto split: option.split)
  next
    case False
    then obtain name v where nv: "evhttp_find_header headers ''name'' = Some name" "evhttp_find_header headers ''value'' = Some v"
      by auto
    obtain m where m: "mods h a = Some m" using 1(3) by (rule aliveE)
    obtain h1 where h1: "property_set vt name v a h = Inr h1" "keeps h h1" using property_set_keeps [OF 1(2) m] by blast
    have "alive h1 a" using 1(3) keeps_alive [OF h1(2)] by simp
    then obtain h2 where "set_loop (env_of vt frees n) a
        (snd (evhttp_remove_header (snd (evhttp_remove_header headers ''name'')) ''value'')) h1 = Inr h2" "keeps h1 h2"
      using 1(1) [of "Some name" "Some v" name v h1] nv keepsD(1) [OF h1(2)] by auto
    then show ?thesis using nv h1 keeps_trans [OF h1(2)] by (subst set_loop.simps) auto
  qed
qed

lemma served_set:
  assumes ok: "app_ok st"
  shows "served (web_pipeline_set (env_of vt frees n) (Some uri) st)"
  unfolding web_pipeline_set_def
proof (intro served_intros ok)
  fix headers a st' assume st': "app_ok st'" "a \<in> set (pl_modules (ap_pl st'))"
  obtain h where h: "set_loop (env_of vt frees n) a headers (ap_heap st') = Inr h" "keeps (ap_heap st') h"
    using set_loop_keeps [OF app_okD(2) [OF st'(1)] app_okD(5) [OF st']] by blast
  show "\<exists>h. set_loop (env_of vt frees n) a headers (ap_heap st') = Inr h \<and> good h \<and>
      (\<forall>a. alive (ap_heap st') a \<longrightarrow> alive h a)"
    using h keeps_good [OF h(2) app_okD(1) [OF st'(1)]] keeps_alive [OF h(2)] by auto
qed

lemma served_remove:
  assumes ok: "app_ok st"
  shows "served (web_pipeline_remove (env_of vt frees n) (Some uri) st)"
  unfolding web_pipeline_remove_def env_of_simps
proof (intro served_with_query served_need_arg served_need_object ok)
  fix a st' assume st': "app_ok st'" and a: "a \<in> set (pl_modules (ap_pl st'))"
  let ?p = "ap_pl st'" and ?h = "ap_heap st'"
  obtain h where h: "remove_module vt frees a ?p ?h = Inr (removeElement a ?p, h)" "good h" "mods h a = None"
    "\<forall>b. b \<noteq> a \<longrightarrow> map_option outline (mods h b) = map_option outline (mods ?h b)"
    using remove_module_ok [OF app_okD(1,6) [OF st'] a] by blast
  have al: "alive h b" if "b \<noteq> a" "alive ?h b" for b
    using h(4) that unfolding alive_def by (metis option.map_disc_iff)
  have "distinct (pl_modules ?p)" using app_okD(4) [OF st'] by (simp add: owned_def)
  then have "set (erase_first a (pl_modules ?p)) = set (pl_modules ?p) - {a}"
    "distinct (erase_first a (pl_modules ?p))" by (simp_all add: erase_first_remove1)
  moreover have "alive h b" if "b \<in> set (owned st')" "b \<noteq> a" for b
    using st' al that by (simp add: app_ok_def)
  moreover have "a \<notin> insert (pl_this ?p) (ck_stream ` set (ap_streams st'))"
    using app_okD(4) [OF st'] a by (auto simp: owned_def)
  ultimately have "app_ok (st'\<lparr>ap_pl := removeElement a ?p, ap_heap := h\<rparr>)"
    using app_okD(4,7) [OF st'] a h(2) unfolding app_ok_def owned_def by (auto simp: removeElement_def)
  then show "served (bindR (remove_module vt frees a ?p ?h) (\<lambda>(p, h). web_ok (st'\<lparr>ap_pl := p, ap_heap := h\<rparr>)))"
    using h(1) by simp
qed

lemma virtual_start_keeps:
  assumes "heap_ok h" "mods h a = Some m"
  shows "\<exists>h'. virtual_start vt now a h = Inr h' \<and> keeps h h'"
  using start_keeps [OF assms, of now] assms(2) by (auto simp: virtual_start_def store_eval)

lemma pipe_start_keeps:
  assumes "heap_ok h" "\<forall>b \<in> set (pl_this p # pl_modules p). mods h b \<noteq> None"
  shows "\<exists>h'. pipe_start vt now p h = Inr h' \<and> keeps h h'"
proof -
  obtain m where m: "mods h (pl_this p) = Some m" using assms(2) by auto
  obtain h1 where h1: "moModule_start now (pl_this p) h = Inr h1" "keeps h h1"
    using moModule_start_keeps [OF assms(1) m] by blast
  have al: "\<forall>b \<in> set (pl_modules p). mods h1 b \<noteq> None"
    using assms(2) same_outlines_alive [OF keeps_same_outlines [OF h1(2)]] by simp
  have "\<exists>h2. each_module (virtual_start vt now) (pl_modules p) h1 = Inr h2 \<and> keeps h1 h2"
    by (rule each_module_keeps [OF virtual_start_keeps keepsD(1) [OF h1(2)] al])
  with h1 keeps_trans [OF h1(2)] show ?thesis by (auto simp: pipe_start_def)
qed

lemma served_run:
  assumes ok: "app_ok st"
  shows "served (web_pipeline_start (env_of vt frees n) now st)" "served (web_pipeline_stop (env_of vt frees n) st)"
    "served (web_pipeline_quit st)"
proof -
  show "served (web_pipeline_start (env_of vt frees n) now st)"
    using pipe_start_keeps [OF app_okD(2,6) [OF ok], of now] app_ok_keeps [OF ok] by (auto simp: web_pipeline_start_def)
  show "served (web_pipeline_stop (env_of vt frees n) st)"
    using pipe_stop_keeps [OF app_okD(2,6) [OF ok]] app_ok_keeps [OF ok] by (auto simp: web_pipeline_stop_def)
  obtain r where "web_message ''bye'' 1 st = Inr (r, st)" using web_message_total by blast
  then show "served (web_pipeline_quit st)" using ok by (simp add: web_pipeline_quit_def app_ok_def owned_def)
qed

end

section \<open>Opening an image stream\<close>

lemma keeps_streams: "keeps h h' \<Longrightarrow> streams h' s = None \<longleftrightarrow> streams h s = None"
  unfolding keeps_def same_wires_def by (metis option.map_disc_iff)

text \<open>The new module reads a stream of its own, which nobody writes.\<close>

lemma add_reader_good:
  assumes g: "good h" and a: "mods h a = None" and s: "streams h s = None" "observers d = []"
    and m: "module_ok m" "life_ok a m" "output_map m = []" "\<And>n t. map_of (input_map m) n = Some (Cell (Some t)) \<Longrightarrow> t = s"
    and free: "distinct (as @ [a])" "distinct (ss @ [s])" "set as \<subseteq> set (free_mods h)" "set ss \<subseteq> set (free_streams h)"
  shows "good (h\<lparr>mods := (mods h)(a := Some m), streams := (streams h)(s := Some d), idcount := k, free_mods := as, free_streams := ss\<rparr>)"
    (is "good ?h")
proof -
  have gr: "graph_ok h" using heap_okD(1) [OF goodD(1) [OF g]] .
  have pub: "published ?h t = published h t" for t
  proof
    show "published h t" if "published ?h t" using that m(3) unfolding published_def by (auto split: if_splits)
    assume "published h t"
    then obtain b mb n where b: "mods h b = Some mb" "map_of (output_map mb) n = Some (Cell (Some t))"
      by (auto simp: published_def)
    with a have "mods ?h b = Some mb" by auto
    with b(2) show "published ?h t" unfolding published_def by blast
  qed
  have att: "attached h b t \<le> attached ?h b t" "b \<noteq> a \<Longrightarrow> attached ?h b t = attached h b t" "attached h a t = 0" for b t
    using a by (simp_all add: attached_def)
  have other: "attached ?h a t = 0" if "t \<noteq> s" for t
  proof -
    have "snd c \<noteq> Cell (Some t)" if "c \<in> set (input_map m)" for c
    proof
      assume e: "snd c = Cell (Some t)"
      have "distinct (map fst (input_map m))" using m(1) by (simp add: module_ok_def io_ok_def distinct_map)
      then have "map_of (input_map m) (fst c) = Some (Cell (Some t))" using that e by (metis map_of_eq_Some_iff prod.collapse)
      with m(4) \<open>t \<noteq> s\<close> show False by blast
    qed
    then show ?thesis by (auto simp: attached_def cells_to_def)
  qed
  have unpub: "\<not> published h s"
    using s(1) graph_okD(3) [OF gr] unfolding published_def by fastforce
  have "graph_ok ?h"
    unfolding graph_ok_def
  proof (intro conjI allI impI)
    fix b mb assume b: "mods ?h b = Some mb"
    show "module_ok mb" using b m(1) graph_okD(1) [OF gr, of b mb] by (auto split: if_splits)
    show "streams ?h t \<noteq> None" if "map_of (input_map mb) n = Some (Cell (Some t))" for n t
      using b that m(4) graph_okD(2) [OF gr, of b mb n t] by (auto split: if_splits)
    show "streams ?h t \<noteq> None" if "map_of (output_map mb) n = Some (Cell (Some t))" for n t
      using b that m(3) graph_okD(3) [OF gr, of b mb n t] by (auto split: if_splits)
  next
    fix t e b assume t: "streams ?h t = Some e"
    show "count_list (observers e) b \<le> attached ?h b t"
    proof (cases "t = s")
      case False
      then show ?thesis using t graph_okD(7) [OF gr, of t e b] att(1) [of b t] by simp
    qed (use t s(2) in simp)
    show "count_list (observers e) b = attached ?h b t" if p: "published ?h t"
    proof -
      have "t \<noteq> s" using p pub unpub by auto
      then show ?thesis using t p pub graph_okD(6) [OF gr, of t e b] att(2) [of b t] att(3) [of t] other [of t] by (cases "b = a") auto
    qed
  qed
  moreover have "\<forall>b mb. mods ?h b = Some mb \<longrightarrow> life_ok b mb" using m(2) heap_okD(2) [OF goodD(1) [OF g]] by simp
  moreover have "mem_ok ?h"
  proof -
    have "\<forall>x \<in> set as. mods h x = None" "\<forall>x \<in> set ss. streams h x = None"
      using goodD(2) [OF g] free(3,4) by (auto simp: mem_ok_def)
    then show ?thesis using free(1,2) by (auto simp: mem_ok_def)
  qed
  moreover have "outputs_private ?h"
    using goodD(3) [OF g] m(3) unfolding outputs_private_def by (auto simp: out_streams_def)
  ultimately show ?thesis by (simp add: good_def heap_ok_def)
qed

lemma new_stream_module_good:
  assumes g: "good h"
  shows "new_stream_module h = Inl BadAlloc \<or>
    (\<exists>a h'. new_stream_module h = Inr (a, h') \<and> \<not> alive h a \<and> good h' \<and> alive h' a \<and>
      (\<forall>b. alive h b \<longrightarrow> alive h' b) \<and> (\<forall>s. streams h s \<noteq> None \<longrightarrow> streams h' s \<noteq> None))"
proof (cases "free_mods h = [] \<or> free_streams h = []")
  case True
  then show ?thesis
    by (auto simp: new_stream_module_def alloc_stream_def split: list.split)
next
  case False
  then obtain a as s ss where f: "free_mods h = a # as" "free_streams h = s # ss" by (meson list.exhaust)
  have mem: "mods h a = None" "streams h s = None" "distinct (as @ [a])" "distinct (ss @ [s])"
    using goodD(2) [OF g] f by (auto simp: mem_ok_def)
  let ?i = "''WebStream'' @ show_nat (idcount h)"
  let ?m0 = "(moModule_ctor ''Stream'' '''' '''' MO_MODULE_INPUT a)\<lparr>is_internal := True\<rparr>"
  let ?m1 = "?m0\<lparr>properties := smap_set ''scale'' (new_int 1 '''') (smap_set ''id'' (new_string ?i '''') (properties ?m0))\<rparr>"
  let ?inf = "info ''stream'' ''IplImage,IplImage8'' ''Image to stream on webbrowser''"
  let ?m2 = "?m1\<lparr>input_map := [(0, Cell (Some s))], input_infos := [(0, Some ?inf)]\<rparr>"
  let ?h = "h\<lparr>mods := (mods h)(a := Some ?m2), streams := (streams h)(s := Some (new_stream ''stream'')),
    idcount := (idcount h + 1) mod 4294967296, free_mods := as, free_streams := ss\<rparr>"
  have e: "input_map ?m1 = []" "input_infos ?m1 = []" by (simp_all add: moModule_ctor_def)
  have r: "new_stream_module h = Inr (a, ?h)"
    using f e by (simp add: new_stream_module_def alloc_stream_def createId_def declareInput_def Let_def put_module_def put_stream_def)
  let ?ps = "properties (moModule_ctor ''Stream'' '''' '''' MO_MODULE_INPUT a)"
  have "module_ok (moModule_ctor ''Stream'' '''' '''' MO_MODULE_INPUT a)" by simp
  then have b1: "smap_wf ?ps" "\<forall>p \<in> snd ` set ?ps. prop_wf p" unfolding module_ok_def by blast+
  have b2: "\<forall>p \<in> snd ` set ?ps. \<forall>c \<in> set (callbacks p). snd c = a"
    by (simp add: moModule_ctor_def new_simps prop_init_def)
  have new: "prop_wf (new_int 1 '''')" "prop_wf (new_string ?i '''')" "callbacks (new_int 1 '''') = []" "callbacks (new_string ?i '''') = []"
    by (simp_all add: new_simps prop_init_def prop_wf_def INT_MIN_def INT_MAX_def)
  have m1: "properties ?m1 = smap_set ''scale'' (new_int 1 '''') (smap_set ''id'' (new_string ?i '''') ?ps)" by simp
  have ps: "smap_wf (properties ?m1)" "\<forall>p \<in> snd ` set (properties ?m1). prop_wf p"
    "\<forall>p \<in> snd ` set (properties ?m1). \<forall>c \<in> set (callbacks p). snd c = a"
    unfolding m1 using b1 b2 new by (intro smap_wf_set smap_all_set; simp)+
  have ok: "module_ok ?m2" using ps by (simp add: module_ok_def io_ok_def moModule_ctor_def)
  have lok: "life_ok a ?m2" using ps(3) by (simp add: life_ok_def moModule_ctor_def)
  have "good ?h"
    by (rule add_reader_good [OF g mem(1,2) _ ok lok _ _ mem(3,4)])
      (use f in \<open>auto simp: new_stream_def moModule_ctor_def split: if_splits\<close>)
  then show ?thesis using r mem(1) by (auto simp: alive_def)
qed

context destructor_contract
begin

lemma served_stream:
  assumes ok: "app_ok st"
  shows "served (web_pipeline_stream (env_of vt frees n) (Some uri) st)"
  unfolding web_pipeline_stream_def env_of_simps Let_def
proof (intro served_with_query served_need_arg served_need_object ok)
  fix headers b st' assume st': "app_ok st'" and b: "b \<in> set (pl_modules (ap_pl st'))"
  let ?h = "ap_heap st'" and ?idx = "int_arg headers ''index'' 0"
  let ?ck = "\<lambda>a. \<lparr>ck_stream = a, ck_closed = False, ck_delay = int_arg headers ''delay'' 100\<rparr>"
  obtain m where m: "mods ?h b = Some m" using app_okD(5) [OF st' b] by (rule aliveE)
  obtain s where s: "getOutput m ?idx = Inr s" "\<forall>t. s = Some t \<longrightarrow> streams ?h t \<noteq> None"
    using getOutput_live [OF app_okD(2) [OF st'] m] by blast
  let ?scale = "\<lambda>a h. case evhttp_find_header headers ''scale'' of None \<Rightarrow> Inr h | Some v \<Rightarrow> property_set vt ''scale'' v a h"
  let ?rest = "\<lambda>(a, h). bindR (?scale a h) (\<lambda>h1. bindR (getOutput m ?idx) (\<lambda>s. bindR (setInput s 0 a h1) (\<lambda>h2.
       Inr (stream_reply, st'\<lparr>ap_heap := h2, ap_streams := ap_streams st' @ [?ck a]\<rparr>))))"
  have "served (bindR (new_stream_module ?h) ?rest)"
    using new_stream_module_good [OF app_okD(1) [OF st']]
  proof (elim disjE exE conjE)
    fix a h assume a: "new_stream_module ?h = Inr (a, h)" "\<not> alive ?h a" "good h" "alive h a" "\<forall>b. alive ?h b \<longrightarrow> alive h b"
      "\<forall>s. streams ?h s \<noteq> None \<longrightarrow> streams h s \<noteq> None"
    obtain ma where ma: "mods h a = Some ma" using a(4) by (rule aliveE)
    obtain h1 where h1: "?scale a h = Inr h1" "keeps h h1"
      using property_set_keeps [OF goodD(1) [OF a(3)] ma] keeps_refl [OF goodD(1) [OF a(3)]] by (cases "evhttp_find_header headers ''scale''") auto
    have "streams h1 t \<noteq> None" if "s = Some t" for t using that s(2) a(6) keeps_streams [OF h1(2)] by simp
    then obtain h2 where h2: "setInput s 0 a h1 = Inr h2" "good h2" "calm h1 h2"
      using setInput_good [OF keeps_good [OF h1(2) a(3)], of a s 0] keeps_alive [OF h1(2)] a(4) by auto
    have al: "alive h2 c" if "alive ?h c \<or> c = a" for c
      using that a(4,5) keeps_alive [OF h1(2)] calm_alive [OF h2(3)] by auto
    have "a \<notin> set (owned st')" using st' a(2) by (auto simp: app_ok_def)
    then have "app_ok (st'\<lparr>ap_heap := h2, ap_streams := ap_streams st' @ [?ck a]\<rparr>)"
      using st' h2(2) al by (auto simp: app_ok_def owned_def)
    then show ?thesis using a(1) h1(1) s(1) h2(1) by simp
  qed simp
  then show "served (bindR (get_module ?h b) (\<lambda>m. if ?idx < 0 \<or> ?idx \<ge> int (getOutputCount m)
      then web_error ''invalid index'' st'
      else bindR (new_stream_module ?h) (\<lambda>(a, h). bindR (?scale a h) (\<lambda>h1. bindR (getOutput m ?idx) (\<lambda>s.
         bindR (setInput s 0 a h1) (\<lambda>h2.
           Inr (stream_reply, st'\<lparr>ap_heap := h2, ap_streams := ap_streams st' @ [?ck a]\<rparr>)))))))"
    using m st' by (simp add: store_eval)
qed

end

section \<open>The main loop\<close>

text \<open>The elements that have an error to report.\<close>

definition faulty :: "heap \<Rightarrow> maddr list \<Rightarrow> maddr list" where
  "faulty h as = filter (\<lambda>a. \<exists>m. mods h a = Some m \<and> is_error m) as"

lemma any_error_faulty:
  assumes "\<forall>a \<in> set as. mods h a \<noteq> None"
  shows "any_error as h = Inr (case faulty h as of [] \<Rightarrow> None | a # _ \<Rightarrow> Some a)"
  using assms by (induction as) (auto simp: faulty_def store_eval)

lemma faulty_put:
  assumes "mods h a = Some m" "is_error m" "\<not> is_error m'" "a \<in> set as"
  shows "length (faulty (put_module a m' h) as) < length (faulty h as)"
proof -
  have "faulty (put_module a m' h) as = filter (\<lambda>b. b \<noteq> a) (faulty h as)"
    using assms(3) by (auto simp: faulty_def intro!: filter_cong)
  moreover have "a \<in> set (faulty h as)" using assms by (auto simp: faulty_def)
  ultimately show ?thesis using length_filter_less [of a "faulty h as" "\<lambda>b. b \<noteq> a"] by simp
qed

lemma error_loop_ends:
  assumes "heap_ok (ap_heap st)" "\<forall>a \<in> set (pl_modules (ap_pl st)). mods (ap_heap st) a \<noteq> None"
    and "pl_last_internal_error (ap_pl st) = ''''"
  shows "\<exists>st'. error_loop t st = Some (Inr st') \<and> keeps (ap_heap st) (ap_heap st') \<and> ap_pl st' = ap_pl st \<and>
    ap_streams st' = ap_streams st \<and> faulty (ap_heap st') (pl_modules (ap_pl st)) = [] \<and>
    ap_want_quit st' = (ap_want_quit st \<or> t \<and> faulty (ap_heap st) (pl_modules (ap_pl st)) \<noteq> [])"
  using assms
proof (induction "length (faulty (ap_heap st) (pl_modules (ap_pl st)))" arbitrary: st rule: less_induct)
  case less
  let ?h = "ap_heap st" and ?as = "pl_modules (ap_pl st)"
  note any = any_error_faulty [OF less.prems(2)]
  show ?case
  proof (cases "faulty ?h ?as")
    case Nil
    then have "error_loop t st = Some (Inr st)"
      using any less.prems(3) by (subst error_loop.simps) (simp add: pipe_haveError_def)
    then show ?thesis using Nil keeps_refl [OF less.prems(1)] by simp
  next
    case (Cons a bs)
    then have "a \<in> set (faulty ?h ?as)" by simp
    then obtain m where m: "a \<in> set ?as" "mods ?h a = Some m" "is_error m" by (auto simp: faulty_def)
    obtain s m' where m': "getLastError m = Inr (s, m')" "keeps ?h (put_module a m' ?h)" "\<not> is_error m'"
      using getLastError_keeps [OF less.prems(1) m(2)] by blast
    let ?st = "st\<lparr>ap_heap := put_module a m' ?h, ap_want_quit := ap_want_quit st \<or> t\<rparr>"
    have step: "error_loop t st = error_loop t ?st"
      using any Cons less.prems(3) m(2) m'(1)
      by (subst error_loop.simps) (simp add: pipe_haveError_def pipe_getLastError_def store_eval)
    have al: "\<forall>b \<in> set ?as. mods (put_module a m' ?h) b \<noteq> None" using less.prems(2) by simp
    obtain st' where "error_loop t ?st = Some (Inr st')" "keeps (put_module a m' ?h) (ap_heap st')" "ap_pl st' = ap_pl st"
      "ap_streams st' = ap_streams st" "faulty (ap_heap st') ?as = []" "ap_want_quit st' = (ap_want_quit st \<or> t)"
      using less.hyps [of ?st] faulty_put [OF m(2,3) m'(3) m(1)] keepsD(1) [OF m'(2)] al less.prems(3) by auto
    then show ?thesis using step Cons keeps_trans [OF m'(2)] by auto
  qed
qed

lemma error_loop_stuck:
  assumes "error_loop t st = Some r"
  shows "pl_last_internal_error (ap_pl st) = ''''"
proof (rule error_loop.raw_induct [where P = "\<lambda>t st r. pl_last_internal_error (ap_pl st) = ''''", OF _ assms])
  fix loop :: "bool \<Rightarrow> app \<Rightarrow> app result option" and t st r
  assume IH: "\<And>t st r. loop t st = Some r \<Longrightarrow> pl_last_internal_error (ap_pl st) = ''''"
    and body: "(case pipe_haveError (ap_pl st) (ap_heap st) of
        Inl e \<Rightarrow> Some (Inl e)
      | Inr b \<Rightarrow>
          if \<not> b then Some (Inr st)
          else (case pipe_getLastError (ap_pl st) (ap_heap st) of
             Inl e \<Rightarrow> Some (Inl e)
           | Inr (s, h) \<Rightarrow> loop t (st\<lparr>ap_heap := h, ap_want_quit := ap_want_quit st \<or> t\<rparr>))) = Some r"
  show "pl_last_internal_error (ap_pl st) = ''''"
  proof (rule ccontr)
    assume e: "pl_last_internal_error (ap_pl st) \<noteq> ''''"
    then have "loop t (st\<lparr>ap_want_quit := ap_want_quit st \<or> t\<rparr>) = Some r"
      using body by (simp add: pipe_haveError_def pipe_getLastError_def)
    from IH [OF this] e show False by simp
  qed
qed

context destructor_contract
begin

lemma virtual_poll_keeps:
  assumes "heap_ok h" "mods h a = Some m"
  shows "\<exists>h'. virtual_poll vt now now' a h = Inr h' \<and> keeps h h'"
proof -
  obtain h1 m1 where h1: "notifyUpdate vt now a h = Inr h1" "keeps h h1" "mods h1 a = Some m1"
    using notifyUpdate_keeps [OF assms, of now] by blast
  obtain h2 where h2: "moModule_poll vt now now' a h1 = Inr h2" "keeps h1 h2"
    using poll_keeps [OF keepsD(1) [OF h1(2)] h1(3)] by blast
  show ?thesis
    using poll_keeps [OF assms, of now now'] h1 h2 keeps_trans [OF h1(2) h2(2)] assms(2)
    by (auto simp: virtual_poll_def source_poll_def store_eval)
qed

text \<open>A turn of the main loop ends in a consistent application without pending errors.\<close>

lemma main_iteration_ok:
  assumes ok: "app_ok st"
  shows "\<exists>st'. main_iteration (env_of vt frees n) t now now' st = Some (Inr st') \<and> app_ok st'"
proof -
  obtain pm where pm: "mods (ap_heap st) (pl_this (ap_pl st)) = Some pm" using app_okD(6) [OF ok] by auto
  have al: "\<forall>b \<in> set (pl_modules (ap_pl st)). mods (ap_heap st) b \<noteq> None" using app_okD(6) [OF ok] by simp
  have "\<exists>h. each_module (virtual_poll vt now now') (pl_modules (ap_pl st)) (ap_heap st) = Inr h \<and> keeps (ap_heap st) h"
    by (rule each_module_keeps [OF virtual_poll_keeps app_okD(2) [OF ok] al])
  then obtain h where h: "pipe_poll vt now now' (ap_pl st) (ap_heap st) = Inr h" "keeps (ap_heap st) h"
    by (auto simp: pipe_poll_def)
  have ok1: "app_ok (set_heap h st)" by (rule app_ok_keeps [OF ok h(2)])
  have p1: "ap_pl (set_heap h st) = ap_pl st" by (simp add: set_heap_def)
  obtain st' where st': "error_loop t (set_heap h st) = Some (Inr st')" "keeps (ap_heap (set_heap h st)) (ap_heap st')"
    "ap_pl st' = ap_pl st" "ap_streams st' = ap_streams (set_heap h st)"
    using error_loop_ends [where t = t, OF app_okD(2) [OF ok1]] app_okD(6,7) [OF ok1] p1 by auto
  have "app_ok (set_heap (ap_heap st') (set_heap h st))" by (rule app_ok_keeps [OF ok1 st'(2)])
  then have "app_ok st'" using st'(3,4) p1 by (simp add: app_ok_def set_heap_def owned_def)
  then show ?thesis using pm h(1) st'(1) ok by (auto simp: main_iteration_def store_eval)
qed

end

section \<open>The server\<close>

definition path_of :: "string \<Rightarrow> string" where
  "path_of uri = takeWhile (\<lambda>c. c \<noteq> CHR ''?'') uri"

text \<open>The paths under which the reports and the preset slots are registered.\<close>

definition report_paths :: "string list" where
  "report_paths =
     [''/factory/list'', ''/factory/describe'', ''/pipeline/status'', ''/pipeline/gui'', ''/pipeline/dump'',
      ''/pipeline/stats'', ''/pipeline/slot/refresh'', ''/pipeline/slot/load'', ''/pipeline/slot/save'']"

definition building :: "string \<Rightarrow> bool" where
  "building uri \<longleftrightarrow> CHR 0x00 \<notin> set uri \<and> path_of uri \<notin> set report_paths"

lemma served_file: "app_ok st \<Longrightarrow> served (web_file files guidir uri st)"
  by (simp add: web_file_def Let_def split: option.split)

lemma serve_eq:
  assumes "CHR 0x00 \<notin> set uri"
  shows "serve ev w uri = (case map_of (callbacks_table ev w) (path_of uri) of
     Some cb \<Rightarrow> cb (Some uri) | None \<Rightarrow> web_file (w_files w) (w_guidir w) uri)"
proof -
  have "\<forall>(p, cb) \<in> set (callbacks_table ev w). CHR 0x00 \<notin> set p" by (simp add: callbacks_table_def)
  from dispatch_map_of [OF this assms] show ?thesis by (simp add: serve_def path_of_def)
qed

context destructor_contract
begin

lemma served_callback:
  assumes ok: "app_ok st" and cb: "(p, cb) \<in> set (callbacks_table (env_of vt frees n) w)" and p: "p \<notin> set report_paths"
  shows "served (cb (Some uri) st)"
proof -
  have "served (web_index st)" using ok by (simp add: web_index_def)
  note all = this served_create [OF ok, of n uri] served_remove [OF ok, of n uri] served_connect [OF ok, of uri]
    served_set [OF ok, of n uri] served_get [OF ok, of uri] served_stream [OF ok, of n uri] served_run [OF ok]
  have "\<forall>(p, cb) \<in> set (callbacks_table (env_of vt frees n) w). p \<notin> set report_paths \<longrightarrow> served (cb (Some uri) st)"
    unfolding callbacks_table_def report_paths_def by (simp add: all)
  with cb p show ?thesis by blast
qed

lemma served_serve:
  assumes "app_ok st" "building uri"
  shows "served (serve (env_of vt frees n) w uri st)"
proof (cases "map_of (callbacks_table (env_of vt frees n) w) (path_of uri)")
  case None
  then show ?thesis using assms served_file by (simp add: serve_eq building_def)
next
  case (Some cb)
  then show ?thesis
    using assms served_callback [OF assms(1) map_of_SomeD [OF Some]] by (simp add: serve_eq building_def)
qed

lemma serve_all_ok:
  assumes "app_ok st" "\<forall>uri \<in> set uris. building uri"
  shows "case serve_all (env_of vt frees n) w uris st of Inl e \<Rightarrow> e = BadAlloc | Inr st' \<Rightarrow> app_ok st'"
  using assms
proof (induction uris arbitrary: st)
  case (Cons uri uris)
  have s: "served (serve (env_of vt frees n) w uri st)" using served_serve Cons.prems by simp
  show ?case
  proof (cases "serve (env_of vt frees n) w uri st")
    case (Inl e)
    then show ?thesis using s by (simp add: served_def)
  next
    case (Inr b)
    then show ?thesis using s Cons by (cases b) (simp add: served_def)
  qed
qed simp

lemma main_loop_ok:
  assumes "app_ok st" "\<forall>(w, now', uris) \<in> set turns. \<forall>uri \<in> set uris. building uri"
  shows "\<exists>r. main_loop (env_of vt frees n) t turns st = Some r \<and> (case r of Inl e \<Rightarrow> e = BadAlloc | Inr st' \<Rightarrow> app_ok st')"
  using assms
proof (induction turns arbitrary: st)
  case (Cons turn turns)
  obtain w now' uris where turn: "turn = (w, now', uris)" by (cases turn)
  obtain st1 where st1: "main_iteration (env_of vt frees n) t (w_now w) now' st = Some (Inr st1)" "app_ok st1"
    using main_iteration_ok [OF Cons.prems(1)] by blast
  have "\<forall>uri \<in> set uris. building uri" using Cons.prems(2) turn by simp
  note ok2 = serve_all_ok [OF st1(2) this, of n w]
  show ?case
  proof (cases "ap_want_quit st")
    case False
    show ?thesis
    proof (cases "serve_all (env_of vt frees n) w uris st1")
      case (Inl e)
      then show ?thesis using ok2 False turn st1(1) by simp
    next
      case (Inr st2)
      then have "app_ok st2" using ok2 by simp
      from Cons.IH [OF this] show ?thesis using Cons.prems(2) Inr False turn st1(1) by simp
    qed
  qed (use Cons.prems(1) turn in simp)
qed simp

end

section \<open>Properties\<close>


definition demo_app :: app where
  "demo_app = \<lparr>ap_pl = demo_pipeline, ap_heap = demo_heap, ap_want_quit = False, ap_delay = 5,
     ap_slots = (\<lambda>_. None), ap_streams = []\<rparr>"

definition demo_world :: world where
  "demo_world = \<lparr>w_now = 1, w_date = '''', w_files = (\<lambda>_. None), w_mtime = (\<lambda>_. None), w_writable = (\<lambda>_. False), w_guidir = ''gui/html''\<rparr>"

lemma demo_app_ok: "app_ok demo_app"
  using demo_good by (simp add: app_ok_def demo_app_def owned_def alive_def demo_pipeline_def demo_heap_def)


text \<open>C25. The loop of \<open>main\<close> that reports the errors of the pipeline ends exactly when the pipeline
  itself has no error: \<open>getLastError\<close> clears the error of an element, but never
  \<open>last_internal_error\<close>.\<close>

theorem error_loop_returns_iff:
  assumes "heap_ok (ap_heap st)" and "\<forall>a \<in> set (pl_modules (ap_pl st)). mods (ap_heap st) a \<noteq> None"
  shows "(\<exists>r. error_loop test_mode st = Some r) \<longleftrightarrow> pl_last_internal_error (ap_pl st) = ''''"
  using error_loop_ends [OF assms] error_loop_stuck by blast

theorem error_loop_returns_iff_witness:
  "(\<exists>r. error_loop False demo_app = Some r) \<and>
   error_loop False (demo_app\<lparr>ap_pl := demo_pipeline\<lparr>pl_last_internal_error := ''unable to open file''\<rparr>\<rparr>) = None"
proof -
  let ?bad = "demo_app\<lparr>ap_pl := demo_pipeline\<lparr>pl_last_internal_error := ''unable to open file''\<rparr>\<rparr>"
  have al: "\<forall>a \<in> set (pl_modules (ap_pl demo_app)). mods (ap_heap demo_app) a \<noteq> None"
    using app_okD(6) [OF demo_app_ok] by simp
  have "\<forall>a \<in> set (pl_modules (ap_pl ?bad)). mods (ap_heap ?bad) a \<noteq> None" "heap_ok (ap_heap ?bad)"
    using al app_okD(2) [OF demo_app_ok] by (simp_all add: demo_app_def)
  from error_loop_returns_iff [OF this(2,1), of False] have "error_loop False ?bad = None"
    by (cases "error_loop False ?bad") auto
  moreover have "pl_last_internal_error (ap_pl demo_app) = ''''" by (simp add: demo_app_def demo_pipeline_def)
  ultimately show ?thesis using error_loop_returns_iff [OF app_okD(2) [OF demo_app_ok] al, of False] by blast
qed

text \<open>A request to quit is answered and forgotten: \<open>web_pipeline_quit\<close> leaves \<open>want_quit\<close>
  false, so the main loop goes on.\<close>

theorem quit_is_ignored:
  "\<exists>r. serve ev w ''/pipeline/quit'' st = Inr (r, st\<lparr>ap_want_quit := False\<rparr>)"
proof -
  have "CHR 0x00 \<notin> set ''/pipeline/quit''" by simp
  then have "serve ev w ''/pipeline/quit'' = web_pipeline_quit"
    by (simp add: serve_eq path_of_def callbacks_table_def)
  then show ?thesis using web_message_total [of 1 "''bye''" st] by (auto simp: web_pipeline_quit_def)
qed

lemma occurs_sub:
  assumes "occurs t v" "u = x @ v @ y"
  shows "occurs t u"
proof -
  obtain i where i0: "i \<in> set [0..<Suc (length v)]" and i: "take (length t) (drop i v) = t"
    using assms(1) unfolding occurs_def list_ex_iff by blast
  have le: "i \<le> length v" using i0 by (simp only: set_upt atLeastLessThan_iff less_Suc_eq_le)
  from arg_cong [OF i, of length] have "length t \<le> length v - i" by simp
  then have "take (length t) (drop (length x + i) u) = t" using i le assms(2) by simp
  moreover have "length x + i \<in> set [0..<Suc (length u)]" using le assms(2) by (simp only: set_upt) simp
  ultimately show ?thesis unfolding occurs_def list_ex_iff by blast
qed

lemma strsep_first: "the (fst (strsep c (Some s))) = takeWhile (\<lambda>x. x \<noteq> c) s"
  by (simp add: strsep_def)

text \<open>C33. The web server serves files below its directory only. The reply to a request for a file
  depends on no file but those whose name is the directory, a slash and a rest without two
  dots in a row (cut to 255 characters): two machines that agree on these files answer alike.\<close>

theorem file_confined:
  assumes "\<forall>rest. \<not> occurs ''..'' rest \<longrightarrow>
    files (take 255 (guidir @ ''/'' @ rest)) = files' (take 255 (guidir @ ''/'' @ rest))"
  shows "web_file files guidir uri st = web_file files' guidir uri st"
proof (cases "take 5 uri \<noteq> ''/gui/'' \<or> occurs ''..'' uri")
  case True
  then show ?thesis by (auto simp: web_file_def)
next
  case False
  let ?rest = "drop 5 (takeWhile (\<lambda>x. x \<noteq> CHR ''?'') uri)"
  have "uri = take 5 (takeWhile (\<lambda>x. x \<noteq> CHR ''?'') uri) @ ?rest @ dropWhile (\<lambda>x. x \<noteq> CHR ''?'') uri"
    by (metis append.assoc append_take_drop_id takeWhile_dropWhile_id)
  with False occurs_sub have "\<not> occurs ''..'' ?rest" by metis
  with assms have "files (file_name guidir uri) = files' (file_name guidir uri)"
    by (simp add: file_name_def strsep_first)
  with False show ?thesis by (simp add: web_file_def Let_def)
qed

theorem file_confined_witness:
  "web_file (\<lambda>f. if f = ''/etc/passwd'' then Some ''root'' else None) ''gui'' ''/gui/../etc/passwd'' demo_app =
   web_file (\<lambda>f. None) ''gui'' ''/gui/../etc/passwd'' demo_app"
proof (rule file_confined, intro allI impI)
  fix rest :: string
  have "take 255 (''gui'' @ ''/'' @ rest) \<noteq> ''/etc/passwd''" by simp
  then show "(if take 255 (''gui'' @ ''/'' @ rest) = ''/etc/passwd'' then Some ''root'' else None) = None" by simp
qed

end
