(* ===== verification/Movid_Thread.thy ===== *)
theory Movid_Thread
  imports Movid_Prelude
begin

text \<open>
  The protocol between the worker thread of a module, any number of threads that notify it and the
  thread that stops it (\<open>src/moModule.cpp\<close>: \<open>_thread_process\<close>, \<open>needUpdate(true)\<close>,
  \<open>notifyUpdate\<close>, \<open>stop\<close>; \<open>src/moThread.cpp\<close>; the trigger of
  \<open>contrib/ptypes-2.1.1/src/ptrigger.cxx\<close>).

  Every statement that reads or writes a shared variable is a step of its own, so the threads
  interleave between the test of \<open>need_update\<close> and its reset, between the reset and the begin of
  \<open>update\<close>, and between setting it and posting the trigger. The shared variables are sequentially
  consistent. The period modelled runs from the return of \<open>start\<close> on a threaded
  module to the return of \<open>stop\<close>. Two ghost variables record what the program owes: \<open>owed\<close>
  holds from a notification until the next \<open>update\<close> begins, and \<open>begun\<close> counts the updates
  that began.
\<close>

section \<open>State\<close>

datatype worker = WTest | WNeed1 | WClear1 | WWait | WNeed2 | WClear2 | WBegin | WUpdate | WDone
datatype notifier = NIdle | NSet | NPost
datatype stopper = SRun | SPost | SJoin | SDone
datatype agent = Worker | Notifier nat | Stopper

record tstate =
  wk :: worker
  nt :: "nat \<Rightarrow> notifier"
  sp :: stopper
  flag :: bool
  trig :: bool
  want_quit :: bool
  owed :: bool
  begun :: nat

text \<open>The trigger is created with autoreset: \<open>wait\<close> returns only when it is posted, and
  resets it; \<open>post\<close> sets it.\<close>

definition trigger_wait :: "tstate \<Rightarrow> tstate option" where
  "trigger_wait s = (if trig s then Some (s\<lparr>trig := False\<rparr>) else None)"

definition trigger_post :: "tstate \<Rightarrow> tstate" where
  "trigger_post s = s\<lparr>trig := True\<rparr>"

text \<open>\<open>need_update = false; return true\<close>\<close>

definition clear_flag :: "tstate \<Rightarrow> tstate" where
  "clear_flag s = s\<lparr>wk := WBegin, flag := False\<rparr>"

section \<open>Steps\<close>

text \<open>\<open>_thread_process\<close> with \<open>needUpdate(true)\<close> inlined.\<close>

inductive worker_step :: "tstate \<Rightarrow> tstate \<Rightarrow> bool" where
  quit: "wk s = WTest \<Longrightarrow> want_quit s \<Longrightarrow> worker_step s (s\<lparr>wk := WDone\<rparr>)"
| loop: "wk s = WTest \<Longrightarrow> \<not> want_quit s \<Longrightarrow> worker_step s (s\<lparr>wk := WNeed1\<rparr>)"
| need1: "wk s = WNeed1 \<Longrightarrow> worker_step s (s\<lparr>wk := (if flag s then WClear1 else WWait)\<rparr>)"
| clear1: "wk s = WClear1 \<Longrightarrow> worker_step s (clear_flag s)"
| wait: "wk s = WWait \<Longrightarrow> trigger_wait s = Some s' \<Longrightarrow> worker_step s (s'\<lparr>wk := WNeed2\<rparr>)"
| need2: "wk s = WNeed2 \<Longrightarrow> worker_step s (s\<lparr>wk := (if flag s then WClear2 else WTest)\<rparr>)"
| clear2: "wk s = WClear2 \<Longrightarrow> worker_step s (clear_flag s)"
| enter: "wk s = WBegin \<Longrightarrow> worker_step s (s\<lparr>wk := WUpdate, owed := False, begun := begun s + 1\<rparr>)"
| update: "wk s = WUpdate \<Longrightarrow> worker_step s (s\<lparr>wk := WTest\<rparr>)"

text \<open>\<open>notifyUpdate\<close> on a started module, in the notifying thread \<open>i\<close>.\<close>

inductive notifier_step :: "nat \<Rightarrow> tstate \<Rightarrow> tstate \<Rightarrow> bool" where
  call: "nt s i = NIdle \<Longrightarrow> notifier_step i s (s\<lparr>nt := (nt s)(i := NSet)\<rparr>)"
| set: "nt s i = NSet \<Longrightarrow> notifier_step i s (s\<lparr>nt := (nt s)(i := NPost), flag := True, owed := True\<rparr>)"
| post: "nt s i = NPost \<Longrightarrow> notifier_step i s ((trigger_post s)\<lparr>nt := (nt s)(i := NIdle)\<rparr>)"

text \<open>\<open>stop\<close>: \<open>thread->stop()\<close>, \<open>thread_trigger->post()\<close>, \<open>thread->waitfor()\<close>.\<close>

inductive stopper_step :: "tstate \<Rightarrow> tstate \<Rightarrow> bool" where
  stop: "sp s = SRun \<Longrightarrow> stopper_step s (s\<lparr>sp := SPost, want_quit := True\<rparr>)"
| post: "sp s = SPost \<Longrightarrow> stopper_step s ((trigger_post s)\<lparr>sp := SJoin\<rparr>)"
| join: "sp s = SJoin \<Longrightarrow> wk s = WDone \<Longrightarrow> stopper_step s (s\<lparr>sp := SDone\<rparr>)"

fun step :: "agent \<Rightarrow> tstate \<Rightarrow> tstate \<Rightarrow> bool" where
  "step Worker s s' = worker_step s s'"
| "step (Notifier i) s s' = notifier_step i s s'"
| "step Stopper s s' = stopper_step s s'"

text \<open>After \<open>start\<close>: a new trigger is not posted, a trigger left from an earlier run may be,
  and so may be the request flag.\<close>

definition started :: "bool \<Rightarrow> bool \<Rightarrow> tstate" where
  "started f t = \<lparr>wk = WTest, nt = (\<lambda>_. NIdle), sp = SRun, flag = f, trig = t, want_quit = False, owed = False, begun = 0\<rparr>"

inductive reach :: "tstate \<Rightarrow> bool" where
  init: "reach (started f t)"
| more: "reach s \<Longrightarrow> step ag s s' \<Longrightarrow> reach s'"

inductive run :: "tstate \<Rightarrow> agent list \<Rightarrow> tstate \<Rightarrow> bool" where
  Nil: "run s [] s"
| Cons: "step ag s s1 \<Longrightarrow> run s1 ags s' \<Longrightarrow> run s (ag # ags) s'"

inductive_cases run_NilE [elim!]: "run s [] s'"
inductive_cases run_ConsE [elim!]: "run s (ag # ags) s'"
inductive_cases worker_stepE: "worker_step s s'"
inductive_cases notifier_stepE: "notifier_step i s s'"
inductive_cases stopper_stepE: "stopper_step s s'"

section \<open>The invariant\<close>

definition tinv :: "tstate \<Rightarrow> bool" where
  "tinv s \<longleftrightarrow>
     (owed s \<longrightarrow> flag s \<or> wk s \<in> {WClear1, WClear2, WBegin}) \<and>
     (wk s = WWait \<and> flag s \<longrightarrow> trig s \<or> (\<exists>i. nt s i = NPost)) \<and>
     (want_quit s \<longleftrightarrow> sp s \<noteq> SRun) \<and>
     (sp s \<in> {SJoin, SDone} \<and> wk s \<in> {WNeed1, WWait} \<longrightarrow> trig s) \<and>
     (wk s = WDone \<longrightarrow> want_quit s)"

lemmas thread_defs = trigger_wait_def trigger_post_def clear_flag_def

lemma tinv_worker: "worker_step s s' \<Longrightarrow> tinv s \<Longrightarrow> tinv s'"
  by (erule worker_step.cases) (auto simp: tinv_def thread_defs split: if_splits)

lemma tinv_notifier: "notifier_step i s s' \<Longrightarrow> tinv s \<Longrightarrow> tinv s'"
proof (erule notifier_step.cases)
  fix s0 i0
  assume s: "s = s0" "s' = s0\<lparr>nt := (nt s0)(i0 := NSet)\<rparr>" "nt s0 i0 = NIdle" "tinv s"
  have "\<exists>j. ((nt s0)(i0 := NSet)) j = NPost" if "\<exists>j. nt s0 j = NPost" using that s(3) by (metis fun_upd_other notifier.distinct(4))
  then show "tinv s'" using s by (simp add: tinv_def del: fun_upd_apply) argo
qed (auto simp: tinv_def thread_defs)

lemma tinv_stopper: "stopper_step s s' \<Longrightarrow> tinv s \<Longrightarrow> tinv s'"
  by (erule stopper_step.cases) (auto simp: tinv_def thread_defs)

lemma tinv_step: "step ag s s' \<Longrightarrow> tinv s \<Longrightarrow> tinv s'"
  by (cases ag) (auto intro: tinv_worker tinv_notifier tinv_stopper)

lemma reach_tinv: "reach s \<Longrightarrow> tinv s"
proof (induction rule: reach.induct)
  case (init f t)
  then show ?case by (simp add: tinv_def started_def)
qed (blast intro: tinv_step)

lemma want_quit_mono: "step ag s s' \<Longrightarrow> want_quit s \<Longrightarrow> want_quit s'"
  by (cases ag) (auto elim!: worker_stepE notifier_stepE stopper_stepE simp: thread_defs split: if_splits)

lemma run_want_quit: "run s ags s' \<Longrightarrow> want_quit s \<Longrightarrow> want_quit s'"
  by (induction rule: run.induct) (auto dest: want_quit_mono)

lemma worker_enabled:
  "wk s \<noteq> WDone \<Longrightarrow> wk s = WWait \<longrightarrow> trig s \<Longrightarrow> \<exists>s'. step Worker s s'"
proof -
  assume nd: "wk s \<noteq> WDone" and w: "wk s = WWait \<longrightarrow> trig s"
  have "\<exists>s'. worker_step s s'" if "wk s = WWait"
    using worker_step.wait [OF that, of "s\<lparr>trig := False\<rparr>"] w that by (auto simp: trigger_wait_def)
  then show ?thesis using nd
    by (cases "wk s"; cases "want_quit s") (auto intro: worker_step.intros)
qed

section \<open>Progress measures\<close>

text \<open>How many steps of the worker are left at most until an owed update begins, and until it
  quits once asked to.\<close>

fun upd_rank :: "worker \<Rightarrow> nat" where
  "upd_rank WBegin = 1" | "upd_rank WClear1 = 2" | "upd_rank WClear2 = 2" | "upd_rank WNeed1 = 3" | "upd_rank WNeed2 = 3"
| "upd_rank WTest = 4" | "upd_rank WWait = 4" | "upd_rank WUpdate = 5" | "upd_rank WDone = 0"

fun quit_rank :: "worker \<Rightarrow> nat" where
  "quit_rank WDone = 0" | "quit_rank WTest = 1" | "quit_rank WUpdate = 2" | "quit_rank WBegin = 3" | "quit_rank WClear1 = 4"
| "quit_rank WClear2 = 4" | "quit_rank WNeed2 = 5" | "quit_rank WWait = 6" | "quit_rank WNeed1 = 7"

lemma worker_upd_rank:
  "worker_step s s' \<Longrightarrow> tinv s \<Longrightarrow> owed s \<Longrightarrow> \<not> want_quit s \<Longrightarrow>
     begun s' = begun s + 1 \<or> (owed s' \<and> begun s' = begun s \<and> upd_rank (wk s') < upd_rank (wk s))"
  by (erule worker_step.cases) (auto simp: tinv_def thread_defs split: if_splits)

lemma other_upd_rank:
  "step ag s s' \<Longrightarrow> ag \<noteq> Worker \<Longrightarrow> owed s \<Longrightarrow> owed s' \<and> begun s' = begun s \<and> wk s' = wk s"
  by (cases ag) (auto elim!: notifier_stepE stopper_stepE simp: thread_defs)

lemma worker_quit_rank:
  "worker_step s s' \<Longrightarrow> want_quit s \<Longrightarrow> quit_rank (wk s') < quit_rank (wk s)"
  by (erule worker_step.cases) (auto simp: thread_defs split: if_splits)

lemma other_wk: "step ag s s' \<Longrightarrow> ag \<noteq> Worker \<Longrightarrow> wk s' = wk s"
  by (cases ag) (auto elim!: notifier_stepE stopper_stepE simp: thread_defs)

lemma begun_mono: "step ag s s' \<Longrightarrow> begun s \<le> begun s'"
  by (cases ag) (auto elim!: worker_stepE notifier_stepE stopper_stepE simp: thread_defs split: if_splits)

lemma run_begun_mono: "run s ags s' \<Longrightarrow> begun s \<le> begun s'"
  by (induction rule: run.induct) (auto dest: begun_mono)

lemma run_update:
  "run s ags s' \<Longrightarrow> tinv s \<Longrightarrow> owed s \<Longrightarrow> \<not> want_quit s' \<Longrightarrow>
     upd_rank (wk s) \<le> count_list ags Worker \<Longrightarrow> 0 < upd_rank (wk s) \<Longrightarrow> begun s < begun s'"
proof (induction rule: run.induct)
  case (Cons ag s s1 ags s')
  have nq1: "\<not> want_quit s1" using run_want_quit [OF Cons(2)] Cons.prems(3) by blast
  then have nq: "\<not> want_quit s" using want_quit_mono [OF Cons(1)] by blast
  have inv1: "tinv s1" using tinv_step [OF Cons(1) Cons.prems(1)] .
  have r1: "0 < upd_rank (wk s1)" using inv1 nq1 by (cases "wk s1") (auto simp: tinv_def)
  show ?case
  proof (cases "ag = Worker")
    case True
    with Cons(1) have w: "worker_step s s1" by simp
    show ?thesis
      using worker_upd_rank [OF w Cons.prems(1,2) nq] run_begun_mono [OF Cons(2)]
        Cons.IH [OF inv1 _ Cons.prems(3) _ r1] Cons.prems(4) True by auto
  next
    case False
    show ?thesis
      using other_upd_rank [OF Cons(1) False Cons.prems(2)] Cons.IH [OF inv1 _ Cons.prems(3) _ r1]
        Cons.prems(4) False by simp
  qed
qed simp

lemma run_quit:
  "run s ags s' \<Longrightarrow> want_quit s \<Longrightarrow> quit_rank (wk s) \<le> count_list ags Worker \<Longrightarrow> wk s' = WDone"
proof (induction rule: run.induct)
  case (Nil s)
  then show ?case by (cases "wk s") auto
next
  case (Cons ag s s1 ags s')
  have q1: "want_quit s1" using want_quit_mono [OF Cons(1) Cons.prems(1)] .
  show ?case
  proof (cases "ag = Worker")
    case True
    then have "quit_rank (wk s1) < quit_rank (wk s)"
      using worker_quit_rank [of s s1] Cons(1) Cons.prems(1) by simp
    then show ?thesis using Cons.IH [OF q1] Cons.prems(2) True by simp
  next
    case False
    then show ?thesis using Cons.IH [OF q1] other_wk [OF Cons(1) False] Cons.prems(2) by simp
  qed
qed

lemma quit_rank_le: "quit_rank w \<le> 7"
  by (cases w) auto

text \<open>A worker that waits, is notified, and is then stopped.\<close>

lemma reach_waiting: "reach ((started False False)\<lparr>wk := WWait\<rparr>)"
proof -
  have "reach (started False False)" by (rule reach.init)
  then have "reach ((started False False)\<lparr>wk := WNeed1\<rparr>)"
    by (rule reach.more [of _ Worker]) (use worker_step.loop [of "started False False"] in \<open>simp add: started_def\<close>)
  then show ?thesis
    by (rule reach.more [of _ Worker])
      (use worker_step.need1 [of "(started False False)\<lparr>wk := WNeed1\<rparr>"] in \<open>simp add: started_def\<close>)
qed

definition waiting :: tstate where
  "waiting = (started False False)\<lparr>wk := WWait\<rparr>"

lemma reach_notified: "reach (waiting\<lparr>flag := True, owed := True, trig := True\<rparr>)"
proof -
  have id: "(\<lambda>_. NIdle)(0 := NIdle) = (\<lambda>_::nat. NIdle)" by (rule ext) simp
  have "reach (waiting\<lparr>nt := (\<lambda>_. NIdle)(0 := NSet)\<rparr>)"
    by (rule reach.more [OF reach_waiting, of "Notifier 0"])
      (use notifier_step.call [of waiting 0] in \<open>simp add: waiting_def started_def\<close>)
  then have "reach (waiting\<lparr>nt := (\<lambda>_. NIdle)(0 := NPost), flag := True, owed := True\<rparr>)"
    by (rule reach.more [of _ "Notifier 0"])
      (use notifier_step.set [of "waiting\<lparr>nt := (\<lambda>_. NIdle)(0 := NSet)\<rparr>" 0] in \<open>simp add: waiting_def started_def\<close>)
  then show ?thesis
    by (rule reach.more [of _ "Notifier 0"])
      (use notifier_step.post [of "waiting\<lparr>nt := (\<lambda>_. NIdle)(0 := NPost), flag := True, owed := True\<rparr>" 0]
       in \<open>simp add: waiting_def started_def trigger_post_def id\<close>)
qed

lemma reach_stopping: "reach (waiting\<lparr>sp := SJoin, want_quit := True, trig := True\<rparr>)"
proof -
  have "reach (waiting\<lparr>sp := SPost, want_quit := True\<rparr>)"
    by (rule reach.more [OF reach_waiting, of Stopper])
      (use stopper_step.stop [of waiting] in \<open>simp add: waiting_def started_def\<close>)
  then show ?thesis
    by (rule reach.more [of _ Stopper])
      (use stopper_step.post [of "waiting\<lparr>sp := SPost, want_quit := True\<rparr>"]
       in \<open>simp add: waiting_def started_def trigger_post_def\<close>)
qed

section \<open>Properties\<close>

text \<open>C9. No wake-up is lost while the module is not asked to stop. In every reachable state in which a notification is
  owed and no stop has been requested, the worker can take a step, or one of the notifying threads stands between setting
  the flag and posting the trigger; the post of any such thread makes the worker able to take a step. And in every
  interleaving of the worker with any number of notifying threads in which no stop is requested and the worker takes five
  more steps, an \<open>update\<close> begins after the notification.\<close>

theorem no_lost_update:
  assumes "reach s" and "owed s" and "\<not> want_quit s"
  shows "((\<exists>s'. step Worker s s') \<or> (\<exists>i. nt s i = NPost)) \<and>
    (\<forall>i s'. nt s i = NPost \<and> step (Notifier i) s s' \<longrightarrow> (\<exists>s''. step Worker s' s'')) \<and>
    (\<forall>ags s'. run s ags s' \<and> \<not> want_quit s' \<and> 5 \<le> count_list ags Worker \<longrightarrow> begun s < begun s')"
proof (intro conjI allI impI)
  have inv: "tinv s" using reach_tinv [OF assms(1)] .
  have w: "wk s \<noteq> WDone" using inv assms(3) by (auto simp: tinv_def)
  show "(\<exists>s'. step Worker s s') \<or> (\<exists>i. nt s i = NPost)"
    using worker_enabled [OF w] inv assms(2) by (auto simp: tinv_def)
  show "\<exists>s''. step Worker s' s''" if "nt s i = NPost \<and> step (Notifier i) s s'" for i s'
    using that w by (intro worker_enabled) (auto elim!: notifier_stepE simp: trigger_post_def)
  show "begun s < begun s'"
    if r: "run s ags s' \<and> \<not> want_quit s' \<and> 5 \<le> count_list ags Worker" for ags s'
  proof (rule run_update)
    show "upd_rank (wk s) \<le> count_list ags Worker" using r by (cases "wk s") auto
    show "0 < upd_rank (wk s)" using w by (cases "wk s") auto
  qed (use r inv assms(2) in auto)
qed

theorem no_lost_update_witness:
  "\<exists>s. reach s \<and> owed s \<and> \<not> want_quit s \<and> wk s = WWait \<and> (\<exists>s'. step Worker s s') \<and>
     (\<forall>ags s'. run s ags s' \<and> \<not> want_quit s' \<and> 5 \<le> count_list ags Worker \<longrightarrow> begun s < begun s')"
proof -
  let ?s = "waiting\<lparr>flag := True, owed := True, trig := True\<rparr>"
  have o: "owed ?s" "\<not> want_quit ?s" by (simp_all add: waiting_def started_def)
  have "nt ?s i \<noteq> NPost" "wk ?s = WWait" for i by (simp_all add: waiting_def started_def)
  with o no_lost_update [OF reach_notified o] reach_notified show ?thesis by blast
qed

text \<open>C17. Stopping a module returns. Once \<open>stop\<close> waits for the thread, the worker is never
  blocked, it is done after at most seven of its own steps in every interleaving with further
  notifications, and then the wait ends.\<close>

theorem stop_returns:
  assumes "reach s" and "sp s = SJoin"
  shows "(wk s \<noteq> WDone \<longrightarrow> (\<exists>s'. step Worker s s')) \<and>
    (wk s = WDone \<longrightarrow> (\<exists>s'. step Stopper s s' \<and> sp s' = SDone)) \<and>
    (\<forall>ags s'. run s ags s' \<and> 7 \<le> count_list ags Worker \<longrightarrow> wk s' = WDone)"
proof (intro conjI allI impI)
  have inv: "tinv s" using reach_tinv [OF assms(1)] .
  show "\<exists>s'. step Worker s s'" if "wk s \<noteq> WDone"
    using that inv assms(2) by (intro worker_enabled) (auto simp: tinv_def)
  show "\<exists>s'. step Stopper s s' \<and> sp s' = SDone" if "wk s = WDone"
    using stopper_step.join [OF assms(2) that] by (intro exI [of _ "s\<lparr>sp := SDone\<rparr>"]) simp
  show "wk s' = WDone" if r: "run s ags s' \<and> 7 \<le> count_list ags Worker" for ags s'
    using r inv assms(2) quit_rank_le [of "wk s"] by (intro run_quit [of s ags]) (auto simp: tinv_def)
qed

theorem stop_returns_witness:
  "\<exists>s. reach s \<and> sp s = SJoin \<and> wk s = WWait \<and> (\<exists>s'. step Worker s s') \<and>
     (\<forall>ags s'. run s ags s' \<and> 7 \<le> count_list ags Worker \<longrightarrow> wk s' = WDone)"
proof -
  let ?s = "waiting\<lparr>sp := SJoin, want_quit := True, trig := True\<rparr>"
  have j: "sp ?s = SJoin" by simp
  have "wk ?s = WWait" by (simp add: waiting_def started_def)
  with j stop_returns [OF reach_stopping j] reach_stopping show ?thesis by force
qed

end
