(* ===== verification/Movid_Evbuffer.thy ===== *)
theory Movid_Evbuffer
  imports Movid_Prelude
begin

text \<open>
  \<open>struct evbuffer\<close> of libevent (\<open>contrib/libevent-1.4.13-stable/buffer.c\<close>): bytes that are added at
  the end and drained from the front. The record has the fields of the struct: the block
  \<open>orig_buffer\<close> points to (empty for a null pointer; \<open>None\<close> is a byte that was never written),
  the distance from \<open>orig_buffer\<close> to \<open>buffer\<close>, and the three sizes, which are \<open>size_t\<close>:
  sums are taken modulo \<open>2 ^ 64\<close>. A read or write outside the block is \<open>Undefined\<close>. What \<open>realloc\<close> grants is an
  argument. \<open>cb\<close> tells whether a callback is set; its calls, with the old and the new
  length, are recorded.

  The locale \<open>byte_queue\<close> states what the users of a buffer rely on.
\<close>

section \<open>State\<close>

record 'b evbuffer =
  eb_mem :: "'b option list"
  eb_buffer :: nat
  eb_misalign :: nat
  eb_totallen :: nat
  eb_off :: nat
  eb_cb :: bool
  eb_calls :: "(nat \<times> nat) list"

definition size_of :: "nat \<Rightarrow> nat" where
  "size_of n = n mod 2 ^ 64"

definition evbuffer_new :: "'b evbuffer" where
  "evbuffer_new =
     \<lparr>eb_mem = [], eb_buffer = 0, eb_misalign = 0, eb_totallen = 0, eb_off = 0, eb_cb = False, eb_calls = []\<rparr>"

definition evbuffer_setcb :: "bool \<Rightarrow> 'b evbuffer \<Rightarrow> 'b evbuffer" where
  "evbuffer_setcb c buf = buf\<lparr>eb_cb := c\<rparr>"

definition call_cb :: "nat \<Rightarrow> 'b evbuffer \<Rightarrow> 'b evbuffer" where
  "call_cb oldoff buf = (if eb_cb buf then buf\<lparr>eb_calls := eb_calls buf @ [(oldoff, eb_off buf)]\<rparr> else buf)"

section \<open>Operations\<close>

definition mem_read :: "nat \<Rightarrow> nat \<Rightarrow> 'b option list \<Rightarrow> 'b list result" where
  "mem_read p n m =
     (if p + n \<le> length m \<and> None \<notin> set (take n (drop p m)) then Inr (map the (take n (drop p m))) else Inl Undefined)"

definition mem_write :: "nat \<Rightarrow> 'b list \<Rightarrow> 'b option list \<Rightarrow> 'b option list result" where
  "mem_write p xs m =
     (if p + length xs \<le> length m then Inr (take p m @ map Some xs @ drop (p + length xs) m) else Inl Undefined)"

definition evbuffer_align :: "'b evbuffer \<Rightarrow> 'b evbuffer result" where
  "evbuffer_align buf =
     (if eb_buffer buf + eb_off buf \<le> length (eb_mem buf)
      then Inr (buf\<lparr>eb_mem := take (eb_off buf) (drop (eb_buffer buf) (eb_mem buf)) @ drop (eb_off buf) (eb_mem buf),
                    eb_buffer := 0, eb_misalign := 0\<rparr>)
      else Inl Undefined)"

text \<open>\<open>while (length < need) length <<= 1\<close>. After 64 rounds the length is large enough or has
  become zero, and then the loop never ends.\<close>

fun grow :: "nat \<Rightarrow> nat \<Rightarrow> nat \<Rightarrow> nat result" where
  "grow 0 len need = (if len < need then Inl Diverges else Inr len)"
| "grow (Suc k) len need = (if len < need then grow k (size_of (2 * len)) need else Inr len)"

definition evbuffer_expand :: "(nat \<Rightarrow> bool) \<Rightarrow> nat \<Rightarrow> 'b evbuffer \<Rightarrow> (int \<times> 'b evbuffer) result" where
  "evbuffer_expand grants datlen buf =
     (let need = size_of (eb_misalign buf + eb_off buf + datlen) in
      if eb_totallen buf \<ge> need then Inr (0, buf)
      else if eb_misalign buf \<ge> datlen then mapR (Pair 0) (evbuffer_align buf)
      else bindR (grow 64 (if eb_totallen buf < 256 then 256 else eb_totallen buf) need) (\<lambda>len.
           bindR (if eb_buffer buf \<noteq> 0 then evbuffer_align buf else Inr buf) (\<lambda>b1.
             if \<not> grants len then Inr (-1, b1)
             else Inr (0, b1\<lparr>eb_mem := take len (eb_mem b1) @ replicate (len - length (eb_mem b1)) None,
                            eb_buffer := 0, eb_totallen := len\<rparr>))))"

definition evbuffer_add :: "(nat \<Rightarrow> bool) \<Rightarrow> 'b list \<Rightarrow> 'b evbuffer \<Rightarrow> (int \<times> 'b evbuffer) result" where
  "evbuffer_add grants data buf =
     (let datlen = length data;
          need = size_of (eb_misalign buf + eb_off buf + datlen);
          oldoff = eb_off buf
      in bindR (if eb_totallen buf < need then evbuffer_expand grants datlen buf else Inr (0, buf)) (\<lambda>(r, b1).
           if r = -1 then Inr (-1, b1)
           else bindR (mem_write (eb_buffer b1 + eb_off b1) data (eb_mem b1)) (\<lambda>m.
             let b2 = b1\<lparr>eb_mem := m, eb_off := size_of (eb_off b1 + datlen)\<rparr>
             in Inr (0, if datlen \<noteq> 0 then call_cb oldoff b2 else b2))))"

definition evbuffer_drain :: "nat \<Rightarrow> 'b evbuffer \<Rightarrow> 'b evbuffer" where
  "evbuffer_drain len buf =
     (let oldoff = eb_off buf;
          b1 = (if len \<ge> eb_off buf
                then buf\<lparr>eb_off := 0, eb_buffer := 0, eb_misalign := 0\<rparr>
                else buf\<lparr>eb_buffer := eb_buffer buf + len, eb_misalign := eb_misalign buf + len,
                         eb_off := eb_off buf - len\<rparr>)
      in if eb_off b1 \<noteq> oldoff then call_cb oldoff b1 else b1)"

text \<open>\<open>EVBUFFER_DATA\<close> and \<open>EVBUFFER_LENGTH\<close>: the bytes in the buffer.\<close>

definition evbuffer_data :: "'b evbuffer \<Rightarrow> 'b list result" where
  "evbuffer_data buf = mem_read (eb_buffer buf) (eb_off buf) (eb_mem buf)"

definition evbuffer_remove :: "nat \<Rightarrow> 'b evbuffer \<Rightarrow> ('b list \<times> 'b evbuffer) result" where
  "evbuffer_remove datlen buf =
     (let nread = (if datlen \<ge> eb_off buf then eb_off buf else datlen)
      in mapR (\<lambda>d. (d, evbuffer_drain nread buf)) (mem_read (eb_buffer buf) nread (eb_mem buf)))"

definition take_storage :: "'b evbuffer \<Rightarrow> 'b evbuffer \<Rightarrow> 'b evbuffer" where
  "take_storage x y =
     x\<lparr>eb_mem := eb_mem y, eb_buffer := eb_buffer y, eb_misalign := eb_misalign y, eb_totallen := eb_totallen y,
       eb_off := eb_off y\<rparr>"

definition evbuffer_add_buffer ::
    "(nat \<Rightarrow> bool) \<Rightarrow> 'b evbuffer \<Rightarrow> 'b evbuffer \<Rightarrow> (int \<times> 'b evbuffer \<times> 'b evbuffer) result" where
  "evbuffer_add_buffer grants outbuf inbuf =
     (if eb_off outbuf = 0
      then (let oldoff = eb_off inbuf;
                out1 = take_storage outbuf inbuf;
                in1 = take_storage inbuf outbuf;
                in2 = (if eb_off in1 \<noteq> oldoff then call_cb oldoff in1 else in1);
                out2 = (if oldoff \<noteq> 0 then call_cb 0 out1 else out1)
            in Inr (0, out2, in2))
      else bindR (evbuffer_data inbuf) (\<lambda>d.
           bindR (evbuffer_add grants d outbuf) (\<lambda>(r, out1).
             Inr (r, out1, if r = 0 then evbuffer_drain (eb_off inbuf) inbuf else inbuf))))"

text \<open>\<open>evutil_vsnprintf\<close> of a format that gives the text: \<open>vsnprintf\<close> writes as much of it as the space
  takes, with a terminator \<open>nul\<close>; then \<open>buf[buflen - 1]\<close> is set to \<open>nul\<close>, which for a \<open>buflen\<close> of zero
  is the byte before \<open>buf\<close>.\<close>

definition evutil_vsnprintf :: "'b \<Rightarrow> 'b list \<Rightarrow> nat \<Rightarrow> nat \<Rightarrow> 'b option list \<Rightarrow> 'b option list result" where
  "evutil_vsnprintf nul t p buflen m =
     bindR (mem_write p (if buflen = 0 then [] else take (buflen - 1) t @ [nul]) m) (\<lambda>m1.
       if p + buflen = 0 then Inl Undefined else mem_write (p + buflen - 1) [nul] m1)"

text \<open>The loop of \<open>evbuffer_add_vprintf\<close>: a text that an \<open>int\<close> cannot count is an error of
  \<open>vsnprintf\<close>. There are at most two rounds; a third one would mean that the
  expanded buffer has not the space that was asked for.\<close>

fun vprintf_loop :: "nat \<Rightarrow> 'b \<Rightarrow> 'b list \<Rightarrow> (nat \<Rightarrow> bool) \<Rightarrow> nat \<Rightarrow> 'b evbuffer \<Rightarrow> (int \<times> 'b evbuffer) result" where
  "vprintf_loop 0 nul t grants oldoff buf = Inl Diverges"
| "vprintf_loop (Suc k) nul t grants oldoff buf =
     (let used = size_of (eb_misalign buf + eb_off buf) in
      if eb_totallen buf < used then Inl AssertFailed
      else (let space = eb_totallen buf - used
            in bindR (evutil_vsnprintf nul t (eb_buffer buf + eb_off buf) space (eb_mem buf)) (\<lambda>m.
               let b1 = buf\<lparr>eb_mem := m\<rparr> in
               if length t \<ge> 2 ^ 31 then Inr (-1, b1)
               else if length t < space
               then Inr (int (length t), call_cb oldoff (b1\<lparr>eb_off := size_of (eb_off b1 + length t)\<rparr>))
               else bindR (evbuffer_expand grants (length t + 1) b1) (\<lambda>(r, b2).
                      if r = -1 then Inr (-1, b2) else vprintf_loop k nul t grants oldoff b2))))"

definition evbuffer_add_vprintf :: "'b \<Rightarrow> 'b list \<Rightarrow> (nat \<Rightarrow> bool) \<Rightarrow> 'b evbuffer \<Rightarrow> (int \<times> 'b evbuffer) result" where
  "evbuffer_add_vprintf nul t grants buf =
     bindR (evbuffer_expand grants 64 buf) (\<lambda>(r, b1). vprintf_loop 2 nul t grants (eb_off buf) b1)"

text \<open>\<open>evbuffer_find\<close>: the position of the first occurrence. A first byte that is met too near to
  the end stops the search.\<close>

fun find_loop :: "'b list \<Rightarrow> nat \<Rightarrow> 'b list \<Rightarrow> nat option" where
  "find_loop what p [] = None"
| "find_loop what p (c # s) =
     (if c \<noteq> hd what then find_loop what (Suc p) s
      else if length what > length (c # s) then None
      else if take (length what) (c # s) = what then Some p
      else find_loop what (Suc p) s)"

definition evbuffer_find :: "'b list \<Rightarrow> 'b evbuffer \<Rightarrow> nat option result" where
  "evbuffer_find what buf =
     (if what = [] then Inl Undefined else mapR (find_loop what 0) (evbuffer_data buf))"

text \<open>\<open>avail\<close> is what \<open>ioctl\<close> tells about the bytes that wait (\<open>None\<close>: it fails), \<open>got\<close> what
  \<open>read\<close> then delivers (\<open>None\<close>: it fails), cut to the number asked for.\<close>

definition EVBUFFER_MAX_READ :: int where
  "EVBUFFER_MAX_READ = 4096"

definition read_limit :: "int option \<Rightarrow> int \<Rightarrow> 'b evbuffer \<Rightarrow> int" where
  "read_limit avail howmuch buf =
     (let n = (case avail of
                 None \<Rightarrow> EVBUFFER_MAX_READ
               | Some n \<Rightarrow>
                   if n \<le> 0 then EVBUFFER_MAX_READ
                   else if n > EVBUFFER_MAX_READ \<and> n > howmuch
                   then (let lim = int (size_of (eb_totallen buf * 4)); n1 = (if n > lim then lim else n)
                         in if n1 < EVBUFFER_MAX_READ then EVBUFFER_MAX_READ else n1)
                   else n)
      in if howmuch < 0 \<or> howmuch > n then n else howmuch)"

definition evbuffer_read ::
    "(nat \<Rightarrow> bool) \<Rightarrow> int option \<Rightarrow> 'b list option \<Rightarrow> int \<Rightarrow> 'b evbuffer \<Rightarrow> (int \<times> 'b evbuffer) result" where
  "evbuffer_read grants avail got howmuch buf =
     (let want = nat (read_limit avail howmuch buf); oldoff = eb_off buf in
      bindR (evbuffer_expand grants want buf) (\<lambda>(r, b1).
        if r = -1 then Inr (-1, b1)
        else (case got of
                None \<Rightarrow> Inr (-1, b1)
              | Some bs \<Rightarrow>
                  (let d = take want bs in
                   if d = [] then Inr (0, b1)
                   else bindR (mem_write (eb_buffer b1 + eb_off b1) d (eb_mem b1)) (\<lambda>m.
                          Inr (int (length d), call_cb oldoff (b1\<lparr>eb_mem := m, eb_off := size_of (eb_off b1 + length d)\<rparr>)))))))"

text \<open>\<open>sent\<close> is what \<open>write\<close> returns.\<close>

definition evbuffer_write :: "int \<Rightarrow> 'b evbuffer \<Rightarrow> int \<times> 'b evbuffer" where
  "evbuffer_write sent buf =
     (if sent = -1 then (-1, buf) else if sent = 0 then (0, buf) else (sent, evbuffer_drain (nat sent) buf))"

section \<open>What a buffer holds\<close>

text \<open>\<open>buffer\<close> is \<open>misalign\<close> bytes behind \<open>orig_buffer\<close>, the bytes lie inside the block, and no size
  is larger than half the address space.\<close>

definition evb_ok :: "'b evbuffer \<Rightarrow> bool" where
  "evb_ok buf \<longleftrightarrow>
     eb_buffer buf = eb_misalign buf \<and> length (eb_mem buf) = eb_totallen buf \<and>
     eb_misalign buf + eb_off buf \<le> eb_totallen buf \<and> eb_totallen buf \<le> 2 ^ 63"

definition holds :: "'b evbuffer \<Rightarrow> 'b list \<Rightarrow> bool" where
  "holds buf xs \<longleftrightarrow> evb_ok buf \<and> eb_off buf = length xs \<and> take (length xs) (drop (eb_buffer buf) (eb_mem buf)) = map Some xs"

definition weight :: "'b evbuffer \<Rightarrow> nat" where
  "weight buf = eb_misalign buf + eb_off buf"

lemma holdsD:
  assumes "holds buf xs"
  shows "eb_buffer buf = eb_misalign buf" "length (eb_mem buf) = eb_totallen buf"
    "eb_misalign buf + length xs \<le> eb_totallen buf" "eb_totallen buf \<le> 2 ^ 63" "eb_off buf = length xs"
    "take (length xs) (drop (eb_misalign buf) (eb_mem buf)) = map Some xs"
  using assms by (auto simp: holds_def evb_ok_def)

lemma holdsI:
  assumes "eb_buffer buf = eb_misalign buf" "length (eb_mem buf) = eb_totallen buf"
    "eb_misalign buf + length xs \<le> eb_totallen buf" "eb_totallen buf \<le> 2 ^ 63" "eb_off buf = length xs"
    "take (length xs) (drop (eb_misalign buf) (eb_mem buf)) = map Some xs"
  shows "holds buf xs"
  using assms by (simp add: holds_def evb_ok_def)

lemma size_of_id [simp]: "n \<le> 2 ^ 63 \<Longrightarrow> size_of n = n"
  by (simp add: size_of_def)

lemma holds_call_cb [simp]: "holds (call_cb n buf) xs = holds buf xs" "weight (call_cb n buf) = weight buf"
  by (simp_all add: call_cb_def holds_def evb_ok_def weight_def)

lemma holds_new: "holds evbuffer_new []"
  by (simp add: holds_def evb_ok_def evbuffer_new_def)

lemma evbuffer_data_holds: "holds buf xs \<Longrightarrow> evbuffer_data buf = Inr xs"
  by (auto simp: holds_def evb_ok_def evbuffer_data_def mem_read_def)

lemma evbuffer_align_holds:
  assumes "holds buf xs"
  shows "\<exists>b. evbuffer_align buf = Inr b \<and> holds b xs \<and> eb_misalign b = 0 \<and> eb_totallen b = eb_totallen buf"
proof -
  note h = holdsD [OF assms]
  let ?m = "take (length xs) (drop (eb_misalign buf) (eb_mem buf)) @ drop (length xs) (eb_mem buf)"
  let ?b = "buf\<lparr>eb_mem := ?m, eb_buffer := 0, eb_misalign := 0\<rparr>"
  have "evbuffer_align buf = Inr ?b" using h by (simp add: evbuffer_align_def)
  moreover have "holds ?b xs" by (rule holdsI) (use h in auto)
  ultimately show ?thesis by auto
qed

text \<open>Doubling ends, below twice the size that is needed.\<close>

lemma grow_ends:
  assumes "need \<le> 2 ^ 62" "0 < len" "need \<le> 2 ^ k * len"
  shows "\<exists>n. grow k len need = Inr n \<and> need \<le> n \<and> len \<le> n \<and> (n = len \<or> n < 2 * need)"
  using assms(2,3)
proof (induction k arbitrary: len)
  case (Suc k)
  show ?case
  proof (cases "len < need")
    case True
    then have "size_of (2 * len) = 2 * len" using assms(1) by (simp add: size_of_def)
    then obtain n where "grow (Suc k) len need = Inr n" "need \<le> n" "2 * len \<le> n" "n = 2 * len \<or> n < 2 * need"
      using Suc.IH [of "2 * len"] Suc.prems True by (auto simp: mult_ac)
    then show ?thesis using True by auto
  qed (use Suc.prems in auto)
qed simp

lemma evbuffer_expand_holds:
  assumes h: "holds buf xs" and room: "weight buf + n \<le> 2 ^ 62"
  shows "\<exists>r b. evbuffer_expand grants n buf = Inr (r, b) \<and> holds b xs \<and> weight b \<le> weight buf \<and> (r = 0 \<or> r = -1) \<and>
    (r = 0 \<longrightarrow> weight b + n \<le> eb_totallen b) \<and> (r = -1 \<longrightarrow> (\<exists>k. \<not> grants k))"
proof -
  note d = holdsD [OF h]
  let ?need = "eb_misalign buf + length xs + n"
  have need: "size_of (eb_misalign buf + eb_off buf + n) = ?need" using room d(5) by (simp add: weight_def)
  consider (fits) "?need \<le> eb_totallen buf" | (shift) "eb_totallen buf < ?need" "n \<le> eb_misalign buf"
    | (grow) "eb_totallen buf < ?need" "eb_misalign buf < n" by linarith
  then show ?thesis
  proof cases
    case fits
    then show ?thesis using need h d(5) by (simp add: evbuffer_expand_def weight_def)
  next
    case shift
    obtain b where b: "evbuffer_align buf = Inr b" "holds b xs" "eb_misalign b = 0" "eb_totallen b = eb_totallen buf"
      using evbuffer_align_holds [OF h] by blast
    have "weight b + n \<le> eb_totallen b" "weight b \<le> weight buf"
      using shift(2) d(3,5) b(3,4) holdsD(5) [OF b(2)] by (auto simp: weight_def)
    then show ?thesis using need shift b by (simp add: evbuffer_expand_def)
  next
    case grow
    let ?len0 = "if eb_totallen buf < 256 then 256 else eb_totallen buf"
    have "?need \<le> 2 ^ 62" using room d(5) by (simp add: weight_def)
    moreover have "(2 :: nat) ^ 62 \<le> 2 ^ 64 * ?len0" by (auto simp: not_less)
    ultimately obtain len where len: "grow 64 ?len0 ?need = Inr len" "?need \<le> len" "?len0 \<le> len" "len = ?len0 \<or> len < 2 * ?need"
      using grow_ends [of ?need ?len0 64] by fastforce
    have top: "len \<le> 2 ^ 63" using len(4) grow(1) \<open>?need \<le> 2 ^ 62\<close> by (auto split: if_splits)
    have "\<exists>b. (if eb_buffer buf \<noteq> 0 then evbuffer_align buf else Inr buf) = Inr b \<and> holds b xs \<and> eb_misalign b = 0 \<and> eb_totallen b = eb_totallen buf"
      using evbuffer_align_holds [OF h] h d(1) by (cases "eb_buffer buf = 0") auto
    then obtain b where b: "(if eb_buffer buf \<noteq> 0 then evbuffer_align buf else Inr buf) = Inr b" "holds b xs" "eb_misalign b = 0"
      "eb_totallen b = eb_totallen buf" by blast
    note e = holdsD [OF b(2)]
    have w: "weight b \<le> weight buf" using b(3) e(5) d(5) by (simp add: weight_def)
    let ?b = "b\<lparr>eb_mem := take len (eb_mem b) @ replicate (len - length (eb_mem b)) None, eb_buffer := 0, eb_totallen := len\<rparr>"
    have lb: "length (eb_mem b) \<le> len" using e(2) b(4) len(3) by (auto split: if_splits)
    have "holds ?b xs"
      by (rule holdsI) (use e b(3) lb top in auto)
    moreover have "evbuffer_expand grants n buf = (if grants len then Inr (0, ?b) else Inr (-1, b))"
      using need grow len(1) b(1) by (simp add: evbuffer_expand_def Let_def)
    moreover have "weight ?b + n \<le> len" using len(2) e(5) b(3) by (simp add: weight_def)
    moreover have "weight ?b = weight b" by (simp add: weight_def)
    ultimately show ?thesis using b(2) w by (cases "grants len") auto
  qed
qed

lemma holds_write:
  assumes h: "holds buf xs" and fit: "weight buf + length ys \<le> eb_totallen buf"
  shows "\<exists>m. mem_write (eb_buffer buf + eb_off buf) ys (eb_mem buf) = Inr m \<and>
    holds (buf\<lparr>eb_mem := m, eb_off := length xs + length ys\<rparr>) (xs @ ys)"
proof -
  note d = holdsD [OF h]
  let ?p = "eb_misalign buf + length xs"
  let ?m = "take ?p (eb_mem buf) @ map Some ys @ drop (?p + length ys) (eb_mem buf)"
  have le: "?p + length ys \<le> length (eb_mem buf)" using fit d(2,5) by (simp add: weight_def)
  have "mem_write (eb_buffer buf + eb_off buf) ys (eb_mem buf) = Inr ?m"
    using le d(1,5) by (simp add: mem_write_def)
  moreover have "holds (buf\<lparr>eb_mem := ?m, eb_off := length xs + length ys\<rparr>) (xs @ ys)"
  proof (rule holdsI)
    have "drop (eb_misalign buf) ?m = map Some xs @ map Some ys @ drop (?p + length ys) (eb_mem buf)"
      using d(6) le by (simp add: drop_take)
    then show "take (length (xs @ ys)) (drop (eb_misalign (buf\<lparr>eb_mem := ?m, eb_off := length xs + length ys\<rparr>))
        (eb_mem (buf\<lparr>eb_mem := ?m, eb_off := length xs + length ys\<rparr>))) = map Some (xs @ ys)" by simp
  qed (use d le in auto)
  ultimately show ?thesis by blast
qed

lemma evbuffer_add_holds:
  assumes h: "holds buf xs" and room: "weight buf + length ys \<le> 2 ^ 62"
  shows "\<exists>r b. evbuffer_add grants ys buf = Inr (r, b) \<and> weight b \<le> weight buf + length ys \<and>
    (r = 0 \<and> holds b (xs @ ys) \<or> r = -1 \<and> holds b xs \<and> (\<exists>k. \<not> grants k))"
proof -
  note d = holdsD [OF h]
  have need: "size_of (eb_misalign buf + eb_off buf + length ys) = weight buf + length ys" using room by (simp add: weight_def)
  have "\<exists>r b. (if eb_totallen buf < weight buf + length ys then evbuffer_expand grants (length ys) buf else Inr (0, buf)) = Inr (r, b) \<and>
    holds b xs \<and> weight b \<le> weight buf \<and> (r = 0 \<or> r = -1) \<and> (r = 0 \<longrightarrow> weight b + length ys \<le> eb_totallen b) \<and> (r = -1 \<longrightarrow> (\<exists>k. \<not> grants k))"
    using evbuffer_expand_holds [OF h room] h by (cases "eb_totallen buf < weight buf + length ys") auto
  then obtain r b where b: "(if eb_totallen buf < weight buf + length ys then evbuffer_expand grants (length ys) buf else Inr (0, buf)) = Inr (r, b)"
    "holds b xs" "weight b \<le> weight buf" "r = 0 \<or> r = -1" "r = 0 \<longrightarrow> weight b + length ys \<le> eb_totallen b" "r = -1 \<longrightarrow> (\<exists>k. \<not> grants k)"
    by blast
  show ?thesis
  proof (cases "r = 0")
    case True
    obtain m where m: "mem_write (eb_buffer b + eb_off b) ys (eb_mem b) = Inr m"
      "holds (b\<lparr>eb_mem := m, eb_off := length xs + length ys\<rparr>) (xs @ ys)"
      using holds_write [OF b(2)] b(5) True by blast
    have sz: "size_of (eb_off b + length ys) = length xs + length ys"
      using holdsD(5) [OF b(2)] b(3) room by (simp add: weight_def)
    let ?b = "b\<lparr>eb_mem := m, eb_off := length xs + length ys\<rparr>"
    have w: "weight ?b \<le> weight buf + length ys" using b(3) holdsD(5) [OF b(2)] by (simp add: weight_def)
    have "evbuffer_add grants ys buf = Inr (0, if ys \<noteq> [] then call_cb (eb_off buf) ?b else ?b)"
      unfolding evbuffer_add_def Let_def need b(1) using True m(1) sz by (cases ys) simp_all
    then show ?thesis using m(2) w by (cases "ys = []") auto
  next
    case False
    then have "evbuffer_add grants ys buf = Inr (-1, b)" using b(1,4) need by (simp add: evbuffer_add_def Let_def)
    then show ?thesis using b False by auto
  qed
qed

lemma evbuffer_drain_holds:
  assumes h: "holds buf xs"
  shows "holds (evbuffer_drain n buf) (drop n xs)" "weight (evbuffer_drain n buf) \<le> weight buf"
proof -
  note d = holdsD [OF h]
  let ?b = "if n \<ge> eb_off buf then buf\<lparr>eb_off := 0, eb_buffer := 0, eb_misalign := 0\<rparr>
    else buf\<lparr>eb_buffer := eb_buffer buf + n, eb_misalign := eb_misalign buf + n, eb_off := eb_off buf - n\<rparr>"
  have r: "evbuffer_drain n buf = (if eb_off ?b \<noteq> eb_off buf then call_cb (eb_off buf) ?b else ?b)"
    by (simp add: evbuffer_drain_def Let_def)
  have "holds ?b (drop n xs)"
  proof (cases "eb_off buf \<le> n")
    case True
    then show ?thesis using d by (simp add: holds_def evb_ok_def)
  next
    case False
    have "drop n (take (length xs) (drop (eb_misalign buf) (eb_mem buf))) = map Some (drop n xs)" by (simp add: d(6) drop_map)
    then have "take (length xs - n) (drop (eb_misalign buf + n) (eb_mem buf)) = map Some (drop n xs)"
      by (simp add: drop_take add.commute)
    then show ?thesis using False d by (intro holdsI) auto
  qed
  then show "holds (evbuffer_drain n buf) (drop n xs)" using r by simp
  have "weight ?b \<le> weight buf" by (simp add: weight_def)
  then show "weight (evbuffer_drain n buf) \<le> weight buf" using r by simp
qed

lemma evbuffer_remove_holds:
  assumes h: "holds buf xs"
  shows "\<exists>b. evbuffer_remove n buf = Inr (take n xs, b) \<and> holds b (drop n xs) \<and> weight b \<le> weight buf"
proof -
  note d = holdsD [OF h]
  let ?k = "if n \<ge> eb_off buf then eb_off buf else n"
  have k: "?k = min n (length xs)" using d(5) by auto
  have "take ?k (drop (eb_buffer buf) (eb_mem buf)) = take ?k (take (length xs) (drop (eb_misalign buf) (eb_mem buf)))"
    using d(1,5) by simp
  also have "\<dots> = map Some (take n xs)" unfolding d(6) k by (simp add: take_map min_def)
  finally have t: "take ?k (drop (eb_buffer buf) (eb_mem buf)) = map Some (take n xs)" .
  have "eb_buffer buf + ?k \<le> length (eb_mem buf)" using d(1,2,3,5) by auto
  then have "mem_read (eb_buffer buf) ?k (eb_mem buf) = Inr (take n xs)" unfolding mem_read_def t by auto
  then have r: "evbuffer_remove n buf = Inr (take n xs, evbuffer_drain ?k buf)" by (simp add: evbuffer_remove_def Let_def)
  have "drop ?k xs = drop n xs" unfolding k by (simp add: min_def)
  with evbuffer_drain_holds [OF h, of ?k] r show ?thesis by auto
qed

lemma evbuffer_add_buffer_holds:
  assumes o1: "holds outbuf xs" and i1: "holds inbuf ys" and room: "weight outbuf + length ys \<le> 2 ^ 62"
  shows "\<exists>r b b'. evbuffer_add_buffer grants outbuf inbuf = Inr (r, b, b') \<and>
    (r = 0 \<and> holds b (xs @ ys) \<and> holds b' [] \<or> r = -1 \<and> holds b xs \<and> holds b' ys \<and> (\<exists>k. \<not> grants k))"
proof (cases "eb_off outbuf = 0")
  case True
  then have xs: "xs = []" using holdsD(5) [OF o1] by simp
  have "holds (take_storage outbuf inbuf) ys"
    by (rule holdsI) (use holdsD [OF i1] in \<open>simp_all add: take_storage_def\<close>)
  moreover have "holds (take_storage inbuf outbuf) xs"
    by (rule holdsI) (use holdsD [OF o1] in \<open>simp_all add: take_storage_def\<close>)
  ultimately show ?thesis using True xs by (simp add: evbuffer_add_buffer_def Let_def)
next
  case False
  obtain r b where b: "evbuffer_add grants ys outbuf = Inr (r, b)"
    "r = 0 \<and> holds b (xs @ ys) \<or> r = -1 \<and> holds b xs \<and> (\<exists>k. \<not> grants k)"
    using evbuffer_add_holds [OF o1 room] by blast
  have "holds (evbuffer_drain (eb_off inbuf) inbuf) []"
    using evbuffer_drain_holds(1) [OF i1, of "eb_off inbuf"] holdsD(5) [OF i1] by simp
  then show ?thesis
    using False b evbuffer_data_holds [OF i1] i1 by (auto simp: evbuffer_add_buffer_def)
qed

lemma evbuffer_find_holds:
  assumes "holds buf xs" "what \<noteq> []"
  shows "evbuffer_find what buf = Inr (find_loop what 0 xs)"
  using evbuffer_data_holds [OF assms(1)] assms(2) by (simp add: evbuffer_find_def)

text \<open>The search finds the first place where the bytes stand.\<close>

lemma find_loop_spec:
  assumes "what \<noteq> []"
  shows "find_loop what p xs = Some q \<longleftrightarrow>
    (\<exists>k. q = p + k \<and> take (length what) (drop k xs) = what \<and> (\<forall>j < k. take (length what) (drop j xs) \<noteq> what))"
proof (induction xs arbitrary: p)
  case Nil
  then show ?case using assms by auto
next
  case (Cons c xs)
  let ?at = "\<lambda>j xs. take (length what) (drop j xs) = what"
  have here: "?at 0 (c # xs) \<Longrightarrow> c = hd what \<and> length what \<le> length (c # xs)"
    using assms by (cases what) (auto dest!: arg_cong [of _ _ length] simp: min_def split: if_splits)
  have later: "?at k (c # xs) \<Longrightarrow> length what \<le> length (c # xs)" for k
    by (drule arg_cong [of _ _ length]) (simp add: min_def split: if_splits)
  have shift: "(\<exists>k. q = p + k \<and> ?at k (c # xs) \<and> (\<forall>j < k. \<not> ?at j (c # xs))) \<longleftrightarrow>
      (\<exists>k. q = Suc p + k \<and> ?at k xs \<and> (\<forall>j < k. \<not> ?at j xs))" if "\<not> ?at 0 (c # xs)"
  proof
    assume "\<exists>k. q = p + k \<and> ?at k (c # xs) \<and> (\<forall>j < k. \<not> ?at j (c # xs))"
    then obtain k where k: "q = p + k" "?at k (c # xs)" "\<forall>j < k. \<not> ?at j (c # xs)" by blast
    with that obtain k' where "k = Suc k'" by (cases k) auto
    with k show "\<exists>k. q = Suc p + k \<and> ?at k xs \<and> (\<forall>j < k. \<not> ?at j xs)" by (intro exI [of _ k']) auto
  next
    assume "\<exists>k. q = Suc p + k \<and> ?at k xs \<and> (\<forall>j < k. \<not> ?at j xs)"
    then obtain k where "q = Suc p + k" "?at k xs" "\<forall>j < k. \<not> ?at j xs" by blast
    then show "\<exists>k. q = p + k \<and> ?at k (c # xs) \<and> (\<forall>j < k. \<not> ?at j (c # xs))"
      using that by (intro exI [of _ "Suc k"]) (auto simp: less_Suc_eq_0_disj)
  qed
  show ?case
  proof (cases "?at 0 (c # xs)")
    case True
    then have "find_loop what p (c # xs) = Some p" using here [OF True] by simp
    moreover have "k = 0" if "\<forall>j < k. \<not> ?at j (c # xs)" for k using that True by (cases k) auto
    ultimately show ?thesis using True by (auto simp del: find_loop.simps)
  next
    case False
    show ?thesis
    proof (cases "c = hd what \<and> length what > length (c # xs)")
      case True
      then have "find_loop what p (c # xs) = None" by simp
      moreover have "\<not> ?at k (c # xs)" for k using later [of k] True by auto
      ultimately show ?thesis by auto
    next
      case f: False
      then have "find_loop what p (c # xs) = find_loop what (Suc p) xs" using False by auto
      then show ?thesis using Cons.IH [of "Suc p"] shift [OF False] by simp
    qed
  qed
qed

section \<open>Printing\<close>

text \<open>Free space may be written; shorter contents lie in the same place.\<close>

lemma holds_scribble:
  assumes h: "holds buf xs" and p: "weight buf \<le> p" "p + length ys \<le> eb_totallen buf"
  shows "\<exists>m. mem_write p ys (eb_mem buf) = Inr m \<and> holds (buf\<lparr>eb_mem := m\<rparr>) xs"
proof -
  note d = holdsD [OF h]
  let ?m = "take p (eb_mem buf) @ map Some ys @ drop (p + length ys) (eb_mem buf)"
  have "take (length xs) (drop (eb_misalign buf) ?m) = take (length xs) (drop (eb_misalign buf) (eb_mem buf))"
    using p d(2,5) by (auto simp: drop_take weight_def min_def)
  then have "holds (buf\<lparr>eb_mem := ?m\<rparr>) xs" by (intro holdsI) (use d p in \<open>auto simp: weight_def\<close>)
  moreover have "mem_write p ys (eb_mem buf) = Inr ?m" using p d(2) by (simp add: mem_write_def)
  ultimately show ?thesis by blast
qed

lemma holds_prefix:
  assumes "holds (buf\<lparr>eb_off := n\<rparr>) (xs @ ys)"
  shows "holds (buf\<lparr>eb_off := length xs\<rparr>) xs"
proof (rule holdsI)
  note d = holdsD [OF assms]
  have "take (length xs) (take (length (xs @ ys)) (drop (eb_misalign buf) (eb_mem buf))) = map Some xs"
    using d(6) by simp
  then show "take (length xs) (drop (eb_misalign (buf\<lparr>eb_off := length xs\<rparr>)) (eb_mem (buf\<lparr>eb_off := length xs\<rparr>))) = map Some xs"
    by simp
qed (use holdsD [OF assms] in auto)

lemma vsnprintf_holds:
  assumes h: "holds buf xs" and space: "weight buf + space = eb_totallen buf" "0 < space"
  shows "\<exists>m. evutil_vsnprintf nul t (eb_buffer buf + eb_off buf) space (eb_mem buf) = Inr m \<and>
    holds (buf\<lparr>eb_mem := m\<rparr>) xs \<and>
    (length t < space \<longrightarrow> holds (buf\<lparr>eb_mem := m, eb_off := length xs + length t\<rparr>) (xs @ t))"
proof -
  note d = holdsD [OF h]
  let ?ys = "take (space - 1) t @ [nul]" and ?s = "if length t < space then t else []"
  let ?p = "eb_buffer buf + eb_off buf"
  have p: "?p = weight buf" using d(1) by (simp add: weight_def)
  have comm: "buf\<lparr>eb_off := n, eb_mem := m\<rparr> = buf\<lparr>eb_mem := m, eb_off := n\<rparr>" for n m by simp
  have fit: "weight buf + length ?ys \<le> eb_totallen buf" using space by (auto simp: min_def)
  obtain m1 where m1: "mem_write ?p ?ys (eb_mem buf) = Inr m1"
    "holds (buf\<lparr>eb_mem := m1, eb_off := length xs + length ?ys\<rparr>) (xs @ ?ys)"
    using holds_write [OF h, of ?ys] fit by blast
  have "\<exists>zs. xs @ ?ys = (xs @ ?s) @ zs" by (auto simp: less_diff_conv2)
  then obtain zs where "xs @ ?ys = (xs @ ?s) @ zs" by blast
  with m1(2) have h1: "holds (buf\<lparr>eb_mem := m1, eb_off := length (xs @ ?s)\<rparr>) (xs @ ?s)"
    using holds_prefix [where buf = "buf\<lparr>eb_mem := m1\<rparr>" and xs = "xs @ ?s" and ys = zs] by simp
  have "weight (buf\<lparr>eb_mem := m1, eb_off := length (xs @ ?s)\<rparr>) \<le> ?p + space - 1"
    using p space(2) d(5) by (auto simp: weight_def)
  then obtain m where m: "mem_write (?p + space - 1) [nul] m1 = Inr m"
    "holds (buf\<lparr>eb_mem := m, eb_off := length (xs @ ?s)\<rparr>) (xs @ ?s)"
    using holds_scribble [OF h1, of "?p + space - 1" "[nul]"] space p comm by auto
  have "holds (buf\<lparr>eb_mem := m, eb_off := eb_off buf\<rparr>) xs"
    using holds_prefix [where buf = "buf\<lparr>eb_mem := m\<rparr>" and xs = xs and ys = ?s] m(2) d(5) by simp
  moreover have "buf\<lparr>eb_mem := m, eb_off := eb_off buf\<rparr> = buf\<lparr>eb_mem := m\<rparr>" by simp
  moreover have "evutil_vsnprintf nul t ?p space (eb_mem buf) = Inr m"
    using m1(1) m(1) space(2) by (simp add: evutil_vsnprintf_def)
  ultimately show ?thesis using m(2) by auto
qed

lemma vprintf_loop_fits:
  assumes h: "holds buf xs" and fit: "weight buf + length t < eb_totallen buf" and t: "length t < 2 ^ 31"
  shows "\<exists>b. vprintf_loop (Suc k) nul t grants oldoff buf = Inr (int (length t), b) \<and> holds b (xs @ t)"
proof -
  note d = holdsD [OF h]
  let ?space = "eb_totallen buf - weight buf"
  obtain m where m: "evutil_vsnprintf nul t (eb_buffer buf + eb_off buf) ?space (eb_mem buf) = Inr m"
    "length t < ?space \<longrightarrow> holds (buf\<lparr>eb_mem := m, eb_off := length xs + length t\<rparr>) (xs @ t)"
    using vsnprintf_holds [OF h, of ?space nul t] fit by auto
  have used: "size_of (eb_misalign buf + eb_off buf) = weight buf" "size_of (eb_off buf + length t) = length xs + length t"
    using d(3,4,5) fit by (simp_all add: weight_def)
  have "length t < ?space" "\<not> eb_totallen buf < weight buf" using fit by linarith+
  then show ?thesis using m t unfolding vprintf_loop.simps used Let_def by (simp add: used)
qed

lemma evbuffer_add_vprintf_holds:
  assumes h: "holds buf xs" and room: "weight buf + length t + 64 \<le> 2 ^ 62" and t: "length t < 2 ^ 31" and g: "\<forall>k. grants k"
  shows "\<exists>b. evbuffer_add_vprintf nul t grants buf = Inr (int (length t), b) \<and> holds b (xs @ t)"
proof -
  obtain b1 where b1: "evbuffer_expand grants 64 buf = Inr (0, b1)" "holds b1 xs" "weight b1 \<le> weight buf"
    "weight b1 + 64 \<le> eb_totallen b1"
    using evbuffer_expand_holds [OF h, of 64 grants] room g by auto
  show ?thesis
  proof (cases "weight b1 + length t < eb_totallen b1")
    case True
    then show ?thesis using b1(1) vprintf_loop_fits [OF b1(2) True t, of 1 nul grants "eb_off buf"]
      by (simp add: evbuffer_add_vprintf_def numeral_2_eq_2 del: vprintf_loop.simps)
  next
    case False
    note d = holdsD [OF b1(2)]
    let ?space = "eb_totallen b1 - weight b1"
    have pos: "weight b1 + ?space = eb_totallen b1" "0 < ?space" using b1(4) by auto
    obtain m where m: "evutil_vsnprintf nul t (eb_buffer b1 + eb_off b1) ?space (eb_mem b1) = Inr m"
      "holds (b1\<lparr>eb_mem := m\<rparr>) xs"
      using vsnprintf_holds [OF b1(2) pos, of nul t] by auto
    have w: "weight (b1\<lparr>eb_mem := m\<rparr>) = weight b1" by (simp add: weight_def)
    obtain b2 where b2: "evbuffer_expand grants (length t + 1) (b1\<lparr>eb_mem := m\<rparr>) = Inr (0, b2)" "holds b2 xs"
      "weight b2 + (length t + 1) \<le> eb_totallen b2"
      using evbuffer_expand_holds [OF m(2), of "length t + 1" grants] w b1(3) room g by auto
    have used: "size_of (eb_misalign b1 + eb_off b1) = weight b1"
      using d(3,4,5) by (simp add: weight_def)
    have two: "vprintf_loop 2 = vprintf_loop (Suc (Suc 0))" by (simp only: numeral_2_eq_2)
    have short: "\<not> eb_totallen b1 < weight b1" "\<not> length t < ?space" using False b1(4) by linarith+
    have "vprintf_loop 2 nul t grants (eb_off buf) b1 = vprintf_loop 1 nul t grants (eb_off buf) b2"
      unfolding two One_nat_def vprintf_loop.simps(2) [of "Suc 0"] used Let_def
      using m(1) b2(1) short t by (simp del: vprintf_loop.simps)
    then show ?thesis using b1(1) vprintf_loop_fits [OF b2(2), of t 0 nul grants "eb_off buf"] b2(3) t
      by (simp add: evbuffer_add_vprintf_def del: vprintf_loop.simps)
  qed
qed

text \<open>Where no memory is granted and the buffer is full, \<open>buflen\<close> is zero: the last byte of the contents
  is replaced by the terminator before the error is reported.\<close>

lemma vprintf_full:
  assumes h: "holds buf (xs @ [x])" and full: "eb_misalign buf = 0" "eb_totallen buf = Suc (length xs)"
    and t: "length t < 2 ^ 31" "length xs < 2 ^ 61" and g: "\<forall>k. \<not> grants k"
  shows "\<exists>b. evbuffer_add_vprintf nul t grants buf = Inr (-1, b) \<and> holds b (xs @ [nul])"
proof -
  note d = holdsD [OF h]
  have w: "weight buf = Suc (length xs)" using d(5) full(1) by (simp add: weight_def)
  have mem: "eb_mem buf = map Some xs @ [Some x]" using d(2,6) full by simp
  let ?m = "map Some xs @ [Some nul]"
  let ?b = "buf\<lparr>eb_mem := ?m\<rparr>"
  have hb: "holds ?b (xs @ [nul])" by (rule holdsI) (use d full in auto)
  have refused: "evbuffer_expand grants n b = Inr (-1, b)"
    if "eb_misalign b = 0" "eb_buffer b = 0" "eb_totallen b = Suc (length xs)" "eb_off b = Suc (length xs)" "0 < n" "n < 2 ^ 61" for n and b :: "'a evbuffer"
  proof -
    have need: "size_of (eb_misalign b + eb_off b + n) = Suc (length xs) + n" "Suc (length xs) + n \<le> 2 ^ 62"
      using that t by simp_all
    let ?len0 = "if eb_totallen b < 256 then 256 else eb_totallen b"
    have "(2 :: nat) ^ 62 \<le> 2 ^ 64 * ?len0" by (auto simp: not_less)
    then obtain len where "grow 64 ?len0 (Suc (length xs) + n) = Inr len"
      using grow_ends [OF need(2), of ?len0 64] need(2) by fastforce
    then show ?thesis using need(1) that g by (simp add: evbuffer_expand_def Let_def)
  qed
  have print: "evutil_vsnprintf nul t (eb_buffer buf + eb_off buf) 0 (eb_mem buf) = Inr ?m"
    using d(1,5) full mem by (simp add: evutil_vsnprintf_def mem_write_def)
  have "evbuffer_expand grants 64 buf = Inr (-1, buf)" using refused [of buf 64] d(1,5) full by simp
  moreover have "evbuffer_expand grants (length t + 1) ?b = Inr (-1, ?b)"
    using refused [of ?b "length t + 1"] d(1,5) full t by simp
  moreover have "size_of (eb_misalign buf + eb_off buf) = Suc (length xs)" using d(3,4,5) full by simp
  moreover have two: "vprintf_loop 2 = vprintf_loop (Suc 1)" by (simp only: numeral_2_eq_2 One_nat_def)
  ultimately have "evbuffer_add_vprintf nul t grants buf = Inr (-1, ?b)"
    using print full(2) t unfolding evbuffer_add_vprintf_def two vprintf_loop.simps(2) [of 1] Let_def
    by (simp del: vprintf_loop.simps add: case_prod_beta)
  then show ?thesis using hb by blast
qed

section \<open>The queue of bytes a buffer stands for\<close>

text \<open>What a user may call, with the answers of the allocator to an addition, and what it returns.\<close>

datatype 'b qop = Add "nat \<Rightarrow> bool" "'b list" | Drain nat | Remove nat

datatype 'b qres = Stored | Refused | Drained | Got "'b list"

text \<open>The specification: a list of bytes. An addition is refused only where the allocator refuses
  some size, and then changes nothing.\<close>

inductive queue_steps :: "'b list \<Rightarrow> 'b qop list \<Rightarrow> 'b qres list \<Rightarrow> 'b list \<Rightarrow> bool" where
  stop: "queue_steps xs [] [] xs"
| add: "queue_steps (xs @ ys) ops rs zs \<Longrightarrow> queue_steps xs (Add g ys # ops) (Stored # rs) zs"
| refuse: "\<not> g n \<Longrightarrow> queue_steps xs ops rs zs \<Longrightarrow> queue_steps xs (Add g ys # ops) (Refused # rs) zs"
| drain: "queue_steps (drop n xs) ops rs zs \<Longrightarrow> queue_steps xs (Drain n # ops) (Drained # rs) zs"
| remove: "queue_steps (drop n xs) ops rs zs \<Longrightarrow> queue_steps xs (Remove n # ops) (Got (take n xs) # rs) zs"

fun queue_run :: "((nat \<Rightarrow> bool) \<Rightarrow> 'b list \<Rightarrow> 'q \<Rightarrow> (int \<times> 'q) result) \<Rightarrow> (nat \<Rightarrow> 'q \<Rightarrow> 'q) \<Rightarrow>
    (nat \<Rightarrow> 'q \<Rightarrow> ('b list \<times> 'q) result) \<Rightarrow> 'b qop list \<Rightarrow> 'q \<Rightarrow> ('b qres list \<times> 'q) result" where
  "queue_run put skip fetch [] q = Inr ([], q)"
| "queue_run put skip fetch (Add g ys # ops) q =
     bindR (put g ys q) (\<lambda>(r, q'). mapR (apfst (Cons (if r = -1 then Refused else Stored))) (queue_run put skip fetch ops q'))"
| "queue_run put skip fetch (Drain n # ops) q = mapR (apfst (Cons Drained)) (queue_run put skip fetch ops (skip n q))"
| "queue_run put skip fetch (Remove n # ops) q =
     bindR (fetch n q) (\<lambda>(d, q'). mapR (apfst (Cons (Got d))) (queue_run put skip fetch ops q'))"

fun added :: "'b qop list \<Rightarrow> nat" where
  "added [] = 0"
| "added (Add g ys # ops) = length ys + added ops"
| "added (Drain n # ops) = added ops"
| "added (Remove n # ops) = added ops"

text \<open>The contract: a queue has contents and a load, which only additions raise; below the limit
  every operation returns and does to the contents what the specification says.\<close>

locale byte_queue =
  fixes content :: "'q \<Rightarrow> 'b list \<Rightarrow> bool" and load :: "'q \<Rightarrow> nat" and limit :: nat
    and put :: "(nat \<Rightarrow> bool) \<Rightarrow> 'b list \<Rightarrow> 'q \<Rightarrow> (int \<times> 'q) result" and skip :: "nat \<Rightarrow> 'q \<Rightarrow> 'q"
    and fetch :: "nat \<Rightarrow> 'q \<Rightarrow> ('b list \<times> 'q) result"
  assumes put_law: "content q xs \<Longrightarrow> load q + length ys \<le> limit \<Longrightarrow>
      \<exists>r q'. put g ys q = Inr (r, q') \<and> load q' \<le> load q + length ys \<and>
        (r = 0 \<and> content q' (xs @ ys) \<or> r = -1 \<and> content q' xs \<and> (\<exists>k. \<not> g k))"
    and skip_law: "content q xs \<Longrightarrow> content (skip n q) (drop n xs) \<and> load (skip n q) \<le> load q"
    and fetch_law: "content q xs \<Longrightarrow>
      \<exists>q'. fetch n q = Inr (take n xs, q') \<and> content q' (drop n xs) \<and> load q' \<le> load q"
begin

lemma run_refines:
  assumes "content q xs" "load q + added ops \<le> limit"
  shows "\<exists>rs q' zs. queue_run put skip fetch ops q = Inr (rs, q') \<and> queue_steps xs ops rs zs \<and> content q' zs"
  using assms
proof (induction ops arbitrary: q xs)
  case Nil
  then show ?case by (auto intro: queue_steps.stop)
next
  case (Cons op ops)
  show ?case
  proof (cases op)
    case (Add g ys)
    obtain r q1 where q1: "put g ys q = Inr (r, q1)" "load q1 \<le> load q + length ys"
      "r = 0 \<and> content q1 (xs @ ys) \<or> r = -1 \<and> content q1 xs \<and> (\<exists>k. \<not> g k)"
      using put_law [OF Cons.prems(1), of ys g] Cons.prems(2) Add by auto
    have fits: "load q1 + added ops \<le> limit" using q1(2) Cons.prems(2) Add by simp
    from q1(3) show ?thesis
      using Cons.IH [OF _ fits] q1(1) Add by (fastforce intro: queue_steps.add queue_steps.refuse)
  next
    case (Drain n)
    have "content (skip n q) (drop n xs)" "load (skip n q) + added ops \<le> limit"
      using skip_law [OF Cons.prems(1), of n] Cons.prems(2) Drain by auto
    from Cons.IH [OF this] show ?thesis using Drain by (fastforce intro: queue_steps.drain)
  next
    case (Remove n)
    obtain q1 where q1: "fetch n q = Inr (take n xs, q1)" "content q1 (drop n xs)" "load q1 \<le> load q"
      using fetch_law [OF Cons.prems(1), of n] by blast
    then have "load q1 + added ops \<le> limit" using Cons.prems(2) Remove by simp
    from Cons.IH [OF q1(2) this] show ?thesis using q1(1) Remove by (fastforce intro: queue_steps.remove)
  qed
qed

end

interpretation eb: byte_queue holds weight "2 ^ 62" evbuffer_add evbuffer_drain evbuffer_remove
proof
  fix q :: "'b evbuffer" and xs ys g n
  assume h: "holds q xs"
  show "weight q + length ys \<le> 2 ^ 62 \<Longrightarrow> \<exists>r q'. evbuffer_add g ys q = Inr (r, q') \<and> weight q' \<le> weight q + length ys \<and>
      (r = 0 \<and> holds q' (xs @ ys) \<or> r = -1 \<and> holds q' xs \<and> (\<exists>k. \<not> g k))"
    by (rule evbuffer_add_holds [OF h])
  show "holds (evbuffer_drain n q) (drop n xs) \<and> weight (evbuffer_drain n q) \<le> weight q"
    using evbuffer_drain_holds [OF h] by blast
  show "\<exists>q'. evbuffer_remove n q = Inr (take n xs, q') \<and> holds q' (drop n xs) \<and> weight q' \<le> weight q"
    by (rule evbuffer_remove_holds [OF h])
qed

text \<open>
  C8. A buffer is a queue of bytes. Whatever is added, drained and removed, as long as no
  more than \<open>2 ^ 62\<close> bytes are added in all: no operation reads or writes outside the block or
  loops forever, each returns what the queue returns, and the buffer ends with
  the bytes of the queue; where the allocator refuses memory the addition fails and nothing is
  lost.
\<close>

theorem evbuffer_refines:
  assumes "added ops \<le> 2 ^ 62"
  shows "\<exists>rs buf xs. queue_run evbuffer_add evbuffer_drain evbuffer_remove ops evbuffer_new = Inr (rs, buf) \<and>
    queue_steps [] ops rs xs \<and> evbuffer_data buf = Inr xs"
proof -
  have "weight evbuffer_new + added ops \<le> 2 ^ 62" using assms by (simp add: weight_def evbuffer_new_def)
  from eb.run_refines [OF holds_new this] show ?thesis using evbuffer_data_holds by blast
qed

lemma evbuffer_refines_witness:
  "\<exists>rs buf xs. queue_run evbuffer_add evbuffer_drain evbuffer_remove
      [Add (\<lambda>_. True) ''abcd'', Remove 1, Drain 1, Add (\<lambda>_. False) ''ef''] evbuffer_new = Inr (rs, buf) \<and>
    queue_steps [] [Add (\<lambda>_. True) ''abcd'', Remove 1, Drain 1, Add (\<lambda>_. False) ''ef''] rs xs \<and> evbuffer_data buf = Inr xs"
  by (rule evbuffer_refines) simp

text \<open>
  C38. Printing into a buffer with enough memory appends the printed text, however long it is
  (\<open>int\<close> must count it), returns its length, and takes at most two rounds of the loop.
\<close>

theorem vprintf_appends:
  assumes "holds buf xs" "weight buf + length t + 64 \<le> 2 ^ 62" "length t < 2 ^ 31" "\<forall>k. grants k"
  shows "\<exists>b. evbuffer_add_vprintf nul t grants buf = Inr (int (length t), b) \<and> evbuffer_data b = Inr (xs @ t)"
  using evbuffer_add_vprintf_holds [OF assms] evbuffer_data_holds by blast

lemma vprintf_appends_witness:
  "\<exists>b. evbuffer_add_vprintf CHR 0x00 (replicate 70 CHR ''x'') (\<lambda>_. True) evbuffer_new = Inr (70, b) \<and>
    evbuffer_data b = Inr (replicate 70 CHR ''x'')"
  using vprintf_appends [OF holds_new, of "replicate 70 CHR ''x''" "\<lambda>_. True" "CHR 0x00"]
  by (simp add: weight_def evbuffer_new_def)

text \<open>
  Printing into a full buffer when memory is refused reports the error, but has by then
  replaced the last byte of the contents by the terminator: \<open>evutil_vsnprintf\<close> writes \<open>buf[buflen - 1]\<close> for a \<open>buflen\<close> of
  zero.
\<close>

theorem vprintf_clobbers:
  assumes "holds buf (xs @ [x])" "eb_misalign buf = 0" "eb_totallen buf = Suc (length xs)" "length t < 2 ^ 31" "length xs < 2 ^ 61"
    "\<forall>k. \<not> grants k"
  shows "\<exists>b. evbuffer_add_vprintf nul t grants buf = Inr (-1, b) \<and>
    evbuffer_data buf = Inr (xs @ [x]) \<and> evbuffer_data b = Inr (xs @ [nul])"
  using vprintf_full [OF assms] evbuffer_data_holds assms(1) by blast

lemma vprintf_clobbers_witness:
  "let buf = \<lparr>eb_mem = map Some ''abcd'', eb_buffer = 0, eb_misalign = 0, eb_totallen = 4, eb_off = 4, eb_cb = False, eb_calls = []\<rparr>
   in \<exists>b. evbuffer_add_vprintf CHR 0x00 ''e'' (\<lambda>_. False) buf = Inr (-1, b) \<and>
     evbuffer_data buf = Inr ''abcd'' \<and> evbuffer_data b = Inr (''abc'' @ [CHR 0x00])"
  using vprintf_clobbers [of "\<lparr>eb_mem = map Some ''abcd'', eb_buffer = 0, eb_misalign = 0, eb_totallen = 4, eb_off = 4, eb_cb = False, eb_calls = []\<rparr>"
      "''abc''" "CHR ''d''" "''e''" "\<lambda>_. False" "CHR 0x00"]
  by (simp add: holds_def evb_ok_def)

end
