(* ===== verification/Movid_Osc.thy ===== *)
theory Movid_Osc
  imports Movid_Strings "HOL-Library.Word"
begin

text \<open>
  WOscLib (\<open>contrib/WOscLib-00.09\<close>): the strings, blobs, messages and bundles of Open Sound Control, which Movid
  sends to its clients, as bytes.

  Memory is a list of chars: a pointer is the list of the chars from there to the end of its block, so a read past the
  block finds no char and is \<open>Undefined\<close>. An int in memory is little-endian (\<open>IS_LITTLE_ENDIAN\<close> of \<open>config.h\<close>). A
  float is its 32 bits, a time tag its 64 bits. A \<open>WOscException\<close> is the failure \<open>OscException\<close> with the name
  of its error code. The arrays that grow by one element at a time are lists; their lengths are the counters.

  A message is a list of arguments behind its address: \<open>message_of\<close> says what the object holds for such a list, \<open>Add\<close> appends to
  the list, and reading the bytes of the object gives the object back.
\<close>

section \<open>Bytes\<close>

fun le_bytes :: "nat \<Rightarrow> nat \<Rightarrow> char list" where
  "le_bytes 0 n = []"
| "le_bytes (Suc k) n = char_of n # le_bytes k (n div 256)"

fun le_value :: "char list \<Rightarrow> nat" where
  "le_value [] = 0"
| "le_value (c # cs) = of_char c + 256 * le_value cs"

text \<open>\<open>WOscUtil::WriteBuffer\<close> and \<open>WOscUtil::CharBufToInt\<close>, \<open>CharBufToFloat\<close>.\<close>

definition WriteBuffer_int :: "int \<Rightarrow> char list" where
  "WriteBuffer_int arg = rev (le_bytes 4 (nat (arg mod 4294967296)))"

definition WriteBuffer_float :: "32 word \<Rightarrow> char list" where
  "WriteBuffer_float arg = rev (le_bytes 4 (unat arg))"

definition CharBufToInt :: "char list \<Rightarrow> int result" where
  "CharBufToInt buf = (if length buf < 4 then Inl Undefined else Inr (wrap32 (int (le_value (rev (take 4 buf))))))"

definition CharBufToFloat :: "char list \<Rightarrow> 32 word result" where
  "CharBufToFloat buf = (if length buf < 4 then Inl Undefined else Inr (word_of_nat (le_value (rev (take 4 buf)))))"

text \<open>The string a \<open>const char*\<close> points to.\<close>

definition cstring :: "char list \<Rightarrow> string result" where
  "cstring p = (if CHR 0x00 \<in> set p then Inr (c_str p) else Inl Undefined)"

text \<open>The remainder of C has the sign of the dividend.\<close>

definition crem :: "int \<Rightarrow> int \<Rightarrow> int" where
  "crem a b = sgn a * (\<bar>a\<bar> mod \<bar>b\<bar>)"

definition chk32_osc :: "int \<Rightarrow> int result" where
  "chk32_osc i = (if int32 i then Inr i else Inl Undefined)"

definition GetSizeFourByteAligned_string :: "string \<Rightarrow> nat" where
  "GetSizeFourByteAligned_string s = (let len = length s + 1 in len + (4 - len mod 4) mod 4)"

definition GetSizeFourByteAligned :: "int \<Rightarrow> int result" where
  "GetSizeFourByteAligned len = chk32_osc (len + crem (4 - crem len 4) 4)"

definition PadStringWithZeros :: "string \<Rightarrow> char list" where
  "PadStringWithZeros s = s @ [CHR 0x00] @ replicate (GetSizeFourByteAligned_string s - (length s + 1)) (CHR 0x00)"

definition PadBufferWithZeros :: "char list \<Rightarrow> nat \<Rightarrow> nat \<Rightarrow> char list result" where
  "PadBufferWithZeros src destLen srcLen =
     (if destLen \<le> srcLen
      then (if destLen \<le> length src then Inr (take destLen src) else Inl Undefined)
      else (if srcLen \<le> length src then Inr (take srcLen src @ replicate (destLen - srcLen) (CHR 0x00)) else Inl Undefined))"

text \<open>\<open>memcpy\<close> into a block.\<close>

definition put_at :: "nat \<Rightarrow> char list \<Rightarrow> char list \<Rightarrow> char list result" where
  "put_at p xs b = (if p + length xs \<le> length b then Inr (take p b @ xs @ drop (p + length xs) b) else Inl Undefined)"

section \<open>Strings\<close>

text \<open>The buffer of a \<open>WOscString\<close>, or null.\<close>

type_synonym WOscString = "char list option"

definition str_new :: "string \<Rightarrow> WOscString" where
  "str_new s = Some (PadStringWithZeros s)"

definition str_copy :: "WOscString \<Rightarrow> WOscString" where
  "str_copy rhs = Some (case rhs of None \<Rightarrow> [] | Some b \<Rightarrow> b)"

definition str_append :: "WOscString \<Rightarrow> WOscString \<Rightarrow> WOscString result" where
  "str_append lhs rhs =
     (case lhs of
        None \<Rightarrow> Inr (str_copy rhs)
      | Some b \<Rightarrow>
          bindR (cstring b) (\<lambda>l.
          bindR (case rhs of None \<Rightarrow> Inl NullDeref | Some c \<Rightarrow> cstring c) (\<lambda>r.
            let len = length l + length r;
                newLen = len + 1 + (4 - (len + 1) mod 4) mod 4
            in Inr (Some (l @ r @ replicate (newLen - len) (CHR 0x00))))))"

definition str_append_cstr :: "WOscString \<Rightarrow> string \<Rightarrow> WOscString result" where
  "str_append_cstr lhs rhs = str_append lhs (str_new rhs)"

definition str_append_char :: "WOscString \<Rightarrow> char \<Rightarrow> WOscString result" where
  "str_append_char lhs c = str_append_cstr lhs (c_str [c])"

definition str_assign_char :: "char \<Rightarrow> WOscString \<Rightarrow> WOscString result" where
  "str_assign_char c this = str_append_char None c"

definition str_plus :: "WOscString \<Rightarrow> WOscString \<Rightarrow> WOscString result" where
  "str_plus this rhs =
     (if this \<noteq> None then bindR (str_append None this) (\<lambda>r. str_append r rhs) else Inr (str_copy rhs))"

definition str_GetSize :: "WOscString \<Rightarrow> nat" where
  "str_GetSize s = (case s of None \<Rightarrow> 0 | Some b \<Rightarrow> length b)"

definition str_bytes :: "WOscString \<Rightarrow> char list" where
  "str_bytes s = (case s of None \<Rightarrow> [] | Some b \<Rightarrow> b)"

text \<open>The loop copies as many bytes as the caller asks for.\<close>

definition str_GetBuffer :: "nat \<Rightarrow> WOscString \<Rightarrow> char list result" where
  "str_GetBuffer bufferLen s =
     (if bufferLen < str_GetSize s then Inl (OscException ''ERR_OSC_STR_BUFF_TOO_SMALL'')
      else if bufferLen \<le> length (str_bytes s) then Inr (take bufferLen (str_bytes s)) else Inl Undefined)"

definition str_equal :: "WOscString \<Rightarrow> WOscString \<Rightarrow> bool result" where
  "str_equal this rhs =
     (case (this, rhs) of
        (Some a, Some b) \<Rightarrow> bindR (cstring a) (\<lambda>s. mapR (\<lambda>t. s = t) (cstring b))
      | _ \<Rightarrow> Inl NullDeref)"

section \<open>Blobs\<close>

record WOscBlob =
  m_dataLen :: int
  blob_buffer :: "char list"

text \<open>\<open>new char[n]\<close>\<close>

definition new_array :: "int \<Rightarrow> nat result" where
  "new_array n = (if n < 0 then Inl BadAlloc else Inr (nat n))"

definition blob_of_wire :: "char list \<Rightarrow> WOscBlob result" where
  "blob_of_wire p =
     bindR (CharBufToInt p) (\<lambda>len.
     bindR (GetSizeFourByteAligned len) (\<lambda>aligned.
     bindR (chk32_osc (aligned + 4)) (\<lambda>bufferLen.
     bindR (new_array bufferLen) (\<lambda>n.
       if n \<le> length p then Inr \<lparr>m_dataLen = len, blob_buffer = take n p\<rparr> else Inl Undefined))))"

definition blob_of_data :: "char list \<Rightarrow> int \<Rightarrow> WOscBlob result" where
  "blob_of_data p dataLen =
     bindR (GetSizeFourByteAligned dataLen) (\<lambda>aligned.
     bindR (chk32_osc (aligned + 4)) (\<lambda>bufferLen.
     bindR (new_array bufferLen) (\<lambda>n.
       if n < 4 \<or> dataLen < 0 \<or> length p < nat dataLen then Inl Undefined
       else Inr \<lparr>m_dataLen = dataLen,
                  blob_buffer = WriteBuffer_int dataLen @ take (nat dataLen) p @ replicate (n - (nat dataLen + 4)) (CHR 0x00)\<rparr>)))"

definition blob_GetBufferLen :: "WOscBlob \<Rightarrow> nat" where
  "blob_GetBufferLen b = length (blob_buffer b)"

definition blob_GetBuffer :: "nat \<Rightarrow> WOscBlob \<Rightarrow> char list result" where
  "blob_GetBuffer bufferLen b =
     (if bufferLen < blob_GetBufferLen b then Inl (OscException ''ERR_BUFFER_TO_SMALL'') else Inr (blob_buffer b))"

definition blob_GetData :: "WOscBlob \<Rightarrow> char list" where
  "blob_GetData b = drop 4 (blob_buffer b)"

section \<open>Messages\<close>

record WOscMessage =
  m_address :: WOscString
  m_typeTag :: WOscString
  m_floats :: "32 word list"
  m_ints :: "int list"
  m_strings :: "WOscString list"
  m_blobs :: "WOscBlob list"
  m_buffer :: "char list"

text \<open>The two passes over the type tag: the length of the buffer, then its contents. The strings and blobs that are
  left stand for the index of the next one.\<close>

fun size_loop :: "string \<Rightarrow> WOscString list \<Rightarrow> WOscBlob list \<Rightarrow> nat \<Rightarrow> nat result" where
  "size_loop [] strings blobs n = Inr n"
| "size_loop (c # tags) strings blobs n =
     (if c = CHR ''i'' \<or> c = CHR ''f'' then size_loop tags strings blobs (n + 4)
      else if c = CHR ''s'' then
        (case strings of [] \<Rightarrow> Inl Undefined | s # ss \<Rightarrow> size_loop tags ss blobs (n + str_GetSize s))
      else if c = CHR ''b'' then
        (case blobs of [] \<Rightarrow> Inl Undefined | b # bs \<Rightarrow> size_loop tags strings bs (n + blob_GetBufferLen b))
      else if c = CHR '','' then size_loop tags strings blobs n
      else Inr n)"

fun write_loop :: "string \<Rightarrow> int list \<Rightarrow> 32 word list \<Rightarrow> WOscString list \<Rightarrow> WOscBlob list \<Rightarrow> nat \<Rightarrow> char list \<Rightarrow> char list result" where
  "write_loop [] ints floats strings blobs pos buf = Inr buf"
| "write_loop (c # tags) ints floats strings blobs pos buf =
     (if c = CHR ''i'' then
        (case ints of [] \<Rightarrow> Inl Undefined
         | i # is \<Rightarrow> bindR (put_at pos (WriteBuffer_int i) buf) (write_loop tags is floats strings blobs (pos + 4)))
      else if c = CHR ''f'' then
        (case floats of [] \<Rightarrow> Inl Undefined
         | f # fs \<Rightarrow> bindR (put_at pos (WriteBuffer_float f) buf) (write_loop tags ints fs strings blobs (pos + 4)))
      else if c = CHR ''s'' then
        (case strings of [] \<Rightarrow> Inl Undefined
         | s # ss \<Rightarrow> bindR (str_GetBuffer (str_GetSize s) s) (\<lambda>bytes.
                    bindR (put_at pos bytes buf) (write_loop tags ints floats ss blobs (pos + str_GetSize s))))
      else if c = CHR ''b'' then
        (case blobs of [] \<Rightarrow> Inl Undefined
         | b # bs \<Rightarrow> bindR (blob_GetBuffer (blob_GetBufferLen b) b) (\<lambda>bytes.
                    bindR (put_at pos bytes buf) (write_loop tags ints floats strings bs (pos + blob_GetBufferLen b))))
      else if c = CHR '','' then write_loop tags ints floats strings blobs pos buf
      else Inr buf)"

definition GenerateBufferFromMembers :: "WOscMessage \<Rightarrow> WOscMessage result" where
  "GenerateBufferFromMembers m =
     (let a = m_address m; t = m_typeTag m; typeTag = str_bytes t
      in bindR (size_loop typeTag (m_strings m) (m_blobs m) (str_GetSize a + str_GetSize t)) (\<lambda>bufferLen.
         bindR (str_GetBuffer (str_GetSize a) a) (\<lambda>abytes.
         bindR (put_at 0 abytes (replicate bufferLen (CHR 0x00))) (\<lambda>buf1.
         bindR (str_GetBuffer (str_GetSize t) t) (\<lambda>tbytes.
         bindR (put_at (str_GetSize a) tbytes buf1) (\<lambda>buf2.
         mapR (\<lambda>buf. m\<lparr>m_buffer := buf\<rparr>)
           (write_loop typeTag (m_ints m) (m_floats m) (m_strings m) (m_blobs m) (str_GetSize a + str_GetSize t) buf2)))))))"

definition empty_message :: "WOscString \<Rightarrow> WOscMessage" where
  "empty_message a = \<lparr>m_address = a, m_typeTag = str_new '','', m_floats = [], m_ints = [], m_strings = [], m_blobs = [], m_buffer = []\<rparr>"

definition message_new :: "string option \<Rightarrow> WOscMessage result" where
  "message_new address =
     (case address of
        None \<Rightarrow> Inl (OscException ''ERR_NULL_ADDRESS'')
      | Some s \<Rightarrow>
          (if (s @ [CHR 0x00]) ! 0 \<noteq> CHR ''/'' then Inl (OscException ''ERR_INVALID_ADDRESS_NO_SLASH'')
           else GenerateBufferFromMembers (empty_message (str_new s))))"

definition Add_float :: "32 word \<Rightarrow> WOscMessage \<Rightarrow> WOscMessage result" where
  "Add_float x m =
     bindR (str_append_char (m_typeTag m) (CHR ''f'')) (\<lambda>t. GenerateBufferFromMembers (m\<lparr>m_typeTag := t, m_floats := m_floats m @ [x]\<rparr>))"

definition Add_int :: "int \<Rightarrow> WOscMessage \<Rightarrow> WOscMessage result" where
  "Add_int x m =
     bindR (str_append_char (m_typeTag m) (CHR ''i'')) (\<lambda>t. GenerateBufferFromMembers (m\<lparr>m_typeTag := t, m_ints := m_ints m @ [x]\<rparr>))"

definition Add_string :: "string \<Rightarrow> WOscMessage \<Rightarrow> WOscMessage result" where
  "Add_string s m =
     bindR (str_append_char (m_typeTag m) (CHR ''s'')) (\<lambda>t. GenerateBufferFromMembers (m\<lparr>m_typeTag := t, m_strings := m_strings m @ [str_new s]\<rparr>))"

definition Add_oscstring :: "WOscString \<Rightarrow> WOscMessage \<Rightarrow> WOscMessage result" where
  "Add_oscstring s m =
     bindR (str_append_char (m_typeTag m) (CHR ''s'')) (\<lambda>t. GenerateBufferFromMembers (m\<lparr>m_typeTag := t, m_strings := m_strings m @ [str_copy s]\<rparr>))"

text \<open>For a further blob the new array has as many cells as the message has strings.\<close>

definition Add_blob :: "WOscBlob \<Rightarrow> WOscMessage \<Rightarrow> WOscMessage result" where
  "Add_blob b m =
     bindR (str_append_char (m_typeTag m) (CHR ''b'')) (\<lambda>t.
       if m_blobs m \<noteq> [] \<and> length (m_strings m) < length (m_blobs m) + 1 then Inl Undefined
       else GenerateBufferFromMembers (m\<lparr>m_typeTag := t, m_blobs := m_blobs m @ [b]\<rparr>))"

text \<open>The arguments of a message that was received, along its type tag.\<close>

fun parse_args :: "string \<Rightarrow> char list \<Rightarrow> WOscMessage \<Rightarrow> WOscMessage result" where
  "parse_args [] p m = Inr m"
| "parse_args (c # tags) p m =
     (if c = CHR ''i'' then bindR (CharBufToInt p) (\<lambda>i. bindR (Add_int i m) (parse_args tags (drop 4 p)))
      else if c = CHR ''f'' then bindR (CharBufToFloat p) (\<lambda>f. bindR (Add_float f m) (parse_args tags (drop 4 p)))
      else if c = CHR ''s'' then
        bindR (cstring p) (\<lambda>s. bindR (Add_string s m) (\<lambda>m1. parse_args tags (drop (str_GetSize (last (m_strings m1))) p) m1))
      else if c = CHR ''b'' then
        bindR (blob_of_wire p) (\<lambda>b. bindR (Add_blob b m) (parse_args tags (drop (blob_GetBufferLen b) p)))
      else if c = CHR '','' then parse_args tags p m
      else Inr m)"

definition message_parse :: "char list \<Rightarrow> int \<Rightarrow> WOscMessage result" where
  "message_parse buffer bufferLen =
     (if bufferLen < 1 then Inl (OscException ''ERR_NULL_BUFFER'')
      else (case buffer of
              [] \<Rightarrow> Inl Undefined
            | c # _ \<Rightarrow>
                if c \<noteq> CHR ''/'' then Inl (OscException ''ERR_INVALID_ADDRESS_NO_SLASH'')
                else bindR (cstring buffer) (\<lambda>s.
                     let a = str_new s; pos = str_GetSize a; m = empty_message a
                     in if bufferLen \<le> int pos then GenerateBufferFromMembers m
                        else bindR (cstring (drop pos buffer)) (\<lambda>t.
                             let tag = str_new t
                             in bindR (parse_args (str_bytes tag) (drop (pos + str_GetSize tag) buffer) m) GenerateBufferFromMembers))))"

definition message_GetBuffer :: "nat \<Rightarrow> WOscMessage \<Rightarrow> char list result" where
  "message_GetBuffer bufferLen m =
     (if bufferLen < length (m_buffer m) then Inl (OscException ''ERR_OSC_STR_BUFF_TOO_SMALL'')
      else if bufferLen \<le> length (m_buffer m) then Inr (take bufferLen (m_buffer m)) else Inl Undefined)"

text \<open>The access to the arguments: the test lets the index one past the last pass.\<close>

definition get_arg :: "'a list \<Rightarrow> int \<Rightarrow> 'a result" where
  "get_arg xs idx =
     (if int (length xs) < idx then Inl (OscException ''ERR_INVALID_INDEX'')
      else if 0 \<le> idx \<and> idx < int (length xs) then Inr (xs ! nat idx) else Inl Undefined)"

definition GetFloat :: "WOscMessage \<Rightarrow> int \<Rightarrow> 32 word result" where
  "GetFloat m idx = get_arg (m_floats m) idx"

definition GetInt :: "WOscMessage \<Rightarrow> int \<Rightarrow> int result" where
  "GetInt m idx = get_arg (m_ints m) idx"

definition GetString :: "WOscMessage \<Rightarrow> int \<Rightarrow> WOscString result" where
  "GetString m idx = get_arg (m_strings m) idx"

definition GetBlob :: "WOscMessage \<Rightarrow> int \<Rightarrow> WOscBlob result" where
  "GetBlob m idx = get_arg (m_blobs m) idx"

section \<open>Bundles\<close>

datatype WOscBundle = WOscBundle (m_timeTag: "64 word") (m_messages: "WOscMessage list") (m_bundles: "WOscBundle list")

definition GetImmediateTime :: "64 word" where
  "GetImmediateTime = 1"

definition GetLargestTimeTag :: "64 word" where
  "GetLargestTimeTag = -1"

definition WriteToCharArray :: "64 word \<Rightarrow> char list" where
  "WriteToCharArray tt = rev (le_bytes 8 (unat tt))"

definition InitFromCharArray :: "char list \<Rightarrow> 64 word result" where
  "InitFromCharArray p = (if length p < 8 then Inl Undefined else Inr (word_of_nat (le_value (rev (take 8 p)))))"

definition bundle_new :: WOscBundle where
  "bundle_new = WOscBundle GetImmediateTime [] []"

definition bundle_new_at :: "64 word \<Rightarrow> WOscBundle" where
  "bundle_new_at tt = WOscBundle tt [] []"

definition bundle_Add_message :: "WOscMessage \<Rightarrow> WOscBundle \<Rightarrow> WOscBundle" where
  "bundle_Add_message m b = WOscBundle (m_timeTag b) (m_messages b @ [m]) (m_bundles b)"

definition bundle_Add_bundle :: "WOscBundle \<Rightarrow> WOscBundle \<Rightarrow> WOscBundle" where
  "bundle_Add_bundle c b = WOscBundle (m_timeTag b) (m_messages b) (m_bundles b @ [c])"

definition WOSC_BUNDLE_TAG :: "char list" where
  "WOSC_BUNDLE_TAG = ''#bundle'' @ [CHR 0x00]"

fun bundle_GetBufferLen :: "WOscBundle \<Rightarrow> nat" where
  "bundle_GetBufferLen (WOscBundle tt ms bs) =
     8 + 8 + sum_list (map (\<lambda>m. 4 + length (m_buffer m)) ms) + sum_list (map (\<lambda>b. 4 + bundle_GetBufferLen b) bs)"

fun GenerateBufferFromElements :: "WOscBundle \<Rightarrow> char list" where
  "GenerateBufferFromElements (WOscBundle tt ms bs) =
     WOSC_BUNDLE_TAG @ WriteToCharArray tt @
     concat (map (\<lambda>m. WriteBuffer_int (int (length (m_buffer m))) @ m_buffer m) ms) @
     concat (map (\<lambda>b. WriteBuffer_int (int (bundle_GetBufferLen b)) @ GenerateBufferFromElements b) bs)"

definition bundle_GetBuffer :: "nat \<Rightarrow> WOscBundle \<Rightarrow> char list result" where
  "bundle_GetBuffer bufferLen b =
     (let buf = GenerateBufferFromElements b
      in if bundle_GetBufferLen b > bufferLen then Inl (OscException ''ERR_BUFFER_TO_SMALL'') else Inr buf)"

definition remove_at :: "int \<Rightarrow> 'a list \<Rightarrow> 'a list result" where
  "remove_at idx xs =
     (if idx \<ge> int (length xs) \<or> length xs = 0 \<or> idx < 0 then Inl (OscException ''ERR_INVALID_INDEX'')
      else Inr (take (nat idx) xs @ drop (Suc (nat idx)) xs))"

definition RemoveMessage :: "int \<Rightarrow> WOscBundle \<Rightarrow> WOscBundle result" where
  "RemoveMessage idx b = mapR (\<lambda>ms. WOscBundle (m_timeTag b) ms (m_bundles b)) (remove_at idx (m_messages b))"

definition RemoveBundle :: "int \<Rightarrow> WOscBundle \<Rightarrow> WOscBundle result" where
  "RemoveBundle idx b = mapR (\<lambda>bs. WOscBundle (m_timeTag b) (m_messages b) bs) (remove_at idx (m_bundles b))"

definition GetMessage :: "int \<Rightarrow> WOscBundle \<Rightarrow> (WOscMessage \<times> WOscBundle) result" where
  "GetMessage idx b =
     (if idx < 0 \<or> idx \<ge> int (length (m_messages b)) then Inl (OscException ''ERR_INVALID_INDEX'')
      else mapR (Pair (m_messages b ! nat idx)) (RemoveMessage idx b))"

definition GetBundle :: "int \<Rightarrow> WOscBundle \<Rightarrow> (WOscBundle \<times> WOscBundle) result" where
  "GetBundle idx b =
     (if idx < 0 \<or> idx \<ge> int (length (m_bundles b)) then Inl (OscException ''ERR_INVALID_INDEX'')
      else mapR (Pair (m_bundles b ! nat idx)) (RemoveBundle idx b))"

text \<open>The size of the next element, or the end of the buffer.\<close>

definition CheckSize :: "nat \<Rightarrow> nat \<Rightarrow> char list \<Rightarrow> nat option result" where
  "CheckSize relReadPos dataLen rawData =
     (if relReadPos = dataLen then Inr None
      else if relReadPos + 4 > dataLen then Inl (OscException ''ERR_CORRUPT_BUNDLE_INITIALIZATION_DATA'')
      else bindR (CharBufToInt (drop relReadPos rawData)) (\<lambda>elementSize.
           bindR (chk32_osc (4 + elementSize)) (\<lambda>s.
           bindR (chk32_osc (s + int relReadPos)) (\<lambda>e.
             if e > int dataLen \<or> elementSize < 0 then Inl (OscException ''ERR_CORRUPT_BUNDLE_INITIALIZATION_DATA'')
             else Inr (Some (nat elementSize))))))"

lemma CheckSize_less:
  "CheckSize rel n raw = Inr (Some e) \<Longrightarrow> rel + 4 + e \<le> n"
  by (auto simp: CheckSize_def chk32_osc_def bindR_eq_Inr split: if_splits)

text \<open>A bundle that was received. An exception of the library in an element cleans up what was read and is thrown again;
  any other exception is replaced.\<close>

definition rethrow :: "failure \<Rightarrow> failure" where
  "rethrow f = (if f = BadAlloc then OscException ''ERR_UNKN_EXC_DURING_INITBUNDLE_FROM_BUF'' else f)"

function bundle_parse :: "char list \<Rightarrow> nat \<Rightarrow> WOscBundle result"
  and bundle_elements :: "char list \<Rightarrow> nat \<Rightarrow> nat \<Rightarrow> WOscBundle \<Rightarrow> WOscBundle result" where
  "bundle_parse rawData dataLen =
     (if dataLen < 16 then Inl (OscException ''ERR_TOO_FEW_BUNDLE_INITIALIZERS'')
      else if length rawData < 8 \<and> rawData = take (length rawData) WOSC_BUNDLE_TAG then Inl Undefined
      else if take 8 rawData \<noteq> WOSC_BUNDLE_TAG then Inl (OscException ''ERR_INVALID_BUNDLE_TAG'')
      else (case InitFromCharArray (drop 8 rawData) of
              Inl f \<Rightarrow> Inl f
            | Inr tt \<Rightarrow> if dataLen = 16 then Inr (bundle_new_at tt) else bundle_elements rawData dataLen 16 (bundle_new_at tt)))"
| "bundle_elements rawData dataLen relReadPos b =
     (case CheckSize relReadPos dataLen rawData of
        Inl f \<Rightarrow> Inl f
      | Inr None \<Rightarrow> Inr b
      | Inr (Some elementSize) \<Rightarrow>
          (case drop (relReadPos + 4) rawData of
             [] \<Rightarrow> Inl Undefined
           | c # cs \<Rightarrow>
               (case (if c = CHR ''#''
                      then mapR (\<lambda>x. bundle_Add_bundle x b) (bundle_parse (c # cs) elementSize)
                      else mapR (\<lambda>x. bundle_Add_message x b) (message_parse (c # cs) (int elementSize))) of
                  Inl f \<Rightarrow> Inl (rethrow f)
                | Inr b1 \<Rightarrow> bundle_elements rawData dataLen (relReadPos + (elementSize + 4)) b1)))"
  by pat_completeness auto

termination
  by (relation "measure (case_sum (\<lambda>(p, n). 2 * n + 1) (\<lambda>(p, n, rel, b). 2 * (n - rel)))")
    (auto dest!: CheckSize_less)

declare bundle_parse.simps [simp del] bundle_elements.simps [simp del]

section \<open>Bytes and padding\<close>

lemma length_le_bytes [simp]: "length (le_bytes k n) = k"
  by (induction k n rule: le_bytes.induct) auto

lemma le_value_bytes: "n < 256 ^ k \<Longrightarrow> le_value (le_bytes k n) = n"
proof (induction k n rule: le_bytes.induct)
  case (2 k n)
  then have "n div 256 < 256 ^ k" by (simp add: div_less_iff_less_mult mult.commute)
  then show ?case using 2 by (simp add: of_char_of)
qed simp

lemma length_WriteBuffer [simp]: "length (WriteBuffer_int i) = 4" "length (WriteBuffer_float f) = 4"
  by (simp_all add: WriteBuffer_int_def WriteBuffer_float_def)

lemma CharBufToInt_Write: "int32 i \<Longrightarrow> CharBufToInt (WriteBuffer_int i @ rest) = Inr i"
proof -
  assume i: "int32 i"
  have "nat (i mod 4294967296) < 256 ^ 4" by (simp add: nat_less_iff)
  then have "le_value (le_bytes 4 (nat (i mod 4294967296))) = nat (i mod 4294967296)" by (rule le_value_bytes)
  moreover have "wrap32 (i mod 4294967296) = i" using i unfolding wrap32_def INT_MIN_def INT_MAX_def by (simp add: mod_add_left_eq)
  ultimately show ?thesis by (simp add: CharBufToInt_def WriteBuffer_int_def)
qed

lemma CharBufToFloat_Write: "CharBufToFloat (WriteBuffer_float f @ rest) = Inr f"
proof -
  have "unat f < 2 ^ LENGTH(32)" by (rule unsigned_less)
  then have "unat f < 256 ^ 4" by simp
  then show ?thesis by (simp add: CharBufToFloat_def WriteBuffer_float_def le_value_bytes)
qed

lemma InitFromCharArray_Write: "InitFromCharArray (WriteToCharArray t @ rest) = Inr t"
proof -
  have "unat t < 2 ^ LENGTH(64)" by (rule unsigned_less)
  then have "unat t < 256 ^ 8" by simp
  then show ?thesis by (simp add: InitFromCharArray_def WriteToCharArray_def le_value_bytes)
qed

text \<open>A string, closed and padded to a multiple of four bytes.\<close>

definition oscpad :: "string \<Rightarrow> char list" where
  "oscpad s = s @ replicate (4 - length s mod 4) (CHR 0x00)"

definition no_nul :: "string \<Rightarrow> bool" where
  "no_nul s \<longleftrightarrow> CHR 0x00 \<notin> set s"

lemma pad_count: "(n + 1 + (4 - (n + 1) mod 4) mod 4) - n = 4 - n mod (4 :: nat)" "n + 1 + (4 - (n + 1) mod 4) mod 4 = n + (4 - n mod (4 :: nat))"
proof -
  have "n mod 4 = 0 \<or> n mod 4 = 1 \<or> n mod 4 = 2 \<or> n mod 4 = 3" by auto
  then show "n + 1 + (4 - (n + 1) mod 4) mod 4 = n + (4 - n mod (4 :: nat))" by (auto simp: mod_Suc)
  then show "(n + 1 + (4 - (n + 1) mod 4) mod 4) - n = 4 - n mod (4 :: nat)" by simp
qed

lemma PadStringWithZeros_pad: "PadStringWithZeros s = oscpad s"
proof -
  have l: "length s mod 4 < 4" by simp
  have "GetSizeFourByteAligned_string s = length s + (4 - length s mod 4)"
    using pad_count(2) [of "length s"] by (simp add: GetSizeFourByteAligned_string_def Let_def)
  then have "GetSizeFourByteAligned_string s - (length s + 1) = 3 - length s mod 4" using l by simp
  moreover have "4 - length s mod 4 = Suc (3 - length s mod 4)" using l by simp
  ultimately show ?thesis by (simp add: PadStringWithZeros_def oscpad_def)
qed

lemma str_new_pad: "str_new s = Some (oscpad s)"
  by (simp add: str_new_def PadStringWithZeros_pad)

lemma length_oscpad: "length (oscpad s) = length s + (4 - length s mod 4)"
  by (simp add: oscpad_def)

lemma oscpad_mult4: "length (oscpad s) mod 4 = 0"
proof -
  have "length s + (4 - length s mod 4) = 4 * (length s div 4) + 4" using mult_div_mod_eq [of 4 "length s"] mod_less_divisor [of 4 "length s"] by linarith
  then show ?thesis unfolding length_oscpad by (metis mod_mult_self2 mod_self add.commute mult.commute)
qed

lemma cstring_append: "no_nul s \<Longrightarrow> 0 < k \<Longrightarrow> cstring (s @ replicate k (CHR 0x00) @ rest) = Inr s"
  by (cases k) (auto simp: cstring_def c_str_def no_nul_def takeWhile_append)

lemma cstring_oscpad: "no_nul s \<Longrightarrow> cstring (oscpad s @ rest) = Inr s" "no_nul s \<Longrightarrow> cstring (oscpad s) = Inr s"
proof -
  assume s: "no_nul s"
  have p: "0 < 4 - length s mod 4" by simp
  show "cstring (oscpad s @ rest) = Inr s" using cstring_append [OF s p, of rest] by (simp add: oscpad_def)
  show "cstring (oscpad s) = Inr s" using cstring_append [OF s p, of "[]"] by (simp add: oscpad_def)
qed

lemma str_append_char_pad:
  assumes "no_nul s" "c \<noteq> CHR 0x00"
  shows "str_append_char (Some (oscpad s)) c = Inr (Some (oscpad (s @ [c])))"
proof -
  have "no_nul [c]" using assms(2) by (simp add: no_nul_def)
  then have "str_append_char (Some (oscpad s)) c = str_append (Some (oscpad s)) (Some (oscpad [c]))" "cstring (oscpad [c]) = Inr [c]"
    using assms(2) cstring_oscpad(2) by (simp_all add: str_append_char_def str_append_cstr_def str_new_pad c_str_def)
  moreover have "str_append (Some (oscpad s)) (Some (oscpad [c])) = Inr (Some (s @ [c] @ replicate (length s + 1 + 1 + (4 - (length s + 1 + 1) mod 4) mod 4 - (length s + 1)) (CHR 0x00)))"
    using calculation(2) cstring_oscpad(2) [OF assms(1)] by (simp add: str_append_def Let_def)
  ultimately show ?thesis unfolding pad_count(1) by (simp add: oscpad_def)
qed

section \<open>A message as a list of arguments\<close>

datatype osc_arg = OInt int | OFloat "32 word" | OString string

fun arg_tag :: "osc_arg \<Rightarrow> char" where
  "arg_tag (OInt i) = CHR ''i''"
| "arg_tag (OFloat f) = CHR ''f''"
| "arg_tag (OString s) = CHR ''s''"

fun arg_bytes :: "osc_arg \<Rightarrow> char list" where
  "arg_bytes (OInt i) = WriteBuffer_int i"
| "arg_bytes (OFloat f) = WriteBuffer_float f"
| "arg_bytes (OString s) = oscpad s"

fun arg_ok :: "osc_arg \<Rightarrow> bool" where
  "arg_ok (OInt i) = int32 i"
| "arg_ok (OFloat f) = True"
| "arg_ok (OString s) = no_nul s"

definition args_ints :: "osc_arg list \<Rightarrow> int list" where
  "args_ints args = concat (map (\<lambda>a. case a of OInt i \<Rightarrow> [i] | _ \<Rightarrow> []) args)"

definition args_floats :: "osc_arg list \<Rightarrow> 32 word list" where
  "args_floats args = concat (map (\<lambda>a. case a of OFloat f \<Rightarrow> [f] | _ \<Rightarrow> []) args)"

definition args_strings :: "osc_arg list \<Rightarrow> WOscString list" where
  "args_strings args = concat (map (\<lambda>a. case a of OString s \<Rightarrow> [Some (oscpad s)] | _ \<Rightarrow> []) args)"

definition args_bytes :: "osc_arg list \<Rightarrow> char list" where
  "args_bytes args = concat (map arg_bytes args)"

definition tag_text :: "osc_arg list \<Rightarrow> string" where
  "tag_text args = CHR '','' # map arg_tag args"

definition message_of :: "string \<Rightarrow> osc_arg list \<Rightarrow> WOscMessage" where
  "message_of a args =
     \<lparr>m_address = Some (oscpad a), m_typeTag = Some (oscpad (tag_text args)), m_floats = args_floats args, m_ints = args_ints args,
      m_strings = args_strings args, m_blobs = [], m_buffer = oscpad a @ oscpad (tag_text args) @ args_bytes args\<rparr>"

lemmas args_defs = args_ints_def args_floats_def args_strings_def args_bytes_def

lemma args_simps [simp]:
  "args_ints [] = []" "args_floats [] = []" "args_strings [] = []" "args_bytes [] = []"
  "args_ints (a # as) = (case a of OInt i \<Rightarrow> i # args_ints as | _ \<Rightarrow> args_ints as)"
  "args_floats (a # as) = (case a of OFloat f \<Rightarrow> f # args_floats as | _ \<Rightarrow> args_floats as)"
  "args_strings (a # as) = (case a of OString s \<Rightarrow> Some (oscpad s) # args_strings as | _ \<Rightarrow> args_strings as)"
  "args_bytes (a # as) = arg_bytes a @ args_bytes as"
  "args_ints (as @ bs) = args_ints as @ args_ints bs" "args_floats (as @ bs) = args_floats as @ args_floats bs"
  "args_strings (as @ bs) = args_strings as @ args_strings bs" "args_bytes (as @ bs) = args_bytes as @ args_bytes bs"
  by (simp_all add: args_defs split: osc_arg.split)

lemma tag_text_simps: "no_nul (tag_text args)" "tag_text (args @ [a]) = tag_text args @ [arg_tag a]" "arg_tag a \<noteq> CHR 0x00"
proof -
  show t: "arg_tag a \<noteq> CHR 0x00" for a by (cases a) auto
  show "no_nul (tag_text args)" using t [symmetric] by (auto simp: no_nul_def tag_text_def)
  show "tag_text (args @ [a]) = tag_text args @ [arg_tag a]" by (simp add: tag_text_def)
qed

lemma str_GetSize_Some [simp]: "str_GetSize (Some b) = length b" "str_bytes (Some b) = b" "str_GetBuffer (length b) (Some b) = Inr b"
  by (simp_all add: str_GetSize_def str_bytes_def str_GetBuffer_def)

lemma size_loop_args:
  "size_loop (map arg_tag args @ replicate k (CHR 0x00)) (args_strings args) [] n = Inr (n + length (args_bytes args))"
proof (induction args arbitrary: n)
  case Nil
  then show ?case by (cases k) auto
next
  case (Cons a args)
  then show ?case by (cases a) (auto simp: add.assoc)
qed

lemma put_at_end: "length pre = p \<Longrightarrow> length junk = length xs \<Longrightarrow> put_at p xs (pre @ junk @ rest) = Inr (pre @ xs @ rest)"
  by (simp add: put_at_def)

lemma write_loop_args:
  "length pre = pos \<Longrightarrow> length junk = length (args_bytes args) \<Longrightarrow>
   write_loop (map arg_tag args @ replicate k (CHR 0x00)) (args_ints args) (args_floats args) (args_strings args) [] pos (pre @ junk) =
     Inr (pre @ args_bytes args)"
proof (induction args arbitrary: pos pre junk)
  case Nil
  then show ?case by (cases k) auto
next
  case (Cons a args)
  let ?n = "length (arg_bytes a)"
  have j: "junk = take ?n junk @ drop ?n junk" "length (take ?n junk) = ?n" "length (drop ?n junk) = length (args_bytes args)"
    using Cons.prems(2) by auto
  have put: "put_at pos (arg_bytes a) (pre @ junk) = Inr ((pre @ arg_bytes a) @ drop ?n junk)"
    using put_at_end [OF Cons.prems(1) j(2), of "drop ?n junk"] j(1) by (metis append.assoc)
  show ?case using Cons.IH [of "pre @ arg_bytes a" "pos + ?n" "drop ?n junk"] put j(3) Cons.prems(1) by (cases a) auto
qed

lemma Generate_message:
  "GenerateBufferFromMembers (message_of a args\<lparr>m_buffer := junk\<rparr>) = Inr (message_of a args)"
proof -
  let ?t = "oscpad (tag_text args)"
  have t: "?t = CHR '','' # map arg_tag args @ replicate (4 - length (tag_text args) mod 4) (CHR 0x00)"
    by (simp add: oscpad_def tag_text_def)
  let ?z = "replicate (length (oscpad a) + length ?t + length (args_bytes args)) (CHR 0x00)"
  have size: "size_loop ?t (args_strings args) [] n = Inr (n + length (args_bytes args))" for n
    unfolding t using size_loop_args by simp
  have z: "?z = [] @ replicate (length (oscpad a)) (CHR 0x00) @ replicate (length ?t) (CHR 0x00) @ replicate (length (args_bytes args)) (CHR 0x00)"
    by (simp add: replicate_add add.assoc)
  have p1: "put_at 0 (oscpad a) ?z = Inr (oscpad a @ replicate (length ?t) (CHR 0x00) @ replicate (length (args_bytes args)) (CHR 0x00))"
    unfolding z by (subst put_at_end) auto
  have p2: "put_at (length (oscpad a)) ?t (oscpad a @ replicate (length ?t) (CHR 0x00) @ replicate (length (args_bytes args)) (CHR 0x00)) =
    Inr (oscpad a @ ?t @ replicate (length (args_bytes args)) (CHR 0x00))" by (rule put_at_end) auto
  have w: "write_loop ?t (args_ints args) (args_floats args) (args_strings args) [] (length (oscpad a) + length ?t)
      ((oscpad a @ ?t) @ replicate (length (args_bytes args)) (CHR 0x00)) = Inr ((oscpad a @ ?t) @ args_bytes args)"
    using write_loop_args [of "oscpad a @ ?t" "length (oscpad a) + length ?t" "replicate (length (args_bytes args)) (CHR 0x00)" args
        "4 - length (tag_text args) mod 4"] by (subst (1) t) simp
  show ?thesis using size p1 p2 w by (simp add: GenerateBufferFromMembers_def message_of_def Let_def)
qed

lemma Add_message_any:
  "Add_int i (message_of a args\<lparr>m_buffer := junk\<rparr>) = Inr (message_of a (args @ [OInt i]))"
  "Add_float f (message_of a args\<lparr>m_buffer := junk\<rparr>) = Inr (message_of a (args @ [OFloat f]))"
  "Add_string s (message_of a args\<lparr>m_buffer := junk\<rparr>) = Inr (message_of a (args @ [OString s]))"
proof -
  have tag: "str_append_char (Some (oscpad (tag_text args))) (arg_tag x) = Inr (Some (oscpad (tag_text (args @ [x]))))" for x
    using str_append_char_pad tag_text_simps by simp
  have u: "message_of a args\<lparr>m_buffer := junk, m_typeTag := Some (oscpad (tag_text (args @ [x]))), m_ints := args_ints (args @ [x]), m_floats := args_floats (args @ [x]),
      m_strings := args_strings (args @ [x])\<rparr> = message_of a (args @ [x])\<lparr>m_buffer := junk\<rparr>" for x
    by (simp add: message_of_def)
  have g: "GenerateBufferFromMembers (message_of a args\<lparr>m_buffer := junk, m_typeTag := Some (oscpad (tag_text (args @ [x]))), m_ints := args_ints (args @ [x]),
      m_floats := args_floats (args @ [x]), m_strings := args_strings (args @ [x])\<rparr>) = Inr (message_of a (args @ [x]))" for x
    unfolding u by (rule Generate_message)
  show "Add_int i (message_of a args\<lparr>m_buffer := junk\<rparr>) = Inr (message_of a (args @ [OInt i]))"
    using tag [of "OInt i"] g [of "OInt i"] by (simp add: Add_int_def message_of_def)
  show "Add_float f (message_of a args\<lparr>m_buffer := junk\<rparr>) = Inr (message_of a (args @ [OFloat f]))"
    using tag [of "OFloat f"] g [of "OFloat f"] by (simp add: Add_float_def message_of_def)
  show "Add_string s (message_of a args\<lparr>m_buffer := junk\<rparr>) = Inr (message_of a (args @ [OString s]))"
    using tag [of "OString s"] g [of "OString s"] by (simp add: Add_string_def message_of_def str_new_pad)
qed

lemma same_buffer: "message_of a args = message_of a args\<lparr>m_buffer := m_buffer (message_of a args)\<rparr>"
  by simp

lemma Add_message:
  "Add_int i (message_of a args) = Inr (message_of a (args @ [OInt i]))"
  "Add_float f (message_of a args) = Inr (message_of a (args @ [OFloat f]))"
  "Add_string s (message_of a args) = Inr (message_of a (args @ [OString s]))"
  by (subst same_buffer, rule Add_message_any)+

lemma empty_message_of: "GenerateBufferFromMembers (empty_message (str_new a)) = Inr (message_of a [])"
proof -
  have "empty_message (str_new a) = message_of a []\<lparr>m_buffer := []\<rparr>" by (simp add: empty_message_def message_of_def str_new_pad tag_text_def)
  then show ?thesis by (simp add: Generate_message)
qed

lemma message_new_of: "message_new (Some (CHR ''/'' # a)) = Inr (message_of (CHR ''/'' # a) [])"
  by (simp add: message_new_def empty_message_of)

section \<open>Reading what was written\<close>

lemma parse_args_of:
  "\<forall>x \<in> set args. arg_ok x \<Longrightarrow>
   \<exists>junk'. parse_args (map arg_tag args @ replicate k (CHR 0x00)) (args_bytes args @ rest) (message_of a pre\<lparr>m_buffer := junk\<rparr>) =
     Inr (message_of a (pre @ args)\<lparr>m_buffer := junk'\<rparr>)"
proof (induction args arbitrary: pre junk)
  case Nil
  then show ?case by (cases k) auto
next
  case (Cons x args)
  have ih: "\<exists>junk'. parse_args (map arg_tag args @ replicate k (CHR 0x00)) (args_bytes args @ rest) (message_of a (pre @ [x])) =
     Inr (message_of a (pre @ x # args)\<lparr>m_buffer := junk'\<rparr>)"
    using Cons.IH [where pre = "pre @ [x]" and junk = "m_buffer (message_of a (pre @ [x]))"] Cons.prems by simp
  show ?case
  proof (cases x)
    case (OString s)
    have "m_strings (message_of a (pre @ [x])) = args_strings pre @ [Some (oscpad s)]" using OString by (simp add: message_of_def)
    then show ?thesis using ih OString Cons.prems Add_message_any(3) [where s = s and a = a and args = pre and junk = junk] cstring_oscpad(1) [of s "args_bytes args @ rest"] by simp
  qed (use ih Cons.prems in \<open>auto simp: CharBufToInt_Write CharBufToFloat_Write Add_message_any\<close>)
qed

definition message_ok :: "string \<Rightarrow> osc_arg list \<Rightarrow> bool" where
  "message_ok a args \<longleftrightarrow> no_nul a \<and> a \<noteq> [] \<and> hd a = CHR ''/'' \<and> (\<forall>x \<in> set args. arg_ok x)"

lemma message_parse_of:
  assumes "message_ok a args"
  shows "message_parse (m_buffer (message_of a args) @ rest) (int (length (m_buffer (message_of a args)))) = Inr (message_of a args)"
proof -
  obtain a' where a: "a = CHR ''/'' # a'" using assms by (cases a) (auto simp: message_ok_def)
  have na: "no_nul a" and ok: "\<forall>x \<in> set args. arg_ok x" using assms by (auto simp: message_ok_def)
  let ?t = "oscpad (tag_text args)" and ?b = "m_buffer (message_of a args) @ rest"
  have b: "?b = oscpad a @ ?t @ args_bytes args @ rest" "\<exists>cs. ?b = CHR ''/'' # cs" by (simp_all add: message_of_def a oscpad_def)
  have c1: "cstring ?b = Inr a" unfolding b(1) by (rule cstring_oscpad(1) [OF na])
  have c2: "cstring (drop (length (oscpad a)) ?b) = Inr (tag_text args)"
    unfolding b(1) using cstring_oscpad(1) [OF tag_text_simps(1), of args "args_bytes args @ rest"] by simp
  have d: "drop (length (oscpad a) + length ?t) ?b = args_bytes args @ rest" unfolding b(1) by simp
  have t: "?t = CHR '','' # map arg_tag args @ replicate (4 - length (tag_text args) mod 4) (CHR 0x00)"
    by (simp add: oscpad_def tag_text_def)
  have e: "empty_message (str_new a) = message_of a []\<lparr>m_buffer := []\<rparr>"
    by (simp add: empty_message_def message_of_def str_new_pad tag_text_def)
  obtain cs where cs: "?b = CHR ''/'' # cs" using b(2) by blast
  have len: "length (oscpad a) < length (m_buffer (message_of a args))" "0 < length (m_buffer (message_of a args))"
    by (simp_all add: message_of_def length_oscpad)
  obtain j where j: "parse_args ?t (args_bytes args @ rest) (empty_message (str_new a)) = Inr (message_of a args\<lparr>m_buffer := j\<rparr>)"
    using parse_args_of [OF ok, where k = "4 - length (tag_text args) mod 4" and rest = rest and a = a and pre = "[]" and junk = "[]"] unfolding t e by auto
  have "message_parse ?b (int (length (m_buffer (message_of a args)))) =
      bindR (cstring ?b) (\<lambda>s. let a = str_new s; pos = str_GetSize a; m = empty_message a
        in if int (length (m_buffer (message_of (CHR ''/'' # a') args))) \<le> int pos then GenerateBufferFromMembers m
           else bindR (cstring (drop pos ?b)) (\<lambda>t. let tag = str_new t
             in bindR (parse_args (str_bytes tag) (drop (pos + str_GetSize tag) ?b) m) GenerateBufferFromMembers))"
    using len(2) unfolding cs by (simp add: message_parse_def a)
  also have "\<dots> = Inr (message_of a args)"
    unfolding c1 bindR_simps Let_def str_new_pad str_GetSize_Some c2 d using len(1) j Generate_message [where a = a and args = args and junk = j]
    by (simp add: a str_new_pad)
  finally show ?thesis .
qed

text \<open>A message that is built argument by argument, and bundles of such messages.\<close>

fun add_arg :: "osc_arg \<Rightarrow> WOscMessage \<Rightarrow> WOscMessage result" where
  "add_arg (OInt i) m = Add_int i m"
| "add_arg (OFloat f) m = Add_float f m"
| "add_arg (OString s) m = Add_string s m"

definition build_message :: "string \<Rightarrow> osc_arg list \<Rightarrow> WOscMessage result" where
  "build_message a args = foldl (\<lambda>r x. bindR r (add_arg x)) (message_new (Some a)) args"

fun bundle_ok :: "WOscBundle \<Rightarrow> bool" where
  "bundle_ok (WOscBundle tt ms bs) \<longleftrightarrow>
     (\<forall>m \<in> set ms. \<exists>a args. message_ok a args \<and> build_message a args = Inr m) \<and> (\<forall>b \<in> set bs. bundle_ok b)"

lemma add_arg_of: "add_arg x (message_of a args) = Inr (message_of a (args @ [x]))"
  by (cases x) (simp_all add: Add_message)

lemma foldl_add_arg: "foldl (\<lambda>r x. bindR r (add_arg x)) (Inr (message_of a pre)) args = Inr (message_of a (pre @ args))"
  by (induction args arbitrary: pre) (simp_all add: add_arg_of)

lemma build_message_of: "message_ok a args \<Longrightarrow> build_message a args = Inr (message_of a args)"
  by (cases a) (auto simp: message_ok_def build_message_def message_new_of foldl_add_arg)

lemma built_messages:
  "(\<forall>m \<in> set ms. \<exists>a args. message_ok a args \<and> build_message a args = Inr m) \<longleftrightarrow> (\<forall>m \<in> set ms. \<exists>a args. message_ok a args \<and> m = message_of a args)"
  using build_message_of by (metis sum.inject(2))

lemma length_generate: "length (GenerateBufferFromElements b) = bundle_GetBufferLen b"
proof (induction b)
  case (WOscBundle tt ms bs)
  have "(\<Sum>b\<leftarrow>bs. 4 + length (GenerateBufferFromElements b)) = (\<Sum>b\<leftarrow>bs. 4 + bundle_GetBufferLen b)"
    by (rule arg_cong [of _ _ sum_list]) (use WOscBundle in simp)
  then show ?case
    by (simp add: length_concat comp_def WOSC_BUNDLE_TAG_def WriteToCharArray_def)
qed

lemma CheckSize_element:
  assumes "length pre = rel" "rel + 4 + k \<le> n" "n \<le> 2147483647"
  shows "CheckSize rel n (pre @ WriteBuffer_int (int k) @ rest) = Inr (Some k)"
proof -
  have "int32 (int k)" using assms by (simp add: INT_MIN_def INT_MAX_def)
  then have "CharBufToInt (drop rel (pre @ WriteBuffer_int (int k) @ rest)) = Inr (int k)" using assms(1) CharBufToInt_Write by simp
  then show ?thesis using assms by (simp add: CheckSize_def chk32_osc_def INT_MIN_def INT_MAX_def)
qed

abbreviation message_element :: "WOscMessage \<Rightarrow> char list" where
  "message_element m \<equiv> WriteBuffer_int (int (length (m_buffer m))) @ m_buffer m"

abbreviation bundle_element :: "WOscBundle \<Rightarrow> char list" where
  "bundle_element b \<equiv> WriteBuffer_int (int (bundle_GetBufferLen b)) @ GenerateBufferFromElements b"

lemma first_chars:
  "message_ok a args \<Longrightarrow> \<exists>cs. m_buffer (message_of a args) @ rest = CHR ''/'' # cs"
  "\<exists>cs. GenerateBufferFromElements b @ rest = CHR ''#'' # cs"
proof -
  assume "message_ok a args"
  then show "\<exists>cs. m_buffer (message_of a args) @ rest = CHR ''/'' # cs" by (cases a) (auto simp: message_of_def oscpad_def message_ok_def)
next
  show "\<exists>cs. GenerateBufferFromElements b @ rest = CHR ''#'' # cs" by (cases b) (simp add: WOSC_BUNDLE_TAG_def)
qed

lemma elements_messages:
  assumes "\<forall>m \<in> set ms. \<exists>a args. message_ok a args \<and> m = message_of a args" "length pre = rel"
    "rel + length (concat (map message_element ms)) \<le> n" "n \<le> 2147483647"
  shows "bundle_elements (pre @ concat (map message_element ms) @ rest) n rel (WOscBundle tt ms0 bs0) =
    bundle_elements (pre @ concat (map message_element ms) @ rest) n (rel + length (concat (map message_element ms))) (WOscBundle tt (ms0 @ ms) bs0)"
  using assms
proof (induction ms arbitrary: pre rel ms0)
  case (Cons m ms)
  obtain a args where m: "message_ok a args" "m = message_of a args" using Cons.prems(1) by auto
  let ?raw = "pre @ concat (map message_element (m # ms)) @ rest" and ?k = "length (m_buffer m)"
  let ?tail = "concat (map message_element ms) @ rest"
  have raw: "?raw = pre @ WriteBuffer_int (int ?k) @ m_buffer m @ ?tail" "?raw = (pre @ message_element m) @ ?tail" by simp_all
  have chk: "CheckSize rel n ?raw = Inr (Some ?k)"
    unfolding raw(1) by (rule CheckSize_element) (use Cons.prems in auto)
  have "drop (rel + 4) ?raw = m_buffer m @ ?tail" unfolding raw(1) using Cons.prems(2) by simp
  moreover obtain cs where "m_buffer m @ ?tail = CHR ''/'' # cs" using first_chars(1) [OF m(1), of ?tail] m(2) by blast
  moreover have "message_parse (m_buffer m @ ?tail) (int ?k) = Inr m" unfolding m(2) by (rule message_parse_of [OF m(1)])
  ultimately have "bundle_elements ?raw n rel (WOscBundle tt ms0 bs0) = bundle_elements ?raw n (rel + (?k + 4)) (WOscBundle tt (ms0 @ [m]) bs0)"
    using chk by (subst bundle_elements.simps) (simp add: bundle_Add_message_def)
  also have "\<dots> = bundle_elements ?raw n (rel + (?k + 4) + length (concat (map message_element ms))) (WOscBundle tt ((ms0 @ [m]) @ ms) bs0)"
    unfolding raw(2) using Cons.prems by (intro Cons.IH) (auto simp del: length_concat)
  finally show ?case by (simp add: add_ac)
qed simp

lemma elements_bundles:
  assumes "\<forall>b \<in> set bs. \<forall>rest. bundle_parse (GenerateBufferFromElements b @ rest) (bundle_GetBufferLen b) = Inr b" "length pre = rel"
    "rel + length (concat (map bundle_element bs)) \<le> n" "n \<le> 2147483647"
  shows "bundle_elements (pre @ concat (map bundle_element bs) @ rest) n rel (WOscBundle tt ms0 bs0) =
    bundle_elements (pre @ concat (map bundle_element bs) @ rest) n (rel + length (concat (map bundle_element bs))) (WOscBundle tt ms0 (bs0 @ bs))"
  using assms
proof (induction bs arbitrary: pre rel bs0)
  case (Cons b bs)
  let ?raw = "pre @ concat (map bundle_element (b # bs)) @ rest" and ?k = "bundle_GetBufferLen b"
  let ?tail = "concat (map bundle_element bs) @ rest"
  have raw: "?raw = pre @ WriteBuffer_int (int ?k) @ GenerateBufferFromElements b @ ?tail" "?raw = (pre @ bundle_element b) @ ?tail" by simp_all
  have chk: "CheckSize rel n ?raw = Inr (Some ?k)"
    unfolding raw(1) by (rule CheckSize_element) (use Cons.prems length_generate in auto)
  have "drop (rel + 4) ?raw = GenerateBufferFromElements b @ ?tail" unfolding raw(1) using Cons.prems(2) by simp
  moreover obtain cs where "GenerateBufferFromElements b @ ?tail = CHR ''#'' # cs" using first_chars(2) by blast
  moreover have "bundle_parse (GenerateBufferFromElements b @ ?tail) ?k = Inr b" using Cons.prems(1) by simp
  ultimately have "bundle_elements ?raw n rel (WOscBundle tt ms0 bs0) = bundle_elements ?raw n (rel + (?k + 4)) (WOscBundle tt ms0 (bs0 @ [b]))"
    using chk by (subst bundle_elements.simps) (simp add: bundle_Add_bundle_def)
  also have "\<dots> = bundle_elements ?raw n (rel + (?k + 4) + length (concat (map bundle_element bs))) (WOscBundle tt ms0 ((bs0 @ [b]) @ bs))"
    unfolding raw(2) using Cons.prems by (intro Cons.IH) (auto simp: length_generate simp del: length_concat)
  finally show ?case by (simp add: add_ac length_generate)
qed simp

lemma bundle_parse_head:
  "16 \<le> n \<Longrightarrow> 8 \<le> length raw \<Longrightarrow> take 8 raw = WOSC_BUNDLE_TAG \<Longrightarrow> InitFromCharArray (drop 8 raw) = Inr tt \<Longrightarrow>
   bundle_parse raw n = (if n = 16 then Inr (bundle_new_at tt) else bundle_elements raw n 16 (bundle_new_at tt))"
  by (subst bundle_parse.simps) simp

lemma bundle_parse_generate:
  "bundle_ok b \<Longrightarrow> bundle_GetBufferLen b \<le> 2147483647 \<Longrightarrow> bundle_parse (GenerateBufferFromElements b @ rest) (bundle_GetBufferLen b) = Inr b"
proof (induction b arbitrary: rest)
  case (WOscBundle tt ms bs)
  let ?b = "WOscBundle tt ms bs" and ?head = "WOSC_BUNDLE_TAG @ WriteToCharArray tt"
  let ?M = "concat (map message_element ms)" and ?B = "concat (map bundle_element bs)"
  let ?n = "bundle_GetBufferLen ?b" and ?raw = "GenerateBufferFromElements ?b @ rest"
  have raw: "?raw = ?head @ ?M @ ?B @ rest" "?raw = (?head @ ?M) @ ?B @ rest" by simp_all
  have head: "length ?head = 16" "length WOSC_BUNDLE_TAG = 8" by (simp_all add: WOSC_BUNDLE_TAG_def WriteToCharArray_def)
  have n: "?n = 16 + length ?M + length ?B" using length_generate [of ?b] head by simp
  have tt: "InitFromCharArray (drop 8 ?raw) = Inr tt" unfolding raw(1) using InitFromCharArray_Write [of tt "?M @ ?B @ rest"] head(2) by simp
  have tag: "take 8 ?raw = WOSC_BUNDLE_TAG" "8 \<le> length ?raw" unfolding raw(1) using head by simp_all
  have sub: "\<forall>x \<in> set bs. \<forall>rest. bundle_parse (GenerateBufferFromElements x @ rest) (bundle_GetBufferLen x) = Inr x"
  proof (intro ballI allI)
    fix x rest assume x: "x \<in> set bs"
    have "4 + bundle_GetBufferLen x \<le> sum_list (map (\<lambda>b. 4 + bundle_GetBufferLen b) bs)" by (rule member_le_sum_list) (use x in auto)
    then have "bundle_GetBufferLen x \<le> 2147483647" using WOscBundle.prems(2) by simp
    then show "bundle_parse (GenerateBufferFromElements x @ rest) (bundle_GetBufferLen x) = Inr x"
      using WOscBundle.IH [OF x] WOscBundle.prems(1) x by simp
  qed
  have "bundle_elements ?raw ?n 16 (bundle_new_at tt) = bundle_elements ?raw ?n (16 + length ?M) (WOscBundle tt ms [])"
    using elements_messages [of ms ?head 16 ?n "?B @ rest" tt "[]" "[]"] WOscBundle.prems head(1) n
    unfolding raw(1) bundle_new_at_def bundle_ok.simps built_messages by simp
  also have "\<dots> = bundle_elements ?raw ?n (16 + length ?M + length ?B) (WOscBundle tt ms ([] @ bs))"
    unfolding raw(2) by (rule elements_bundles [OF sub]) (use WOscBundle.prems(2) head(1) n in auto)
  also have "\<dots> = Inr ?b" unfolding n [symmetric] by (subst bundle_elements.simps) (simp add: CheckSize_def)
  finally have el: "bundle_elements ?raw ?n 16 (bundle_new_at tt) = Inr ?b" .
  have "bundle_new_at tt = ?b" if "?n = 16"
  proof -
    have "bundle_elements ?raw ?n 16 (bundle_new_at tt) = Inr (bundle_new_at tt)" using that by (subst bundle_elements.simps) (simp add: CheckSize_def)
    then show ?thesis using el by simp
  qed
  moreover have "16 \<le> ?n" using n by simp
  ultimately show ?case using el bundle_parse_head [OF _ tag(2,1) tt, of ?n] by auto
qed

text \<open>Every part has a multiple of four bytes.\<close>

lemma message_aligned: "length (m_buffer (message_of a args)) mod 4 = 0"
proof -
  have "length (args_bytes args) mod 4 = 0"
  proof (induction args)
    case (Cons x args)
    have "length (arg_bytes x) mod 4 = 0" by (cases x) (simp_all add: oscpad_mult4)
    then show ?case using Cons by (simp add: mod_add_eq [symmetric])
  qed simp
  then show ?thesis using oscpad_mult4 [of a] oscpad_mult4 [of "tag_text args"] by (simp add: message_of_def) presburger
qed

lemma sum_mod_4: "(\<And>x. x \<in> set xs \<Longrightarrow> f x mod 4 = 0) \<Longrightarrow> sum_list (map f xs) mod 4 = (0 :: nat)"
proof (induction xs)
  case (Cons x xs)
  have "f x mod 4 = 0" "sum_list (map f xs) mod 4 = 0" using Cons by auto
  then show ?case by simp presburger
qed simp

lemma bundle_aligned: "bundle_ok b \<Longrightarrow> bundle_GetBufferLen b mod 4 = 0"
proof (induction b)
  case (WOscBundle tt ms bs)
  have "\<forall>m \<in> set ms. \<exists>a args. message_ok a args \<and> m = message_of a args" using WOscBundle.prems built_messages by simp
  then have "(4 + length (m_buffer m)) mod 4 = 0" if "m \<in> set ms" for m using that message_aligned by auto
  then have ms: "sum_list (map (\<lambda>m. 4 + length (m_buffer m)) ms) mod 4 = 0" by (rule sum_mod_4)
  have "(4 + bundle_GetBufferLen x) mod 4 = 0" if "x \<in> set bs" for x using WOscBundle that by auto
  then have "sum_list (map (\<lambda>b. 4 + bundle_GetBufferLen b) bs) mod 4 = 0" by (rule sum_mod_4)
  then show ?case using ms by simp presburger
qed

section \<open>Packets\<close>

text \<open>What sender and receiver of packets rely on: a packet can be read off the front of the bytes that follow it.\<close>

locale packet_codec =
  fixes encode :: "'p \<Rightarrow> char list" and decode :: "char list \<Rightarrow> nat \<Rightarrow> 'p result" and valid :: "'p \<Rightarrow> bool"
  assumes decode_encode: "valid p \<Longrightarrow> decode (encode p @ rest) (length (encode p)) = Inr p"

begin

lemma decode_exact: "valid p \<Longrightarrow> decode (encode p) (length (encode p)) = Inr p"
  using decode_encode [of p "[]"] by simp

lemma encode_inj: "valid p \<Longrightarrow> valid q \<Longrightarrow> encode p = encode q \<Longrightarrow> p = q"
  by (metis decode_exact sum.inject(2))

text \<open>Packets one after the other, each behind its size, are told apart.\<close>

lemma framed_inj:
  assumes "\<forall>p \<in> set ps. valid p" "\<forall>q \<in> set qs. valid q" "map (\<lambda>p. (length (encode p), encode p)) ps = map (\<lambda>q. (length (encode q), encode q)) qs"
  shows "ps = qs"
  using assms
proof (induction ps arbitrary: qs)
  case (Cons p ps)
  obtain q qs' where q: "qs = q # qs'" using Cons.prems(3) by (cases qs) simp_all
  have "encode p = encode q" "map (\<lambda>p. (length (encode p), encode p)) ps = map (\<lambda>q. (length (encode q), encode q)) qs'"
    using Cons.prems(3) by (simp_all add: q)
  moreover have "valid p" "valid q" "\<forall>p \<in> set ps. valid p" "\<forall>q \<in> set qs'. valid q" using Cons.prems(1,2) by (simp_all add: q)
  ultimately show ?case using Cons.IH encode_inj q by blast
qed simp

end

interpretation osc_bundle: packet_codec GenerateBufferFromElements bundle_parse "\<lambda>b. bundle_ok b \<and> bundle_GetBufferLen b \<le> 2147483647"
  by unfold_locales (simp add: length_generate bundle_parse_generate)

interpretation osc_message: packet_codec m_buffer "\<lambda>p n. message_parse p (int n)" "\<lambda>m. \<exists>a args. message_ok a args \<and> build_message a args = Inr m"
  by unfold_locales (use message_parse_of build_message_of in fastforce)

section \<open>Properties\<close>

text \<open>
  C11. Open Sound Control packets: a bundle of messages that were built with \<open>Add\<close> from integers, floats and strings, nested bundles
  included, is written inside the buffer its length was computed for; every packet has a multiple of four bytes, and
  the receiver's constructor reads the same bundle back from them, whatever follows in memory.
\<close>

theorem osc_roundtrip:
  assumes "bundle_ok b" "bundle_GetBufferLen b \<le> 2147483647"
  shows "length (GenerateBufferFromElements b) = bundle_GetBufferLen b \<and> bundle_GetBufferLen b mod 4 = 0 \<and>
    bundle_parse (GenerateBufferFromElements b @ rest) (bundle_GetBufferLen b) = Inr b"
  using length_generate bundle_aligned [OF assms(1)] osc_bundle.decode_encode [of b rest] assms by simp

definition sample_message :: WOscMessage where
  "sample_message = message_of ''/tuio/2Dcur'' [OString ''set'', OInt 7, OFloat 0]"

lemma osc_roundtrip_witness:
  "bundle_parse (GenerateBufferFromElements (WOscBundle 1 [sample_message] [WOscBundle 1 [] []]))
      (bundle_GetBufferLen (WOscBundle 1 [sample_message] [WOscBundle 1 [] []])) = Inr (WOscBundle 1 [sample_message] [WOscBundle 1 [] []])"
proof -
  have ok: "message_ok ''/tuio/2Dcur'' [OString ''set'', OInt 7, OFloat 0]"
    by (simp add: message_ok_def no_nul_def INT_MIN_def INT_MAX_def)
  have "bundle_ok (WOscBundle 1 [sample_message] [WOscBundle 1 [] []])" using ok build_message_of [OF ok] by (auto simp: sample_message_def)
  moreover have "bundle_GetBufferLen (WOscBundle 1 [sample_message] [WOscBundle 1 [] []]) \<le> 2147483647"
    by (simp add: sample_message_def message_of_def oscpad_def tag_text_def)
  ultimately show ?thesis using osc_roundtrip [of "WOscBundle 1 [sample_message] [WOscBundle 1 [] []]" "[]"] by simp
qed

end
