(* ===== verification/Movid_Tracker.thy ===== *)
theory Movid_Tracker
  imports Movid_Property
begin

text \<open>
  Blob tracking: \<open>moDataGenericContainer\<close>, \<open>moAbstractBlobTrackerModule\<close> and
  \<open>moGreedyBlobTrackerModule\<close>. A frame brings the blobs a finder has seen; the tracker gives each an
  id, keeps the blobs that got lost for a while, and publishes the blobs that are old enough.

  A container is the map of its properties; \<open>properties[name]\<close> of a name that is not there inserts a null
  pointer, which the sources always follow: \<open>NullDeref\<close>. The three lists hold pointers. A container that
  got lost is in the old and in the new list at the same time; the loop that puts it there has passed it
  in the old list by then, and the old list is not read again, so lists of values say the same. What is
  published is the value at the time of the push. The counter of ids is static: it is an argument and a
  result. The properties of the module are a map as well, and the virtual \<open>trackBlobs\<close> is an argument of
  \<open>tracker_update\<close>.
\<close>

section \<open>Arithmetic of the sources\<close>

text \<open>Signed arithmetic that overflows is undefined; \<open>%\<close> truncates towards zero.\<close>

definition chk32 :: "int \<Rightarrow> int result" where
  "chk32 i = (if int32 i then Inr i else Inl Undefined)"

definition rem_c :: "int \<Rightarrow> int \<Rightarrow> int" where
  "rem_c a b = (if a < 0 then - ((- a) mod b) else a mod b)"

text \<open>\<open>(float)\<close> of a rational: 24 bits of significand, exponent at least \<open>-149\<close>.\<close>

definition flt :: "rat \<Rightarrow> rat" where
  "flt x =
     (if x = 0 then 0
      else (let e = max (ilog 2 \<bar>x\<bar> - 23) (-149) in of_int (half_even (x / bpow 2 e)) * bpow 2 e))"

text \<open>\<open>sqrt\<close>, correctly rounded: the square root of the scaled argument is below \<open>2 ^ 54\<close>.\<close>

fun isqrt :: "nat \<Rightarrow> int \<Rightarrow> int \<Rightarrow> int" where
  "isqrt 0 n r = r"
| "isqrt (Suc k) n r = (if (r + 2 ^ k)\<^sup>2 \<le> n then isqrt k n (r + 2 ^ k) else isqrt k n r)"

definition sqrt_double :: "double \<Rightarrow> double" where
  "sqrt_double x =
     (if x \<le> 0 then 0
      else (let e = ilog 2 x div 2 - 52;
                y = x / bpow 2 (2 * e);
                f = isqrt 54 \<lfloor>y\<rfloor> 0;
                h = (of_int f + 1 / 2)\<^sup>2
            in of_int (if y < h then f else if h < y then f + 1 else if even f then f else f + 1) * bpow 2 e))"

text \<open>\<open>#define PI 3.14159265\<close>\<close>

definition PI_double :: double where
  "PI_double = dbl (314159265 / 100000000)"

definition radToDeg :: "double \<Rightarrow> double" where
  "radToDeg rad = dbl (rad * dbl (180 / PI_double))"

definition degToRad :: "double \<Rightarrow> double" where
  "degToRad deg = dbl (deg * dbl (PI_double / 180))"

definition pincrement :: "int \<Rightarrow> int" where
  "pincrement target = wrap32 (target + 1)"

fun mapM :: "('a \<Rightarrow> 'b result) \<Rightarrow> 'a list \<Rightarrow> 'b list result" where
  "mapM f [] = Inr []"
| "mapM f (x # xs) = bindR (f x) (\<lambda>y. mapR (Cons y) (mapM f xs))"

section \<open>Containers\<close>

type_synonym moDataGenericContainer = "(string, moProperty) smap"

definition cprop :: "string \<Rightarrow> moDataGenericContainer \<Rightarrow> moProperty result" where
  "cprop name c = (case map_of c name of None \<Rightarrow> Inl NullDeref | Some p \<Rightarrow> Inr p)"

definition get_int :: "string \<Rightarrow> moDataGenericContainer \<Rightarrow> int result" where
  "get_int name c = bindR (cprop name c) asInteger"

definition get_double :: "string \<Rightarrow> moDataGenericContainer \<Rightarrow> double result" where
  "get_double name c = bindR (cprop name c) asDouble"

definition get_string :: "string \<Rightarrow> moDataGenericContainer \<Rightarrow> string result" where
  "get_string name c = bindR (cprop name c) asString"

definition put_int :: "string \<Rightarrow> int \<Rightarrow> moDataGenericContainer \<Rightarrow> moDataGenericContainer result" where
  "put_int name v c = bindR (cprop name c) (\<lambda>p. mapR (\<lambda>(p', fired). smap_set name p' c) (set_int v p))"

definition put_double :: "string \<Rightarrow> double \<Rightarrow> moDataGenericContainer \<Rightarrow> moDataGenericContainer result" where
  "put_double name v c = bindR (cprop name c) (\<lambda>p. mapR (\<lambda>(p', fired). smap_set name p' c) (set_double v p))"

definition put_string :: "string \<Rightarrow> string \<Rightarrow> moDataGenericContainer \<Rightarrow> moDataGenericContainer result" where
  "put_string name v c = bindR (cprop name c) (\<lambda>p. mapR (\<lambda>(p', fired). smap_set name p' c) (set_string v p))"

definition new_prop :: "string \<Rightarrow> int \<Rightarrow> moDataGenericContainer \<Rightarrow> moDataGenericContainer" where
  "new_prop name v c = smap_set name (new_int v '''') c"

definition hasProperty :: "string \<Rightarrow> moDataGenericContainer \<Rightarrow> bool" where
  "hasProperty name c = (map_of c name \<noteq> None)"

text \<open>\<open>clone\<close> makes every property a string property.\<close>

definition clone :: "moDataGenericContainer \<Rightarrow> moDataGenericContainer result" where
  "clone c =
     mapR (foldl (\<lambda>m (name, s). smap_set name (new_string s '''') m) [])
       (mapM (\<lambda>(name, p). mapR (Pair name) (asString p)) c)"

text \<open>The destructor deletes the properties: which of the values go back to the allocator.\<close>

definition container_dtor :: "moDataGenericContainer \<Rightarrow> bool list \<times> moDataGenericContainer" where
  "container_dtor c = (map (\<lambda>(name, p). snd (prop_free p)) c, [])"

definition module_prop :: "string \<Rightarrow> (string, moProperty) smap \<Rightarrow> moProperty" where
  "module_prop name props =
     (case map_of props name of Some p \<Rightarrow> p | None \<Rightarrow> new_cstr '''' ''?? auto created ??'')"

section \<open>The abstract tracker\<close>

record tracker =
  new_blobs :: "moDataGenericContainer list"
  old_blobs :: "moDataGenericContainer list"
  adolescent :: "moDataGenericContainer list"
  reused :: "int list"

definition new_tracker :: tracker where
  "new_tracker = \<lparr>new_blobs = [], old_blobs = [], adolescent = [], reused = []\<rparr>"

text \<open>The first blob of a list with the id.\<close>

fun find_id :: "int \<Rightarrow> moDataGenericContainer list \<Rightarrow> nat option result" where
  "find_id n [] = Inr None"
| "find_id n (c # cs) =
     bindR (get_int ''blob_id'' c) (\<lambda>i. if i = n then Inr (Some 0) else mapR (map_option Suc) (find_id n cs))"

text \<open>A jump of the angle counts as a fall to the next or the previous quadrant.\<close>

definition count_falls :: "int \<Rightarrow> int \<Rightarrow> int \<Rightarrow> int" where
  "count_falls max_diff diff fallen_over =
     (if \<bar>flt (of_int diff)\<bar> > flt (of_int max_diff)
      then if diff > 0 then fallen_over + 1 else fallen_over - 1
      else fallen_over)"

text \<open>One turn of the loop of \<open>trackAngles\<close>.\<close>

definition track_angle :: "int \<Rightarrow> moDataGenericContainer list \<Rightarrow> moDataGenericContainer \<Rightarrow> moDataGenericContainer result" where
  "track_angle max_diff old it =
     bindR (get_string ''implements'' it) (\<lambda>implements.
     bindR (inList ''volatileangle'' implements '','') (\<lambda>volatile_angle.
       if \<not> volatile_angle then Inr it
       else
         bindR (get_double ''angle'' it) (\<lambda>a.
         bindR (int_of_double (radToDeg a)) (\<lambda>angle.
         bindR (get_int ''blob_id'' it) (\<lambda>n.
         bindR (find_id n old) (\<lambda>found.
           case found of
             None \<Rightarrow> Inr (new_prop ''fallen_over'' 0 (new_prop ''last_angle'' angle it))
           | Some k \<Rightarrow>
               bindR (get_int ''fallen_over'' (old ! k)) (\<lambda>f0.
               bindR (get_int ''last_angle'' (old ! k)) (\<lambda>last_angle.
               bindR (chk32 (last_angle - angle)) (\<lambda>diff.
               bindR (chk32 (count_falls max_diff diff f0)) (\<lambda>fallen_over.
               bindR (chk32 (90 * fallen_over)) (\<lambda>turned.
               bindR (chk32 (angle + turned)) (\<lambda>s.
                 let trackedangle = rem_c (rem_c s 360 + 360) 360
                 in put_double ''angle'' (degToRad (of_int trackedangle))
                      (new_prop ''last_angle'' angle (new_prop ''fallen_over'' fallen_over it))))))))))))))"

definition trackAngles :: "(string, moProperty) smap \<Rightarrow> tracker \<Rightarrow> tracker result" where
  "trackAngles props t =
     bindR (asDouble (module_prop ''max_rotation_speed'' props)) (\<lambda>d.
     bindR (int_of_double d) (\<lambda>max_diff.
       mapR (\<lambda>bs. t\<lparr>new_blobs := bs\<rparr>) (mapM (track_angle max_diff (old_blobs t)) (new_blobs t))))"

text \<open>\<open>update\<close>, part by part: the old blobs get older, the blobs of the input are copied, \<dots>\<close>

definition grow_older :: "moDataGenericContainer \<Rightarrow> moDataGenericContainer result" where
  "grow_older c = bindR (get_int ''age'' c) (\<lambda>a. bindR (chk32 (a + 1)) (\<lambda>a1. put_int ''age'' a1 c))"

definition copy_blob :: "moDataGenericContainer \<Rightarrow> moDataGenericContainer result" where
  "copy_blob b =
     bindR (clone b) (\<lambda>c.
     bindR (get_string ''implements'' c) (\<lambda>implements.
     mapR (\<lambda>c1. new_prop ''age'' 0 (new_prop ''blob_id'' 0 c1)) (put_string ''implements'' (implements @ '',tracked'') c)))"

text \<open>\<open>\<dots>\<close> a lost blob is kept for a while and a blob that was found again takes over the age, \<open>\<dots>\<close>\<close>

fun merge_old :: "int \<Rightarrow> int \<Rightarrow> moDataGenericContainer list \<Rightarrow> moDataGenericContainer list \<Rightarrow> moDataGenericContainer list result" where
  "merge_old max_age min_age [] new = Inr new"
| "merge_old max_age min_age (c # old) new =
     bindR (get_int ''blob_id'' c) (\<lambda>oid.
     bindR (find_id oid new) (\<lambda>found.
     bindR (get_int ''age'' c) (\<lambda>age.
       case found of
         None \<Rightarrow> merge_old max_age min_age old (if age \<le> max_age \<and> age \<ge> min_age then new @ [c] else new)
       | Some k \<Rightarrow>
           bindR (put_int ''age'' (if min_age \<le> age \<and> age \<le> max_age then min_age else age) (new ! k)) (\<lambda>b.
             merge_old max_age min_age old (new[k := b])))))"

text \<open>\<open>\<dots>\<close> and the blobs of the right age are published.\<close>

fun find_adolescent :: "int \<Rightarrow> int \<Rightarrow> moDataGenericContainer list \<Rightarrow> moDataGenericContainer list result" where
  "find_adolescent max_age min_age [] = Inr []"
| "find_adolescent max_age min_age (c # cs) =
     bindR (get_int ''age'' c) (\<lambda>age.
       mapR (\<lambda>r. if age \<le> max_age \<and> age \<ge> min_age then c # r else r) (find_adolescent max_age min_age cs))"

text \<open>The whole of \<open>update\<close>: the lists at the end, the counter, and what is pushed to the output.\<close>

definition tracker_update ::
    "((string, moProperty) smap \<Rightarrow> int \<Rightarrow> tracker \<Rightarrow> (int \<times> tracker) result) \<Rightarrow>
     (string, moProperty) smap \<Rightarrow> moDataGenericContainer list \<Rightarrow> int \<Rightarrow> tracker \<Rightarrow>
     (int \<times> tracker \<times> moDataGenericContainer list) result" where
  "tracker_update trackBlobs props blobs id_counter t =
     bindR (asInteger (module_prop ''max_age'' props)) (\<lambda>max_age.
     bindR (asInteger (module_prop ''min_age'' props)) (\<lambda>min_age.
     bindR (mapM grow_older (old_blobs t)) (\<lambda>old.
     bindR (mapM copy_blob blobs) (\<lambda>new.
     bindR (trackBlobs props id_counter (t\<lparr>new_blobs := new, old_blobs := old, adolescent := []\<rparr>)) (\<lambda>(id_counter, t1).
     bindR (trackAngles props t1) (\<lambda>t2.
     bindR (merge_old max_age min_age (old_blobs t2) (new_blobs t2)) (\<lambda>merged.
     bindR (find_adolescent max_age min_age merged) (\<lambda>ado.
       Inr (id_counter, t2\<lparr>new_blobs := old_blobs t2, old_blobs := merged, adolescent := ado\<rparr>, ado)))))))))"

text \<open>Frame after frame: what is published.\<close>

fun track_frames :: "((string, moProperty) smap \<Rightarrow> int \<Rightarrow> tracker \<Rightarrow> (int \<times> tracker) result) \<Rightarrow>
    (string, moProperty) smap \<Rightarrow> moDataGenericContainer list list \<Rightarrow> int \<Rightarrow> tracker \<Rightarrow> moDataGenericContainer list list result" where
  "track_frames trackBlobs props [] id_counter t = Inr []"
| "track_frames trackBlobs props (f # frames) id_counter t =
     bindR (tracker_update trackBlobs props f id_counter t) (\<lambda>(n, t1, pub).
       mapR (Cons pub) (track_frames trackBlobs props frames n t1))"

section \<open>The greedy tracker\<close>

definition is_fid :: "string \<Rightarrow> bool result" where
  "is_fid implements =
     bindR (inList ''fiducial'' implements '','') (\<lambda>f.
       if f then Inr True else inList ''markerlessobject'' implements '','')"

definition distance :: "double \<Rightarrow> double \<Rightarrow> double \<Rightarrow> double \<Rightarrow> double" where
  "distance old_x old_y new_x new_y =
     (let dx = dbl (old_x - new_x); dy = dbl (old_y - new_y)
      in sqrt_double (dbl (dbl (dx * dx) + dbl (dy * dy))))"

text \<open>The loop over the old blobs, for one new blob: the closest one and its distance.\<close>

fun closest_loop :: "int list \<Rightarrow> moDataGenericContainer \<Rightarrow> double \<Rightarrow> double \<Rightarrow> bool \<Rightarrow> bool \<Rightarrow>
    moDataGenericContainer list \<Rightarrow> moDataGenericContainer option \<Rightarrow> double \<Rightarrow> moDataGenericContainer option result" where
  "closest_loop ru it new_x new_y new_is_fid new_is_volatile [] closest min_distance = Inr closest"
| "closest_loop ru it new_x new_y new_is_fid new_is_volatile (c # old) closest min_distance =
     (let go_on = closest_loop ru it new_x new_y new_is_fid new_is_volatile old in
      bindR (get_int ''blob_id'' c) (\<lambda>old_id.
        if old_id \<in> set ru then go_on closest min_distance
        else
          bindR (get_string ''implements'' c) (\<lambda>old_implements.
          bindR (is_fid old_implements) (\<lambda>old_is_fid.
          bindR (if old_is_fid \<and> new_is_fid \<and> \<not> new_is_volatile
                 then bindR (get_int ''fiducial_id'' it) (\<lambda>fid.
                      bindR (get_int ''fiducial_id'' c) (\<lambda>old_fid. Inr (fid \<noteq> old_fid)))
                 else Inr False) (\<lambda>differ.
            if differ \<or> \<not> old_is_fid \<and> new_is_fid then go_on closest min_distance
            else
              bindR (get_double ''x'' c) (\<lambda>old_x.
              bindR (get_double ''y'' c) (\<lambda>old_y.
                let d = distance old_x old_y new_x new_y in
                if d < min_distance then go_on (Some c) d else go_on closest min_distance)))))))"

text \<open>The first loop of \<open>trackBlobs\<close>, for one new blob.\<close>

definition greedy_one :: "double \<Rightarrow> moDataGenericContainer list \<Rightarrow> moDataGenericContainer \<Rightarrow> int list \<times> int \<Rightarrow>
    (moDataGenericContainer \<times> int list \<times> int) result" where
  "greedy_one max_distance old it = (\<lambda>(ru, id_counter).
     bindR (get_double ''x'' it) (\<lambda>new_x.
     bindR (get_double ''y'' it) (\<lambda>new_y.
     bindR (get_string ''implements'' it) (\<lambda>implements.
     bindR (is_fid implements) (\<lambda>new_is_fid.
     bindR (inList ''volatile'' implements '','') (\<lambda>new_is_volatile.
     bindR (closest_loop ru it new_x new_y new_is_fid new_is_volatile old None max_distance) (\<lambda>closest_blob.
       case closest_blob of
         Some c \<Rightarrow>
           bindR (get_int ''blob_id'' c) (\<lambda>old_id.
           bindR (put_int ''blob_id'' old_id it) (\<lambda>it1.
           bindR (get_string ''implements'' c) (\<lambda>old_implements.
           bindR (is_fid old_implements) (\<lambda>old_is_fid.
           bindR (if old_is_fid \<and> new_is_fid \<and> new_is_volatile
                  then bindR (get_int ''fiducial_id'' c) (\<lambda>old_fid. put_int ''fiducial_id'' old_fid it1)
                  else Inr it1) (\<lambda>it2.
             Inr (it2, ru @ [old_id], id_counter))))))
       | None \<Rightarrow>
           (let i = pincrement id_counter in mapR (\<lambda>it1. (it1, ru, i)) (put_int ''blob_id'' i it)))))))))"

fun greedy_loop :: "double \<Rightarrow> moDataGenericContainer list \<Rightarrow> moDataGenericContainer list \<Rightarrow> int list \<times> int \<Rightarrow>
    (moDataGenericContainer list \<times> int list \<times> int) result" where
  "greedy_loop max_distance old [] s = Inr ([], s)"
| "greedy_loop max_distance old (it # new) s =
     bindR (greedy_one max_distance old it s) (\<lambda>(it1, s1).
     mapR (\<lambda>(new1, s2). (it1 # new1, s2)) (greedy_loop max_distance old new s1))"

text \<open>The second loop: volatile objects that were not retained expire.\<close>

definition greedy_expire :: "int \<Rightarrow> moDataGenericContainer \<Rightarrow> moDataGenericContainer result" where
  "greedy_expire max_age it =
     bindR (get_string ''implements'' it) (\<lambda>implements.
     bindR (inList ''volatile'' implements '','') (\<lambda>new_is_volatile.
       if new_is_volatile
       then bindR (get_int ''fiducial_id'' it) (\<lambda>fid.
              if fid = -1 then bindR (chk32 (max_age + 1)) (\<lambda>a. put_int ''age'' a it) else Inr it)
       else Inr it))"

text \<open>\<open>max_distance\<close> is read in every turn of the loop; without it the first turn fails.\<close>

definition greedy_trackBlobs :: "(string, moProperty) smap \<Rightarrow> int \<Rightarrow> tracker \<Rightarrow> (int \<times> tracker) result" where
  "greedy_trackBlobs props id_counter t =
     bindR (asInteger (module_prop ''max_age'' props)) (\<lambda>max_age.
     bindR (if new_blobs t = [] then Inr 0 else get_double ''max_distance'' props) (\<lambda>max_distance.
     bindR (greedy_loop max_distance (old_blobs t) (new_blobs t) ([], id_counter)) (\<lambda>(new1, ru, id_counter).
     mapR (\<lambda>new2. (id_counter, t\<lparr>new_blobs := new2, reused := ru\<rparr>)) (mapM (greedy_expire max_age) new1))))"

section \<open>Containers after a copy\<close>

lemma inList_comma: "inList p s [d] = Inr (p \<noteq> [] \<and> p \<in> set (split_on d s))"
  by (auto simp: inList_runs runs_split_on)

lemma split_on_append_sep: "split_on d (s @ d # t) = split_on d s @ split_on d t"
  by (induction s) (auto split: list.splits)

lemma mapM_ok:
  assumes "\<And>x. x \<in> set xs \<Longrightarrow> \<exists>y. f x = Inr y \<and> R x y"
  shows "\<exists>ys. mapM f xs = Inr ys \<and> list_all2 R xs ys"
  using assms
proof (induction xs)
  case (Cons x xs)
  obtain y where "f x = Inr y" "R x y" using Cons.prems by auto
  moreover obtain ys where "mapM f xs = Inr ys" "list_all2 R xs ys" using Cons by auto
  ultimately show ?case by simp
qed simp

text \<open>The copies the tracker works on have string properties, but for the four integers it adds.\<close>

definition int_names :: "string set" where
  "int_names = {''blob_id'', ''age'', ''last_angle'', ''fallen_over''}"

definition plain :: "string \<Rightarrow> moProperty \<Rightarrow> bool" where
  "plain n p \<longleftrightarrow> prop_wf p \<and> \<not> readonly p \<and> (ptype p = MO_PROPERTY_STRING \<or> ptype p = MO_PROPERTY_INTEGER \<and> n \<in> int_names)"

definition ival :: "moProperty \<Rightarrow> int" where
  "ival p = (case asInteger p of Inr i \<Rightarrow> i | Inl _ \<Rightarrow> 0)"

definition sval :: "moProperty \<Rightarrow> string" where
  "sval p = (case asString p of Inr s \<Rightarrow> s | Inl _ \<Rightarrow> [])"

lemma plain_cases:
  assumes "plain n p"
  obtains (str) s where "ptype p = MO_PROPERTY_STRING" "val p = Some (VString s)" "\<not> readonly p" "smap_wf (callbacks p)"
  | (int) i where "ptype p = MO_PROPERTY_INTEGER" "val p = Some (VInt i)" "int32 i" "n \<in> int_names" "\<not> readonly p" "smap_wf (callbacks p)"
proof -
  obtain v where v: "val p = Some v" "pval_type v = ptype p" "pval_ok v" "smap_wf (callbacks p)"
    using assms unfolding plain_def by (auto elim: prop_wfE)
  from assms consider "ptype p = MO_PROPERTY_STRING" | "ptype p = MO_PROPERTY_INTEGER" "n \<in> int_names" by (auto simp: plain_def)
  then show ?thesis using v assms by cases (cases v; auto simp: plain_def intro: str int)+
qed

lemma plain_get:
  assumes "plain n p"
  shows "asInteger p = Inr (ival p)" "int32 (ival p)" "\<exists>d. asDouble p = Inr d" "asString p = Inr (sval p)"
proof -
  have "asInteger p = Inr (ival p) \<and> int32 (ival p) \<and> (\<exists>d. asDouble p = Inr d) \<and> asString p = Inr (sval p)"
    using assms by (cases rule: plain_cases)
      (auto simp: asInteger_def asDouble_def asString_def ival_def sval_def atoi_int32)
  then show "asInteger p = Inr (ival p)" "int32 (ival p)" "\<exists>d. asDouble p = Inr d" "asString p = Inr (sval p)" by blast+
qed

lemma plain_set_int:
  assumes "plain n p" "int32 v"
  shows "\<exists>p' f. set_int v p = Inr (p', f) \<and> plain n p' \<and> ival p' = v"
  using assms(1)
proof (cases rule: plain_cases)
  case (str s)
  then have "set_int v p = Inr (p\<lparr>val := Some (VString (show_int v))\<rparr>, callbacks p)"
    using assms(2) by (simp add: set_defs set_value_def autoconvert.simps fireCallback_def)
  then show ?thesis using str assms
    by (auto simp: plain_def prop_wf_def ival_def asInteger_def atoi_show_int)
next
  case (int i)
  then have "set_int v p = Inr (p\<lparr>val := Some (VInt v)\<rparr>, callbacks p)"
    by (simp add: set_defs set_value_def autoconvert.simps fireCallback_def)
  then show ?thesis using int assms by (auto simp: plain_def prop_wf_def ival_def asInteger_def)
qed

lemma plain_set_text:
  assumes "plain n p" "n \<notin> int_names"
  shows "\<exists>p' f. set_string s p = Inr (p', f) \<and> plain n p' \<and> sval p' = s"
    "\<exists>p' f. set_double x p = Inr (p', f) \<and> plain n p'"
proof -
  have "\<exists>p' f. set_string s p = Inr (p', f) \<and> plain n p' \<and> sval p' = s"
    using assms(1)
  proof (cases rule: plain_cases)
    case (str t)
    then have "set_string s p = Inr (p\<lparr>val := Some (VString s)\<rparr>, callbacks p)"
      by (simp add: set_defs set_value_def autoconvert.simps fireCallback_def)
    then show ?thesis using str assms by (auto simp: plain_def prop_wf_def sval_def asString_def)
  qed (use assms(2) in simp)
  moreover have "\<exists>p' f. set_double x p = Inr (p', f) \<and> plain n p'"
    using assms(1)
  proof (cases rule: plain_cases)
    case (str t)
    then have "set_double x p = Inr (p\<lparr>val := Some (VString (snprintf64 (fmt_fixed 6 x)))\<rparr>, callbacks p)"
      by (simp add: set_defs set_value_def autoconvert.simps fireCallback_def)
    then show ?thesis using str assms by (auto simp: plain_def prop_wf_def)
  qed (use assms(2) in simp)
  ultimately show "\<exists>p' f. set_string s p = Inr (p', f) \<and> plain n p' \<and> sval p' = s"
    "\<exists>p' f. set_double x p = Inr (p', f) \<and> plain n p'" by blast+
qed

lemma plain_new [simp]:
  "plain n (new_string s d)" "sval (new_string s d) = s"
  "n \<in> int_names \<Longrightarrow> int32 i \<Longrightarrow> plain n (new_int i d)" "ival (new_int i d) = i"
  by (auto simp: plain_def new_simps prop_init_def prop_wf_def sval_def ival_def asString_def asInteger_def)

definition cok :: "moDataGenericContainer \<Rightarrow> bool" where
  "cok c \<longleftrightarrow> smap_wf c \<and> (\<forall>n p. map_of c n = Some p \<longrightarrow> plain n p)"

definition int_at :: "string \<Rightarrow> moDataGenericContainer \<Rightarrow> int" where
  "int_at n c = (case map_of c n of Some p \<Rightarrow> ival p | None \<Rightarrow> 0)"

definition str_at :: "string \<Rightarrow> moDataGenericContainer \<Rightarrow> string" where
  "str_at n c = (case map_of c n of Some p \<Rightarrow> sval p | None \<Rightarrow> [])"

abbreviation keys :: "moDataGenericContainer \<Rightarrow> string set" where
  "keys c \<equiv> dom (map_of c)"

lemma get_ok:
  assumes "cok c" "n \<in> keys c"
  shows "get_int n c = Inr (int_at n c)" "int32 (int_at n c)" "\<exists>d. get_double n c = Inr d" "get_string n c = Inr (str_at n c)"
proof -
  obtain p where p: "map_of c n = Some p" "plain n p" using assms by (auto simp: cok_def)
  show "get_int n c = Inr (int_at n c)" "int32 (int_at n c)" "\<exists>d. get_double n c = Inr d" "get_string n c = Inr (str_at n c)"
    using p plain_get [OF p(2)] by (simp_all add: get_int_def get_double_def get_string_def cprop_def int_at_def str_at_def)
qed

text \<open>\<open>changed N c c'\<close>: \<open>c'\<close> is \<open>c\<close> but for the properties in \<open>N\<close>.\<close>

definition changed :: "string set \<Rightarrow> moDataGenericContainer \<Rightarrow> moDataGenericContainer \<Rightarrow> bool" where
  "changed N c c' \<longleftrightarrow> cok c' \<and> keys c \<subseteq> keys c' \<and> (\<forall>m. m \<notin> N \<longrightarrow> map_of c' m = map_of c m)"

lemma changed_refl: "cok c \<Longrightarrow> changed N c c"
  by (simp add: changed_def)

lemma changed_trans: "changed N c d \<Longrightarrow> changed M d e \<Longrightarrow> changed (N \<union> M) c e"
  unfolding changed_def by (intro conjI; elim conjE) (assumption, rule subset_trans, assumption+, simp)

lemma changed_mono: "changed N c d \<Longrightarrow> N \<subseteq> M \<Longrightarrow> changed M c d"
  by (auto simp: changed_def)

lemma changed_at:
  assumes "changed N c c'" "m \<notin> N"
  shows "int_at m c' = int_at m c" "str_at m c' = str_at m c" "m \<in> keys c' \<longleftrightarrow> m \<in> keys c" "get_double m c' = get_double m c"
    "get_int m c' = get_int m c" "get_string m c' = get_string m c"
  using assms by (auto simp: changed_def int_at_def str_at_def get_double_def get_int_def get_string_def cprop_def)

lemma changed_set:
  assumes "cok c" "plain n p"
  shows "changed {n} c (smap_set n p c)" "int_at n (smap_set n p c) = ival p" "str_at n (smap_set n p c) = sval p"
    "n \<in> keys (smap_set n p c)"
  using assms by (auto simp: changed_def cok_def int_at_def str_at_def)

lemma put_int_ok:
  assumes "cok c" "n \<in> keys c" "int32 v"
  shows "\<exists>c'. put_int n v c = Inr c' \<and> changed {n} c c' \<and> int_at n c' = v"
proof -
  obtain p where p: "map_of c n = Some p" "plain n p" using assms by (auto simp: cok_def)
  obtain p' f where "set_int v p = Inr (p', f)" "plain n p'" "ival p' = v" using plain_set_int [OF p(2) assms(3)] by blast
  then show ?thesis using p(1) changed_set [OF assms(1)] by (auto simp: put_int_def cprop_def)
qed

lemma put_text_ok:
  assumes "cok c" "n \<in> keys c" "n \<notin> int_names"
  shows "\<exists>c'. put_string n s c = Inr c' \<and> changed {n} c c' \<and> str_at n c' = s"
    "\<exists>c'. put_double n x c = Inr c' \<and> changed {n} c c'"
proof -
  obtain p where p: "map_of c n = Some p" "plain n p" using assms by (auto simp: cok_def)
  obtain p' f where "set_string s p = Inr (p', f)" "plain n p'" "sval p' = s"
    using plain_set_text(1) [OF p(2) assms(3)] by blast
  then show "\<exists>c'. put_string n s c = Inr c' \<and> changed {n} c c' \<and> str_at n c' = s"
    using p(1) changed_set [OF assms(1)] by (auto simp: put_string_def cprop_def)
  obtain p' f where "set_double x p = Inr (p', f)" "plain n p'"
    using plain_set_text(2) [OF p(2) assms(3)] by blast
  then show "\<exists>c'. put_double n x c = Inr c' \<and> changed {n} c c'"
    using p(1) changed_set [OF assms(1)] by (auto simp: put_double_def cprop_def)
qed

lemma new_prop_ok:
  assumes "cok c" "n \<in> int_names" "int32 v"
  shows "changed {n} c (new_prop n v c)" "int_at n (new_prop n v c) = v" "n \<in> keys (new_prop n v c)"
  using changed_set [OF assms(1), of n "new_int v ''''"] assms(2,3) by (auto simp: new_prop_def)

text \<open>A copy has the printed values of the original.\<close>

lemma clone_fold:
  assumes "smap_wf m0" "\<And>n p. map_of m0 n = Some p \<Longrightarrow> plain n p" "distinct (map fst ss)"
  shows "let m = foldl (\<lambda>m (name, s). smap_set name (new_string s '''') m) m0 ss
    in smap_wf m \<and> (\<forall>n p. map_of m n = Some p \<longrightarrow> plain n p) \<and>
      (\<forall>n. map_of m n = (case map_of ss n of Some s \<Rightarrow> Some (new_string s '''') | None \<Rightarrow> map_of m0 n))"
  using assms
proof (induction ss arbitrary: m0)
  case (Cons a ss)
  obtain n s where a: "a = (n, s)" by (cases a)
  have "map_of ss n = None" using Cons.prems(3) a by (simp add: map_of_eq_None_iff)
  moreover have "plain k p" if "map_of (smap_set n (new_string s '''') m0) k = Some p" for k p
    using that Cons.prems(2) by (auto split: if_splits)
  ultimately show ?case using Cons.IH [of "smap_set n (new_string s '''') m0"] Cons.prems a
    by (auto simp: Let_def split: option.splits)
qed simp

lemma clone_ok:
  assumes wf: "smap_wf b" and ok: "\<And>n p. map_of b n = Some p \<Longrightarrow> prop_wf p"
  shows "\<exists>c. clone b = Inr c \<and> cok c \<and> keys c = keys b \<and> (\<forall>n p. map_of b n = Some p \<longrightarrow> str_at n c = sval p)"
proof -
  have dist: "distinct (map fst b)" by (rule smap_wf_distinct [OF wf])
  let ?ss = "map (\<lambda>(n, p). (n, sval p)) b"
  have "asString p = Inr (sval p)" if "(n, p) \<in> set b" for n p
    using asString_ok [OF ok [OF map_of_is_SomeI [OF dist that]]] by (auto simp: sval_def)
  then have "\<forall>(n, p) \<in> set b. asString p = Inr (sval p)" by blast
  then have "mapM (\<lambda>(name, p). mapR (Pair name) (asString p)) b = Inr ?ss" by (induction b) auto
  moreover have "distinct (map fst ?ss)" using dist by (simp add: case_prod_beta comp_def)
  moreover have look: "map_of ?ss n = map_option sval (map_of b n)" for n by (induction b) auto
  ultimately obtain c where c: "clone b = Inr c" "cok c"
    "\<And>n. map_of c n = (case map_option sval (map_of b n) of Some s \<Rightarrow> Some (new_string s '''') | None \<Rightarrow> None)"
    using clone_fold [of "[]" ?ss] by (auto simp: clone_def cok_def Let_def cong: option.case_cong)
  have "keys c = keys b" using c(3) by (auto split: option.splits)
  moreover have "str_at n c = sval p" if "map_of b n = Some p" for n p using c(3) [of n] that by (simp add: str_at_def)
  ultimately show ?thesis using c(1,2) by blast
qed

section \<open>Blobs\<close>

text \<open>The fields of \<open>implements\<close>, and what they promise. \<open>va\<close> tells whether the angles of the blobs of
  the stream are volatile.\<close>

definition flag :: "string \<Rightarrow> string \<Rightarrow> bool" where
  "flag w s \<longleftrightarrow> w \<in> set (split_on (CHR '','') s)"

definition promises :: "bool \<Rightarrow> string set \<Rightarrow> string \<Rightarrow> bool" where
  "promises va ks s \<longleftrightarrow>
     {''implements'', ''x'', ''y''} \<subseteq> ks \<and> flag ''pos'' s \<and> (flag ''size'' s \<longrightarrow> {''width'', ''height''} \<subseteq> ks) \<and>
     (flag ''fiducial'' s \<or> flag ''markerlessobject'' s \<or> flag ''volatile'' s \<longrightarrow> ''fiducial_id'' \<in> ks) \<and>
     (flag ''volatileangle'' s \<longleftrightarrow> va) \<and> (va \<longrightarrow> ''angle'' \<in> ks)"

lemma inList_flag:
  "inList ''fiducial'' s '','' = Inr (flag ''fiducial'' s)" "inList ''markerlessobject'' s '','' = Inr (flag ''markerlessobject'' s)"
  "inList ''volatile'' s '','' = Inr (flag ''volatile'' s)" "inList ''volatileangle'' s '','' = Inr (flag ''volatileangle'' s)"
  "inList ''tracked'' s '','' = Inr (flag ''tracked'' s)" "inList ''pos'' s '','' = Inr (flag ''pos'' s)"
  "inList ''size'' s '','' = Inr (flag ''size'' s)"
  by (simp_all add: inList_comma flag_def)

lemma is_fid_flag: "is_fid s = Inr (flag ''fiducial'' s \<or> flag ''markerlessobject'' s)"
  by (simp add: is_fid_def inList_flag)

lemma flag_tracked: "flag w (s @ '',tracked'') \<longleftrightarrow> flag w s \<or> w = ''tracked''"
  using split_on_append_sep [of "CHR '',''" s "''tracked''"] by (auto simp: flag_def)

lemma promises_tracked: "promises va ks (s @ '',tracked'') = promises va ks s"
  by (simp add: promises_def flag_tracked)

lemma promises_mono: "promises va ks s \<Longrightarrow> ks \<subseteq> ks' \<Longrightarrow> promises va ks' s"
  by (auto simp: promises_def)

definition angle_of :: "moDataGenericContainer \<Rightarrow> int result" where
  "angle_of c = bindR (get_double ''angle'' c) (\<lambda>a. int_of_double (radToDeg a))"

definition dbl_at :: "string \<Rightarrow> moDataGenericContainer \<Rightarrow> double" where
  "dbl_at n c = (case get_double n c of Inr d \<Rightarrow> d | Inl _ \<Rightarrow> 0)"

text \<open>Both coordinates lie in a square of size \<open>2 D\<close> around the origin; the size, which a finder gives in
  pixels, is in the range of an int.\<close>

definition near :: "double \<Rightarrow> moDataGenericContainer \<Rightarrow> bool" where
  "near D c \<longleftrightarrow> (\<forall>n \<in> {''x'', ''y''}. \<bar>dbl_at n c\<bar> \<le> D) \<and> (\<forall>n \<in> {''width'', ''height''}. \<bar>dbl_at n c\<bar> \<le> 2147483648)"

text \<open>A blob a finder may send; one the tracker has copied, with an age of at most \<open>B\<close>; one that has
  been tracked, after at most \<open>F\<close> quarter turns.\<close>

definition found_blob :: "bool \<Rightarrow> double \<Rightarrow> moDataGenericContainer \<Rightarrow> bool" where
  "found_blob va D b \<longleftrightarrow> smap_wf b \<and> (\<forall>(n, p) \<in> set b. prop_wf p) \<and> promises va (keys b) (str_at ''implements'' b) \<and>
     (case clone b of Inr c \<Rightarrow> near D c | Inl _ \<Rightarrow> False) \<and>
     (va \<longrightarrow> (case bindR (clone b) angle_of of Inr i \<Rightarrow> \<bar>i\<bar> \<le> 1000000 | Inl _ \<Rightarrow> False))"

definition blob_ok :: "bool \<Rightarrow> double \<Rightarrow> int \<Rightarrow> moDataGenericContainer \<Rightarrow> bool" where
  "blob_ok va D B c \<longleftrightarrow> cok c \<and> promises va (keys c) (str_at ''implements'' c) \<and> flag ''tracked'' (str_at ''implements'' c) \<and>
     {''blob_id'', ''age''} \<subseteq> keys c \<and> \<bar>int_at ''age'' c\<bar> \<le> B \<and> near D c"

definition copied_blob :: "bool \<Rightarrow> double \<Rightarrow> int \<Rightarrow> moDataGenericContainer \<Rightarrow> bool" where
  "copied_blob va D B c \<longleftrightarrow> blob_ok va D B c \<and> (va \<longrightarrow> (\<exists>i. angle_of c = Inr i \<and> \<bar>i\<bar> \<le> 1000000))"

definition tracked_blob :: "bool \<Rightarrow> double \<Rightarrow> int \<Rightarrow> int \<Rightarrow> moDataGenericContainer \<Rightarrow> bool" where
  "tracked_blob va D B F c \<longleftrightarrow> blob_ok va D B c \<and>
     (va \<longrightarrow> {''fallen_over'', ''last_angle''} \<subseteq> keys c \<and> \<bar>int_at ''fallen_over'' c\<bar> \<le> F \<and> \<bar>int_at ''last_angle'' c\<bar> \<le> 1000000)"

abbreviation blob_id :: "moDataGenericContainer \<Rightarrow> int" where
  "blob_id c \<equiv> int_at ''blob_id'' c"

lemma blob_okD:
  assumes "blob_ok va D B c"
  shows "cok c" "''implements'' \<in> keys c" "''x'' \<in> keys c" "''y'' \<in> keys c" "''blob_id'' \<in> keys c" "''age'' \<in> keys c"
    "flag ''fiducial'' (str_at ''implements'' c) \<or> flag ''markerlessobject'' (str_at ''implements'' c) \<or> flag ''volatile'' (str_at ''implements'' c) \<Longrightarrow> ''fiducial_id'' \<in> keys c"
    "flag ''volatileangle'' (str_at ''implements'' c) \<longleftrightarrow> va" "va \<Longrightarrow> ''angle'' \<in> keys c" "\<bar>int_at ''age'' c\<bar> \<le> B"
    "get_int ''blob_id'' c = Inr (blob_id c)" "get_int ''age'' c = Inr (int_at ''age'' c)"
    "get_string ''implements'' c = Inr (str_at ''implements'' c)" "near D c"
  using assms get_ok by (auto simp: blob_ok_def promises_def)

lemma near_changed: "changed N c c' \<Longrightarrow> N \<inter> {''x'', ''y'', ''width'', ''height''} = {} \<Longrightarrow> near D c' = near D c"
  using changed_at(4) [of N c c'] by (simp add: near_def dbl_at_def)

lemma blob_ok_changed:
  assumes "blob_ok va D B c" "changed N c c'" "N \<inter> {''implements'', ''x'', ''y'', ''width'', ''height''} = {}" "\<bar>int_at ''age'' c'\<bar> \<le> B'"
  shows "blob_ok va D B' c'"
  using assms promises_mono [of va "keys c" _ "keys c'"] changed_at [OF assms(2), of "''implements''"] near_changed [OF assms(2)]
  by (auto simp: blob_ok_def changed_def)

lemma tracked_changed:
  assumes "tracked_blob va D B F c" "changed N c c'" "N \<inter> {''implements'', ''x'', ''y'', ''width'', ''height''} = {}" "''fallen_over'' \<notin> N" "''last_angle'' \<notin> N" "\<bar>int_at ''age'' c'\<bar> \<le> B'"
  shows "tracked_blob va D B' F c'"
  using assms blob_ok_changed [OF _ assms(2,3,6)] changed_at [OF assms(2,4)] changed_at [OF assms(2,5)]
  by (auto simp: tracked_blob_def)

lemma copied_changed:
  assumes "copied_blob va D B c" "changed N c c'" "N \<inter> {''implements'', ''x'', ''y'', ''width'', ''height''} = {}" "''angle'' \<notin> N" "\<bar>int_at ''age'' c'\<bar> \<le> B'"
  shows "copied_blob va D B' c'"
  using assms blob_ok_changed [OF _ assms(2,3,5)] changed_at [OF assms(2,4)]
  by (auto simp: copied_blob_def angle_of_def)

lemma grow_older_ok:
  assumes "tracked_blob va D B F c" "B < 2147483647"
  shows "\<exists>c'. grow_older c = Inr c' \<and> tracked_blob va D (B + 1) F c' \<and> blob_id c' = blob_id c \<and>
    int_at ''age'' c' = int_at ''age'' c + 1 \<and> changed {''age''} c c'"
proof -
  have b: "blob_ok va D B c" using assms(1) by (simp add: tracked_blob_def)
  note d = blob_okD [OF b]
  have range: "int32 (int_at ''age'' c + 1)" using d(10) assms(2) by (auto simp: INT_MIN_def INT_MAX_def)
  obtain c' where c': "put_int ''age'' (int_at ''age'' c + 1) c = Inr c'" "changed {''age''} c c'" "int_at ''age'' c' = int_at ''age'' c + 1"
    using put_int_ok [OF d(1,6) range] by blast
  have "grow_older c = Inr c'" using d(12) c'(1) range by (simp add: grow_older_def chk32_def)
  moreover have "tracked_blob va D (B + 1) F c'" by (rule tracked_changed [OF assms(1) c'(2)]) (use c'(3) d(10) in auto)
  moreover have "blob_id c' = blob_id c" using changed_at(1) [OF c'(2)] by simp
  ultimately show ?thesis using c'(2,3) by blast
qed

lemma copy_blob_ok:
  assumes "found_blob va D b" "0 \<le> B"
  shows "\<exists>c. copy_blob b = Inr c \<and> copied_blob va D B c \<and> int_at ''age'' c = 0"
proof -
  have wf: "prop_wf p" if "map_of b n = Some p" for n p
    using assms(1) map_of_SomeD [OF that] by (auto simp: found_blob_def)
  obtain c0 where c0: "clone b = Inr c0" "cok c0" "keys c0 = keys b" "\<And>n p. map_of b n = Some p \<Longrightarrow> str_at n c0 = sval p"
    using clone_ok [of b] assms(1) wf by (auto simp: found_blob_def)
  have pr: "promises va (keys b) (str_at ''implements'' b)" using assms(1) by (simp add: found_blob_def)
  have key: "''implements'' \<in> keys b" using pr by (simp add: promises_def)
  then have im: "str_at ''implements'' c0 = str_at ''implements'' b" using c0(4) by (auto simp: str_at_def)
  let ?s = "str_at ''implements'' b @ '',tracked''"
  obtain c1 where c1: "put_string ''implements'' ?s c0 = Inr c1" "changed {''implements''} c0 c1" "str_at ''implements'' c1 = ?s"
    using put_text_ok(1) [OF c0(2), of "''implements''" ?s] key c0(3) by (auto simp: int_names_def)
  let ?c2 = "new_prop ''blob_id'' 0 c1" and ?c = "new_prop ''age'' 0 (new_prop ''blob_id'' 0 c1)"
  have z: "int32 0" by (simp add: INT_MIN_def INT_MAX_def)
  have n2: "changed {''blob_id''} c1 ?c2" "''blob_id'' \<in> keys ?c2"
    using new_prop_ok [of c1 "''blob_id''" 0] c1(2) z by (simp_all add: changed_def int_names_def)
  have n3: "changed {''age''} ?c2 ?c" "int_at ''age'' ?c = 0" "''age'' \<in> keys ?c"
    using new_prop_ok [of ?c2 "''age''" 0] n2(1) z by (simp_all add: changed_def int_names_def)
  have ch: "changed {''blob_id'', ''age''} c1 ?c" using changed_trans [OF n2(1) n3(1)] by (simp add: insert_commute)
  have all: "changed {''implements'', ''blob_id'', ''age''} c0 ?c" using changed_trans [OF c1(2) ch] by (simp add: insert_commute)
  have "str_at ''implements'' ?c = ?s" using changed_at(2) [OF ch, of "''implements''"] c1(3) by simp
  moreover have "keys b \<subseteq> keys ?c" using all c0(3) by (simp add: changed_def)
  ultimately have "blob_ok va D B ?c"
    using pr n2 n3 assms(2) promises_mono [of va "keys b" _ "keys ?c"] flag_tracked promises_tracked near_changed [OF all, of D] assms(1) c0(1)
    by (auto simp: blob_ok_def changed_def found_blob_def)
  moreover have "angle_of ?c = angle_of c0" using changed_at(4) [OF all, of "''angle''"] by (simp add: angle_of_def)
  ultimately have "copied_blob va D B ?c"
    using assms(1) c0(1) by (auto simp: copied_blob_def found_blob_def split: sum.splits)
  moreover have "copy_blob b = Inr ?c"
    using c0(1) c1(1) im get_ok(4) [OF c0(2)] key c0(3) by (simp add: copy_blob_def)
  ultimately show ?thesis using n3(2) by blast
qed

section \<open>The greedy choice\<close>

definition fid_like :: "moDataGenericContainer \<Rightarrow> bool" where
  "fid_like c \<longleftrightarrow> flag ''fiducial'' (str_at ''implements'' c) \<or> flag ''markerlessobject'' (str_at ''implements'' c)"

definition volatile :: "moDataGenericContainer \<Rightarrow> bool" where
  "volatile c \<longleftrightarrow> flag ''volatile'' (str_at ''implements'' c)"

definition blob_dist :: "moDataGenericContainer \<Rightarrow> moDataGenericContainer \<Rightarrow> double" where
  "blob_dist it c = distance (dbl_at ''x'' c) (dbl_at ''y'' c) (dbl_at ''x'' it) (dbl_at ''y'' it)"

text \<open>The old blobs a new blob may be: not given away yet, an object only for an object, and the same
  object unless the recognition is volatile.\<close>

definition candidate :: "int list \<Rightarrow> moDataGenericContainer \<Rightarrow> moDataGenericContainer \<Rightarrow> bool" where
  "candidate ru it c \<longleftrightarrow> blob_id c \<notin> set ru \<and> (fid_like it \<longrightarrow> fid_like c) \<and>
     (fid_like c \<and> fid_like it \<and> \<not> volatile it \<longrightarrow> int_at ''fiducial_id'' it = int_at ''fiducial_id'' c)"

definition nearer :: "int list \<Rightarrow> moDataGenericContainer \<Rightarrow> moDataGenericContainer option \<times> double \<Rightarrow> moDataGenericContainer \<Rightarrow>
    moDataGenericContainer option \<times> double" where
  "nearer ru it s c = (if candidate ru it c \<and> blob_dist it c < snd s then (Some c, blob_dist it c) else s)"

lemma get_double_at: "cok c \<Longrightarrow> n \<in> keys c \<Longrightarrow> get_double n c = Inr (dbl_at n c)"
  using get_ok(3) [of c n] by (auto simp: dbl_at_def)

lemma closest_loop_nearer:
  assumes it: "blob_ok va D B it" and old: "\<And>c. c \<in> set old \<Longrightarrow> blob_ok va D B' c"
  shows "closest_loop ru it (dbl_at ''x'' it) (dbl_at ''y'' it) (fid_like it) (volatile it) old cl md =
    Inr (fst (foldl (nearer ru it) (cl, md) old))"
  using old
proof (induction old arbitrary: cl md)
  case (Cons c old)
  note d = blob_okD [OF Cons.prems [of c]]
  have fid: "is_fid (str_at ''implements'' c) = Inr (fid_like c)" by (simp add: is_fid_flag fid_like_def)
  have xy: "get_double ''x'' c = Inr (dbl_at ''x'' c)" "get_double ''y'' c = Inr (dbl_at ''y'' c)"
    using get_double_at d(1,3,4) by auto
  have fc: "get_int ''fiducial_id'' c = Inr (int_at ''fiducial_id'' c)" if "fid_like c"
    using get_ok(1) [OF d(1)] d(7) that by (auto simp: fid_like_def)
  have fi: "get_int ''fiducial_id'' it = Inr (int_at ''fiducial_id'' it)" if "fid_like it"
    using get_ok(1) [OF blob_okD(1) [OF it]] blob_okD(7) [OF it] that by (auto simp: fid_like_def)
  show ?case
    using Cons.IH Cons.prems d(11,13) fid xy fc fi
    by (auto simp: nearer_def candidate_def blob_dist_def Let_def)
qed simp

lemma nearer_Pair:
  "nearer ru it (cl, md) c = (if candidate ru it c \<and> blob_dist it c < md then (Some c, blob_dist it c) else (cl, md))"
  by (simp add: nearer_def)

lemma foldl_nearer:
  assumes "foldl (nearer ru it) (cl, md) old = (cl', md')"
  shows "md' \<le> md" "\<forall>c \<in> set old. candidate ru it c \<longrightarrow> md' \<le> blob_dist it c"
    "(cl' = cl \<and> md' = md) \<or> (\<exists>c \<in> set old. cl' = Some c \<and> candidate ru it c \<and> md' = blob_dist it c \<and> blob_dist it c < md)"
proof -
  have "md' \<le> md \<and> (\<forall>c \<in> set old. candidate ru it c \<longrightarrow> md' \<le> blob_dist it c) \<and>
    ((cl' = cl \<and> md' = md) \<or> (\<exists>c \<in> set old. cl' = Some c \<and> candidate ru it c \<and> md' = blob_dist it c \<and> blob_dist it c < md))"
    using assms
  proof (induction old arbitrary: cl md)
    case (Cons c old)
    show ?case
    proof (cases "candidate ru it c \<and> blob_dist it c < md")
      case True
      with Cons.prems have "foldl (nearer ru it) (Some c, blob_dist it c) old = (cl', md')" by (simp add: nearer_Pair)
      from Cons.IH [OF this] True show ?thesis by auto
    next
      case False
      with Cons.prems have "foldl (nearer ru it) (cl, md) old = (cl', md')" by (auto simp: nearer_Pair)
      from Cons.IH [OF this] False show ?thesis by auto
    qed
  qed simp
  then show "md' \<le> md" "\<forall>c \<in> set old. candidate ru it c \<longrightarrow> md' \<le> blob_dist it c"
    "(cl' = cl \<and> md' = md) \<or> (\<exists>c \<in> set old. cl' = Some c \<and> candidate ru it c \<and> md' = blob_dist it c \<and> blob_dist it c < md)" by auto
qed

text \<open>The blob is the nearest candidate, if one is near enough, or a new one.\<close>

definition choice :: "int list \<Rightarrow> double \<Rightarrow> moDataGenericContainer list \<Rightarrow> moDataGenericContainer \<Rightarrow> moDataGenericContainer option \<Rightarrow> bool" where
  "choice ru md old it cl =
     (case cl of
        None \<Rightarrow> \<forall>c \<in> set old. candidate ru it c \<longrightarrow> md \<le> blob_dist it c
      | Some c \<Rightarrow> c \<in> set old \<and> candidate ru it c \<and> blob_dist it c < md \<and>
                  (\<forall>c' \<in> set old. candidate ru it c' \<longrightarrow> blob_dist it c \<le> blob_dist it c'))"

lemma choice_nearer: "choice ru md old it (fst (foldl (nearer ru it) (None, md) old))"
proof -
  obtain cl' md' where f: "foldl (nearer ru it) (None, md) old = (cl', md')" by force
  show ?thesis using foldl_nearer [OF f] f by (auto simp: choice_def)
qed

lemma greedy_one_ok:
  assumes it: "copied_blob va D B it" and old: "\<And>c. c \<in> set old \<Longrightarrow> blob_ok va D B' c" and n: "0 \<le> n" "n < 2147483647"
  shows "\<exists>it' cl. greedy_one md old it (ru, n) = (case cl of
        Some c \<Rightarrow> Inr (it', ru @ [blob_id c], n) | None \<Rightarrow> Inr (it', ru, n + 1)) \<and>
      choice ru md old it cl \<and> changed {''blob_id'', ''fiducial_id''} it it' \<and>
      blob_id it' = (case cl of Some c \<Rightarrow> blob_id c | None \<Rightarrow> n + 1)"
proof -
  have b: "blob_ok va D B it" using it by (simp add: copied_blob_def)
  note d = blob_okD [OF b]
  let ?cl = "fst (foldl (nearer ru it) (None, md) old)"
  have loop: "closest_loop ru it (dbl_at ''x'' it) (dbl_at ''y'' it) (fid_like it) (volatile it) old None md = Inr ?cl"
    by (rule closest_loop_nearer [OF b old])
  have pre: "get_double ''x'' it = Inr (dbl_at ''x'' it)" "get_double ''y'' it = Inr (dbl_at ''y'' it)"
    "is_fid (str_at ''implements'' it) = Inr (fid_like it)" "inList ''volatile'' (str_at ''implements'' it) '','' = Inr (volatile it)"
    using get_double_at d(1,3,4) by (auto simp: is_fid_flag fid_like_def inList_flag volatile_def)
  show ?thesis
  proof (cases ?cl)
    case None
    have r: "int32 (n + 1)" using n by (simp add: INT_MIN_def INT_MAX_def)
    obtain it' where "put_int ''blob_id'' (n + 1) it = Inr it'" "changed {''blob_id''} it it'" "blob_id it' = n + 1"
      using put_int_ok [OF d(1,5) r] by blast
    then show ?thesis using None pre d(13) loop choice_nearer [of ru md old it] changed_mono [of "{''blob_id''}" it it' "{''blob_id'', ''fiducial_id''}"] r
      by (intro exI [of _ it'] exI [of _ ?cl]) (simp add: greedy_one_def pincrement_def)
  next
    case (Some c)
    then have ch: "choice ru md old it (Some c)" using choice_nearer [of ru md old it] by simp
    then have c: "blob_ok va D B' c" using old by (simp add: choice_def)
    note e = blob_okD [OF c]
    obtain it1 where it1: "put_int ''blob_id'' (blob_id c) it = Inr it1" "changed {''blob_id''} it it1" "blob_id it1 = blob_id c"
      using put_int_ok [OF d(1,5) get_ok(2) [OF e(1,5)]] by blast
    have fid: "is_fid (str_at ''implements'' c) = Inr (fid_like c)" by (simp add: is_fid_flag fid_like_def)
    have "\<exists>it2. (if fid_like c \<and> fid_like it \<and> volatile it
        then bindR (get_int ''fiducial_id'' c) (\<lambda>old_fid. put_int ''fiducial_id'' old_fid it1) else Inr it1) = Inr it2 \<and>
        changed {''fiducial_id''} it1 it2"
    proof (cases "fid_like c \<and> fid_like it \<and> volatile it")
      case True
      then have k: "''fiducial_id'' \<in> keys c" "''fiducial_id'' \<in> keys it1"
        using e(7) d(7) changed_at(3) [OF it1(2), of "''fiducial_id''"] by (auto simp: fid_like_def)
      have "cok it1" using it1(2) by (simp add: changed_def)
      from put_int_ok [OF this k(2) get_ok(2) [OF e(1) k(1)]] get_ok(1) [OF e(1) k(1)] True show ?thesis by auto
    next
      case False
      then show ?thesis using changed_refl [of it1 "{''fiducial_id''}"] it1(2) by (auto simp: changed_def)
    qed
    then obtain it2 where it2: "(if fid_like c \<and> fid_like it \<and> volatile it
        then bindR (get_int ''fiducial_id'' c) (\<lambda>old_fid. put_int ''fiducial_id'' old_fid it1) else Inr it1) = Inr it2"
        "changed {''fiducial_id''} it1 it2" by blast
    have "changed {''blob_id'', ''fiducial_id''} it it2" using changed_trans [OF it1(2) it2(2)] by (simp add: insert_commute)
    moreover have "blob_id it2 = blob_id c" using changed_at(1) [OF it2(2), of "''blob_id''"] it1(3) by simp
    moreover have "greedy_one md old it (ru, n) = Inr (it2, ru @ [blob_id c], n)"
      using pre d(13) loop Some e(11,13) it1(1) fid it2(1) by (simp add: greedy_one_def)
    ultimately show ?thesis using ch by (intro exI [of _ it2] exI [of _ "Some c"]) simp
  qed
qed

section \<open>What a tracker promises\<close>

text \<open>The new blobs after tracking: each is the copied blob with another id, age and fiducial id; the
  ids are distinct, and each is the id of an old blob or one the counter has just given out.\<close>

definition relabelled :: "int \<Rightarrow> moDataGenericContainer \<Rightarrow> moDataGenericContainer \<Rightarrow> bool" where
  "relabelled max_age c c' \<longleftrightarrow> changed {''blob_id'', ''fiducial_id'', ''age''} c c' \<and>
     (int_at ''age'' c' = int_at ''age'' c \<or> int_at ''age'' c' = max_age + 1)"

definition fresh_ids :: "int \<Rightarrow> int \<Rightarrow> moDataGenericContainer list \<Rightarrow> moDataGenericContainer list \<Rightarrow> bool" where
  "fresh_ids n n' old new \<longleftrightarrow> n \<le> n' \<and> n' \<le> n + int (length new) \<and> distinct (map blob_id new) \<and>
     (\<forall>c \<in> set new. blob_id c \<in> blob_id ` set old \<or> n < blob_id c \<and> blob_id c \<le> n')"

lemma greedy_loop_ok:
  assumes new: "\<And>c. c \<in> set new \<Longrightarrow> copied_blob va D B c" and old: "\<And>c. c \<in> set old \<Longrightarrow> blob_ok va D B' c"
    and n: "0 \<le> n" "n + int (length new) \<le> 2147483647" and range: "\<forall>c \<in> set old. blob_id c \<le> k" "k \<le> n"
  shows "\<exists>new' ru' n'. greedy_loop md old new (ru, n) = Inr (new', ru', n') \<and>
    list_all2 (\<lambda>c c'. changed {''blob_id'', ''fiducial_id''} c c') new new' \<and> n \<le> n' \<and> n' \<le> n + int (length new) \<and>
    distinct (map blob_id new') \<and>
    (\<forall>c \<in> set new'. blob_id c \<in> blob_id ` set old - set ru \<or> n < blob_id c \<and> blob_id c \<le> n')"
  using new n range(2)
proof (induction new arbitrary: ru n)
  case (Cons it new)
  obtain it' cl where one: "greedy_one md old it (ru, n) = (case cl of
        Some c \<Rightarrow> Inr (it', ru @ [blob_id c], n) | None \<Rightarrow> Inr (it', ru, n + 1))"
      "choice ru md old it cl" "changed {''blob_id'', ''fiducial_id''} it it'"
      "blob_id it' = (case cl of Some c \<Rightarrow> blob_id c | None \<Rightarrow> n + 1)"
    using greedy_one_ok [of va D B it old B' n md ru] Cons.prems old by auto
  let ?ru = "case cl of Some c \<Rightarrow> ru @ [blob_id c] | None \<Rightarrow> ru" and ?n = "case cl of Some c \<Rightarrow> n | None \<Rightarrow> n + 1"
  have s: "greedy_one md old it (ru, n) = Inr (it', ?ru, ?n)" using one(1) by (simp split: option.splits)
  have step: "n \<le> ?n" "?n \<le> n + 1" by (simp_all split: option.splits)
  obtain new' ru' n' where rest: "greedy_loop md old new (?ru, ?n) = Inr (new', ru', n')"
    "list_all2 (\<lambda>c c'. changed {''blob_id'', ''fiducial_id''} c c') new new'" "?n \<le> n'" "n' \<le> ?n + int (length new)"
    "distinct (map blob_id new')"
    "\<forall>c \<in> set new'. blob_id c \<in> blob_id ` set old - set ?ru \<or> ?n < blob_id c \<and> blob_id c \<le> n'"
    using Cons.IH [of ?n ?ru] Cons.prems step by fastforce
  have here: "blob_id it' \<in> blob_id ` set old - set ru \<or> n < blob_id it' \<and> blob_id it' \<le> ?n"
    using one(2,4) by (auto simp: choice_def candidate_def split: option.splits)
  have "blob_id it' \<notin> blob_id ` set new'"
  proof
    assume "blob_id it' \<in> blob_id ` set new'"
    then obtain c where "c \<in> set new'" "blob_id c = blob_id it'" by auto
    with rest(6) have "blob_id it' \<in> blob_id ` set old - set ?ru \<or> ?n < blob_id it' \<and> blob_id it' \<le> n'" by metis
    then show False using one(2,4) range Cons.prems(4) by (cases cl) (force simp: choice_def)+
  qed
  moreover have "\<forall>c \<in> set (it' # new'). blob_id c \<in> blob_id ` set old - set ru \<or> n < blob_id c \<and> blob_id c \<le> n'"
    using here rest(3,6) step(1) by (fastforce split: option.splits)
  moreover have "greedy_loop md old (it # new) (ru, n) = Inr (it' # new', ru', n')" using s rest(1) by simp
  ultimately show ?case using rest(2-5) one(3) step
    by (intro exI [of _ "it' # new'"] exI [of _ ru'] exI [of _ n']) auto
qed simp

lemma greedy_expire_ok:
  assumes "blob_ok va D B c" "int32 (max_age + 1)"
  shows "\<exists>c'. greedy_expire max_age c = Inr c' \<and> changed {''age''} c c' \<and>
    (int_at ''age'' c' = int_at ''age'' c \<or> int_at ''age'' c' = max_age + 1)"
proof -
  note d = blob_okD [OF assms(1)]
  show ?thesis
  proof (cases "volatile c \<and> int_at ''fiducial_id'' c = -1")
    case True
    then have "get_int ''fiducial_id'' c = Inr (-1)" using get_ok(1) [OF d(1)] d(7) by (auto simp: volatile_def)
    moreover obtain c' where "put_int ''age'' (max_age + 1) c = Inr c'" "changed {''age''} c c'" "int_at ''age'' c' = max_age + 1"
      using put_int_ok [OF d(1,6) assms(2)] by blast
    ultimately show ?thesis using True d(13) assms(2)
      by (auto simp: greedy_expire_def inList_flag volatile_def chk32_def)
  next
    case False
    then have "greedy_expire max_age c = Inr c" using d get_ok(1) [OF d(1), of "''fiducial_id''"]
      by (auto simp: greedy_expire_def inList_flag volatile_def)
    then show ?thesis using changed_refl [OF d(1)] by auto
  qed
qed

text \<open>The settings of the module the tracker reads.\<close>

definition settings_ok :: "(string, moProperty) smap \<Rightarrow> int \<Rightarrow> int \<Rightarrow> bool" where
  "settings_ok props max_age min_age \<longleftrightarrow>
     asInteger (module_prop ''max_age'' props) = Inr max_age \<and> asInteger (module_prop ''min_age'' props) = Inr min_age \<and>
     okR (bindR (asDouble (module_prop ''max_rotation_speed'' props)) int_of_double) \<and>
     okR (get_double ''max_distance'' props) \<and> \<bar>max_age\<bar> \<le> 1000000000 \<and> \<bar>min_age\<bar> \<le> 1000000000"

section \<open>The steps of an update\<close>

lemma find_id_ok:
  assumes "\<And>c. c \<in> set cs \<Longrightarrow> get_int ''blob_id'' c = Inr (blob_id c)"
  shows "(find_id n cs = Inr None \<and> n \<notin> blob_id ` set cs) \<or> (\<exists>k < length cs. find_id n cs = Inr (Some k) \<and> blob_id (cs ! k) = n)"
  using assms
proof (induction cs)
  case (Cons c cs)
  then show ?case using Cons.IH by (cases "blob_id c = n") fastforce+
qed simp

text \<open>The end of a turn of \<open>trackAngles\<close>, the first turn of a blob, and a later one.\<close>

definition turned :: "bool \<Rightarrow> double \<Rightarrow> int \<Rightarrow> int \<Rightarrow> moDataGenericContainer \<Rightarrow> moDataGenericContainer \<Rightarrow> bool" where
  "turned va D B F it c \<longleftrightarrow> tracked_blob va D B F c \<and> blob_id c = blob_id it \<and> int_at ''age'' c = int_at ''age'' it"

lemma turnedI:
  assumes b: "blob_ok va D B it" and ch: "changed {''fallen_over'', ''last_angle'', ''angle''} it c"
    and at: "\<bar>int_at ''last_angle'' c\<bar> \<le> 1000000" "\<bar>int_at ''fallen_over'' c\<bar> \<le> F" "{''fallen_over'', ''last_angle''} \<subseteq> keys c"
  shows "turned va D B F it c"
  using blob_ok_changed [OF b ch, of B] blob_okD(10) [OF b] changed_at(1) [OF ch, of "''age''"] changed_at(1) [OF ch, of "''blob_id''"] at
  by (auto simp: turned_def tracked_blob_def)

lemma new_props_changed:
  assumes "cok c" "n \<in> int_names" "m \<in> int_names" "int32 v" "int32 w" "n \<noteq> m"
  shows "changed {n, m} c (new_prop m w (new_prop n v c))" "int_at n (new_prop m w (new_prop n v c)) = v"
    "int_at m (new_prop m w (new_prop n v c)) = w" "{n, m} \<subseteq> keys (new_prop m w (new_prop n v c))"
proof -
  note n1 = new_prop_ok [OF assms(1,2,4)]
  have "cok (new_prop n v c)" using n1(1) by (simp add: changed_def)
  note n2 = new_prop_ok [OF this assms(3,5)]
  show "changed {n, m} c (new_prop m w (new_prop n v c))" using changed_trans [OF n1(1) n2(1)] by (simp add: insert_commute)
  show "int_at n (new_prop m w (new_prop n v c)) = v" "int_at m (new_prop m w (new_prop n v c)) = w"
    "{n, m} \<subseteq> keys (new_prop m w (new_prop n v c))"
    using changed_at [OF n2(1), of n] assms(6) n1 n2 by simp_all
qed

lemma track_angle_first:
  assumes b: "blob_ok va D B it" and va: va and x: "angle_of it = Inr angle" "\<bar>angle\<bar> \<le> 1000000" and none: "find_id (blob_id it) old = Inr None"
    and F: "0 \<le> F"
  shows "\<exists>c. track_angle max_diff old it = Inr c \<and> turned va D B F it c"
proof -
  note d = blob_okD [OF b]
  let ?c = "new_prop ''fallen_over'' 0 (new_prop ''last_angle'' angle it)"
  have r: "int32 angle" "int32 0" using x(2) by (auto simp: INT_MIN_def INT_MAX_def)
  note n = new_props_changed [OF d(1), of "''last_angle''" "''fallen_over''" angle 0]
  have ch: "changed {''last_angle'', ''fallen_over''} it ?c" using n(1) r by (simp add: int_names_def)
  have "turned va D B F it ?c"
    by (rule turnedI [OF b changed_mono [OF ch]]) (use n(2-) r x F in \<open>auto simp: int_names_def\<close>)
  moreover have "track_angle max_diff old it = Inr ?c"
    using x(1) none va d(8,11,13) get_ok(3) [OF d(1) d(9)] by (auto simp: track_angle_def inList_flag angle_of_def)
  ultimately show ?thesis by blast
qed

lemma track_angle_again:
  assumes b: "blob_ok va D B it" and va: va and x: "angle_of it = Inr angle" "\<bar>angle\<bar> \<le> 1000000"
    and k: "find_id (blob_id it) old = Inr (Some k)" and o: "tracked_blob va D B' F (old ! k)" and F: "0 \<le> F" "F < 20000000"
  shows "\<exists>c. track_angle max_diff old it = Inr c \<and> turned va D B (F + 1) it c"
proof -
  note d = blob_okD [OF b]
  let ?o = "old ! k"
  let ?f0 = "int_at ''fallen_over'' ?o" and ?la = "int_at ''last_angle'' ?o"
  have oc: "cok ?o" "''fallen_over'' \<in> keys ?o" "''last_angle'' \<in> keys ?o" "\<bar>?f0\<bar> \<le> F" "\<bar>?la\<bar> \<le> 1000000"
    using o va by (auto simp: tracked_blob_def blob_ok_def)
  let ?f = "count_falls max_diff (?la - angle) ?f0"
  have fb: "\<bar>?f\<bar> \<le> F + 1" using oc(4) by (auto simp: count_falls_def)
  have ranges: "int32 (?la - angle)" "int32 ?f" "int32 (90 * ?f)" "int32 (angle + 90 * ?f)" "int32 angle"
    using fb F oc(5) x(2) unfolding INT_MIN_def INT_MAX_def abs_le_iff by linarith+
  let ?c2 = "new_prop ''last_angle'' angle (new_prop ''fallen_over'' ?f it)"
  note n = new_props_changed [OF d(1) _ _ ranges(2,5), of "''fallen_over''" "''last_angle''", unfolded int_names_def, simplified]
  have an: "''angle'' \<in> keys ?c2" using changed_at(3) [OF n(1), of "''angle''"] d(9) va by simp
  have c2: "cok ?c2" using n(1) by (simp add: changed_def)
  let ?t = "rem_c (rem_c (angle + 90 * ?f) 360 + 360) 360"
  obtain c where c: "put_double ''angle'' (degToRad (of_int ?t)) ?c2 = Inr c" "changed {''angle''} ?c2 c"
    using put_text_ok(2) [OF c2 an, of "degToRad (of_int ?t)"] by (auto simp: int_names_def)
  have ch: "changed {''fallen_over'', ''last_angle'', ''angle''} it c"
    using changed_mono [OF changed_trans [OF n(1) c(2)]] by simp
  have at: "int_at ''last_angle'' c = angle" "int_at ''fallen_over'' c = ?f" "{''fallen_over'', ''last_angle''} \<subseteq> keys c"
    using changed_at [OF c(2), of "''last_angle''"] changed_at [OF c(2), of "''fallen_over''"] n(2-) by simp_all
  have "turned va D B (F + 1) it c" by (rule turnedI [OF b ch]) (use at fb x(2) in \<open>simp_all only:\<close>)
  moreover have "track_angle max_diff old it = Inr c"
    using k va d(8,11,13) x(1) get_ok(3) [OF d(1) d(9)] get_ok(1) [OF oc(1,2)] get_ok(1) [OF oc(1,3)] ranges c(1)
    by (auto simp: track_angle_def inList_flag chk32_def Let_def angle_of_def)
  ultimately show ?thesis by blast
qed

lemma track_angle_ok:
  assumes it: "copied_blob va D B it" and old: "\<And>c. c \<in> set old \<Longrightarrow> tracked_blob va D B' F c" and F: "0 \<le> F" "F < 20000000"
  shows "\<exists>c. track_angle max_diff old it = Inr c \<and> turned va D B (F + 1) it c"
proof -
  have b: "blob_ok va D B it" using it by (simp add: copied_blob_def)
  note d = blob_okD [OF b]
  have found: "get_int ''blob_id'' c = Inr (blob_id c)" if "c \<in> set old" for c
    using old [OF that] blob_okD(11) by (auto simp: tracked_blob_def)
  consider (plain) "\<not> va" | (first) angle where va "find_id (blob_id it) old = Inr None" "angle_of it = Inr angle" "\<bar>angle\<bar> \<le> 1000000"
    | (again) angle k where va "find_id (blob_id it) old = Inr (Some k)" "k < length old" "angle_of it = Inr angle" "\<bar>angle\<bar> \<le> 1000000"
    using find_id_ok [of old "blob_id it"] found it by (auto simp: copied_blob_def)
  then show ?thesis
  proof cases
    case plain
    then have "track_angle max_diff old it = Inr it" using d(8,13) by (simp add: track_angle_def inList_flag)
    then show ?thesis using b plain by (simp add: tracked_blob_def turned_def)
  next
    case first
    then show ?thesis using track_angle_first [OF b] F by simp
  next
    case again
    then show ?thesis using track_angle_again [OF b again(1,4,5,2) old F] by simp
  qed
qed

text \<open>Lost blobs are kept, found ones take over the age. Every blob of the result comes from
  the two lists.\<close>

definition kept :: "int \<Rightarrow> int \<Rightarrow> moDataGenericContainer \<Rightarrow> bool" where
  "kept max_age min_age c \<longleftrightarrow> int_at ''age'' c \<le> max_age \<and> min_age \<le> int_at ''age'' c"

lemma merge_old_ok:
  assumes "\<And>c. c \<in> set old \<Longrightarrow> tracked_blob va D B F c" "\<And>c. c \<in> set new \<Longrightarrow> tracked_blob va D B F c"
    "distinct (map blob_id new)" "\<bar>min_age\<bar> \<le> B" "B \<le> 2147483647"
  shows "\<exists>m. merge_old max_age min_age old new = Inr m \<and> (\<forall>c \<in> set m. tracked_blob va D B F c) \<and> distinct (map blob_id m) \<and>
    blob_id ` set m \<subseteq> blob_id ` set new \<union> blob_id ` set old \<and> length m \<le> length new + length old"
  using assms
proof (induction old arbitrary: new)
  case (Cons c old)
  have b: "blob_ok va D B c" using Cons.prems(1) by (auto simp: tracked_blob_def)
  note d = blob_okD [OF b]
  have get: "get_int ''blob_id'' c = Inr (blob_id c)" if "c \<in> set new" for c
    using Cons.prems(2) [OF that] blob_okD(11) by (auto simp: tracked_blob_def)
  from find_id_ok [of new "blob_id c"] get consider (lost) "find_id (blob_id c) new = Inr None" "blob_id c \<notin> blob_id ` set new"
    | (again) k where "k < length new" "find_id (blob_id c) new = Inr (Some k)" "blob_id (new ! k) = blob_id c" by blast
  then show ?case
  proof cases
    case lost
    let ?new = "if kept max_age min_age c then new @ [c] else new"
    have eq: "merge_old max_age min_age (c # old) new = merge_old max_age min_age old ?new"
      using lost d(11,12) by (simp add: kept_def)
    have t: "tracked_blob va D B F x" if "x \<in> set ?new" for x using that Cons.prems(1,2) by (auto split: if_splits)
    have di: "distinct (map blob_id ?new)" using Cons.prems(3) lost(2) by auto
    have sub: "blob_id ` set ?new \<subseteq> insert (blob_id c) (blob_id ` set new)" "length ?new \<le> Suc (length new)" by auto
    have o: "\<And>x. x \<in> set old \<Longrightarrow> tracked_blob va D B F x" using Cons.prems(1) by simp
    obtain m where m: "merge_old max_age min_age old ?new = Inr m" "\<forall>c \<in> set m. tracked_blob va D B F c" "distinct (map blob_id m)"
      "blob_id ` set m \<subseteq> blob_id ` set ?new \<union> blob_id ` set old" "length m \<le> length ?new + length old"
      using Cons.IH [OF o t di Cons.prems(4,5)] by blast
    have "blob_id ` set m \<subseteq> blob_id ` set new \<union> blob_id ` set (c # old)" using m(4) sub(1) by auto
    moreover have "length m \<le> length new + length (c # old)" using m(5) sub(2) by simp
    ultimately show ?thesis using m(1-3) unfolding eq by blast
  next
    case again
    let ?a = "if min_age \<le> int_at ''age'' c \<and> int_at ''age'' c \<le> max_age then min_age else int_at ''age'' c"
    have nk: "tracked_blob va D B F (new ! k)" using Cons.prems(2) again(1) by simp
    then have e: "cok (new ! k)" "''age'' \<in> keys (new ! k)" by (auto simp: tracked_blob_def blob_ok_def)
    have a: "\<bar>?a\<bar> \<le> B" using d(10) Cons.prems(4) by auto
    then have "int32 ?a" using Cons.prems(5) unfolding INT_MIN_def INT_MAX_def abs_le_iff by linarith
    then obtain b where b: "put_int ''age'' ?a (new ! k) = Inr b" "changed {''age''} (new ! k) b" "int_at ''age'' b = ?a"
      using put_int_ok [OF e] by blast
    have tb: "tracked_blob va D B F b" by (rule tracked_changed [OF nk b(2)]) (use b(3) a in auto)
    have ids: "map blob_id (new[k := b]) = map blob_id new"
      using changed_at(1) [OF b(2), of "''blob_id''"] again(1) by (simp add: map_update list_update_same_conv)
    have eq: "merge_old max_age min_age (c # old) new = merge_old max_age min_age old (new[k := b])"
      using again d(11,12) b(1) by simp
    have t: "tracked_blob va D B F x" if "x \<in> set (new[k := b])" for x
      using that Cons.prems(2) tb set_update_subset_insert [of new k b] by blast
    have di: "distinct (map blob_id (new[k := b]))" unfolding ids by (rule Cons.prems(3))
    have sub: "blob_id ` set (new[k := b]) = blob_id ` set new" "length (new[k := b]) = length new"
      using ids by (metis list.set_map) simp
    show ?thesis using Cons.IH [OF _ t di Cons.prems(4,5)] Cons.prems(1) unfolding eq sub by fastforce
  qed
qed simp

lemma merge_old_lost:
  assumes "\<And>c. c \<in> set old \<union> set new \<Longrightarrow> blob_ok va D B c" "distinct (map blob_id (new @ old))"
  shows "merge_old max_age min_age old new = Inr (new @ filter (kept max_age min_age) old)"
  using assms
proof (induction old arbitrary: new)
  case (Cons c old)
  note d = blob_okD [OF Cons.prems(1) [of c]]
  have g: "get_int ''blob_id'' x = Inr (blob_id x)" if "x \<in> set new" for x using blob_okD(11) [OF Cons.prems(1) [of x]] that by simp
  have "blob_id c \<notin> blob_id ` set new" using Cons.prems(2) by auto
  then have none: "find_id (blob_id c) new = Inr None"
    using find_id_ok [OF g, of new "blob_id c"] by (metis image_eqI nth_mem)
  let ?new = "if kept max_age min_age c then new @ [c] else new"
  have step: "merge_old max_age min_age (c # old) new = merge_old max_age min_age old ?new" using none d(11,12) by (simp add: kept_def)
  have "merge_old max_age min_age old ?new = Inr (?new @ filter (kept max_age min_age) old)"
    by (rule Cons.IH) (use Cons.prems in \<open>auto split: if_splits\<close>)
  then show ?case unfolding step by simp
qed simp

text \<open>The ids and the ages of the blobs a tracker remembers.\<close>

definition id_ages :: "tracker \<Rightarrow> (int \<times> int) set" where
  "id_ages t = (\<lambda>c. (blob_id c, int_at ''age'' c)) ` set (old_blobs t)"

lemma find_adolescent_ok:
  assumes "\<And>c. c \<in> set cs \<Longrightarrow> blob_ok va D B c"
  shows "find_adolescent max_age min_age cs = Inr (filter (kept max_age min_age) cs)"
  using assms
proof (induction cs)
  case (Cons c cs)
  then show ?case using blob_okD(12) [of va D B c] by (auto simp: kept_def)
qed simp

section \<open>The update\<close>

definition tracker_inv :: "bool \<Rightarrow> double \<Rightarrow> int \<Rightarrow> int \<Rightarrow> int \<Rightarrow> tracker \<Rightarrow> bool" where
  "tracker_inv va D B F n t \<longleftrightarrow> (\<forall>c \<in> set (old_blobs t). tracked_blob va D B F c) \<and> distinct (map blob_id (old_blobs t)) \<and>
     (\<forall>c \<in> set (old_blobs t). blob_id c \<le> n)"

lemma tracked_mono: "tracked_blob va D B F c \<Longrightarrow> B \<le> B' \<Longrightarrow> F \<le> F' \<Longrightarrow> tracked_blob va D B' F' c"
  by (auto simp: tracked_blob_def blob_ok_def)

lemma list_all2_map_eq: "list_all2 R xs ys \<Longrightarrow> (\<And>x y. R x y \<Longrightarrow> f y = g x) \<Longrightarrow> map f ys = map g xs"
  by (induction rule: list_all2_induct) auto

lemma list_all2_right: "list_all2 R xs ys \<Longrightarrow> (\<And>x y. x \<in> set xs \<Longrightarrow> R x y \<Longrightarrow> P y) \<Longrightarrow> \<forall>y \<in> set ys. P y"
  by (induction rule: list_all2_induct) auto

lemma relabelled_copied:
  assumes "copied_blob va D B c" "relabelled max_age c c'" "\<bar>max_age + 1\<bar> \<le> B"
  shows "copied_blob va D B c'"
proof -
  have ch: "changed {''blob_id'', ''fiducial_id'', ''age''} c c'" using assms(2) by (simp add: relabelled_def)
  have "\<bar>int_at ''age'' c\<bar> \<le> B" using assms(1) blob_okD(10) by (auto simp: copied_blob_def)
  then have "\<bar>int_at ''age'' c'\<bar> \<le> B" using assms(2,3) by (auto simp: relabelled_def)
  then show ?thesis using copied_changed [OF assms(1) ch] by simp
qed

lemma trackAngles_ok:
  assumes "settings_ok props max_age min_age" "\<And>c. c \<in> set (new_blobs t) \<Longrightarrow> copied_blob va D B c"
    "\<And>c. c \<in> set (old_blobs t) \<Longrightarrow> tracked_blob va D B' F c" "0 \<le> F" "F < 20000000"
  shows "\<exists>bs. trackAngles props t = Inr (t\<lparr>new_blobs := bs\<rparr>) \<and> list_all2 (turned va D B (F + 1)) (new_blobs t) bs"
proof -
  obtain d m where d: "asDouble (module_prop ''max_rotation_speed'' props) = Inr d" "int_of_double d = Inr m"
    using assms(1) by (auto simp: settings_ok_def okR_iff bindR_eq_Inr)
  obtain bs where "mapM (track_angle m (old_blobs t)) (new_blobs t) = Inr bs" "list_all2 (turned va D B (F + 1)) (new_blobs t) bs"
    using mapM_ok [of "new_blobs t" "track_angle m (old_blobs t)" "turned va D B (F + 1)"] track_angle_ok assms by meson
  then show ?thesis using d by (auto simp: trackAngles_def)
qed

text \<open>What \<open>moAbstractBlobTrackerModule\<close> expects of \<open>trackBlobs\<close>: at most \<open>room\<close> blobs on either side with
  coordinates of at most \<open>D\<close> get ids of the last frame or new ones, all different.\<close>

locale blob_tracker =
  fixes track :: "(string, moProperty) smap \<Rightarrow> int \<Rightarrow> tracker \<Rightarrow> (int \<times> tracker) result"
    and room :: nat
    and D :: double
  assumes track_law: "settings_ok props max_age min_age \<Longrightarrow>
      (\<And>c. c \<in> set (new_blobs t) \<Longrightarrow> copied_blob va D B c) \<Longrightarrow> (\<And>c. c \<in> set (old_blobs t) \<Longrightarrow> blob_ok va D B' c) \<Longrightarrow>
      distinct (map blob_id (old_blobs t)) \<Longrightarrow> \<forall>c \<in> set (old_blobs t). blob_id c \<le> n \<Longrightarrow>
      0 \<le> n \<Longrightarrow> n + int (length (new_blobs t)) \<le> 2147483647 \<Longrightarrow>
      length (new_blobs t) \<le> room \<Longrightarrow> length (old_blobs t) \<le> room \<Longrightarrow>
      \<exists>n' t'. track props n t = Inr (n', t') \<and> old_blobs t' = old_blobs t \<and>
        list_all2 (relabelled max_age) (new_blobs t) (new_blobs t') \<and> fresh_ids n n' (old_blobs t) (new_blobs t')"

begin

lemma update_ok:
  assumes set: "settings_ok props max_age min_age" and inv: "tracker_inv va D B F n t" and blobs: "\<And>b. b \<in> set blobs \<Longrightarrow> found_blob va D b"
    and B: "\<bar>max_age\<bar> < B" "\<bar>min_age\<bar> < B" "B < 2147483647" and F: "0 \<le> F" "F < 20000000"
    and n: "0 \<le> n" "n + int (length blobs) \<le> 2147483647" and room: "length blobs \<le> room" "length (old_blobs t) \<le> room"
  shows "\<exists>n' t'. tracker_update track props blobs n t = Inr (n', t', filter (kept max_age min_age) (old_blobs t')) \<and>
    tracker_inv va D (B + 1) (F + 1) n' t' \<and> n \<le> n' \<and> n' \<le> n + int (length blobs) \<and>
    length (old_blobs t') \<le> length blobs + length (old_blobs t)"
proof -
  have told: "\<And>c. c \<in> set (old_blobs t) \<Longrightarrow> tracked_blob va D B F c" using inv by (simp add: tracker_inv_def)
  obtain old where old: "mapM grow_older (old_blobs t) = Inr old"
    "list_all2 (\<lambda>c c'. tracked_blob va D (B + 1) F c' \<and> blob_id c' = blob_id c) (old_blobs t) old"
    using mapM_ok [of "old_blobs t" grow_older "\<lambda>c c'. tracked_blob va D (B + 1) F c' \<and> blob_id c' = blob_id c"] grow_older_ok [OF told B(3)] by blast
  obtain new where new: "mapM copy_blob blobs = Inr new" "list_all2 (\<lambda>b c. copied_blob va D (B + 1) c) blobs new"
    using mapM_ok [of blobs copy_blob "\<lambda>b c. copied_blob va D (B + 1) c"] copy_blob_ok [OF blobs, of _ "B + 1"] B by auto
  let ?t = "t\<lparr>new_blobs := new, old_blobs := old, adolescent := []\<rparr>"
  have told1: "\<And>c. c \<in> set old \<Longrightarrow> tracked_blob va D (B + 1) F c" using list_all2_right [OF old(2)] by blast
  have ids: "map blob_id old = map blob_id (old_blobs t)" by (rule list_all2_map_eq [OF old(2)]) simp
  have idset: "blob_id ` set old = blob_id ` set (old_blobs t)" using ids by (metis list.set_map)
  have "\<forall>i \<in> blob_id ` set old. i \<le> n" unfolding idset using inv by (simp add: tracker_inv_def)
  then have bold: "\<forall>c \<in> set old. blob_id c \<le> n" by simp
  have tnew: "\<And>c. c \<in> set new \<Longrightarrow> copied_blob va D (B + 1) c" using list_all2_right [OF new(2)] by blast
  have len: "length new = length blobs" "length old = length (old_blobs t)" using new(2) old(2) by (auto dest: list_all2_lengthD)
  have "\<exists>n' t1. track props n ?t = Inr (n', t1) \<and> old_blobs t1 = old_blobs ?t \<and>
      list_all2 (relabelled max_age) (new_blobs ?t) (new_blobs t1) \<and> fresh_ids n n' (old_blobs ?t) (new_blobs t1)"
    by (rule track_law [OF set, where t = ?t and va = va and B = "B + 1" and B' = "B + 1"])
      (use tnew told1 ids inv bold n room len in \<open>auto simp: tracked_blob_def tracker_inv_def\<close>)
  then obtain n' t1 where t1: "track props n ?t = Inr (n', t1)" "old_blobs t1 = old"
    "list_all2 (relabelled max_age) new (new_blobs t1)" "fresh_ids n n' old (new_blobs t1)" by auto
  have "\<forall>c \<in> set (new_blobs t1). copied_blob va D (B + 1) c"
    by (rule list_all2_right [OF t1(3)], rule relabelled_copied [OF tnew]) (use B in auto)
  then have tnew1: "\<And>c. c \<in> set (new_blobs t1) \<Longrightarrow> copied_blob va D (B + 1) c" by blast
  have told2: "\<And>c. c \<in> set (old_blobs t1) \<Longrightarrow> tracked_blob va D (B + 1) F c" using told1 t1(2) by simp
  obtain bs where bs: "trackAngles props t1 = Inr (t1\<lparr>new_blobs := bs\<rparr>)" "list_all2 (turned va D (B + 1) (F + 1)) (new_blobs t1) bs"
    using trackAngles_ok [OF set tnew1 told2 F] by blast
  have bids: "map blob_id bs = map blob_id (new_blobs t1)" by (rule list_all2_map_eq [OF bs(2)]) (simp add: turned_def)
  have tbs: "\<And>c. c \<in> set bs \<Longrightarrow> tracked_blob va D (B + 1) (F + 1) c" using list_all2_right [OF bs(2)] by (auto simp: turned_def)
  have di: "distinct (map blob_id bs)" using t1(4) bids by (simp add: fresh_ids_def)
  have mold: "\<And>c. c \<in> set old \<Longrightarrow> tracked_blob va D (B + 1) (F + 1) c" using tracked_mono [OF told1] by simp
  obtain m where m: "merge_old max_age min_age old bs = Inr m" "\<forall>c \<in> set m. tracked_blob va D (B + 1) (F + 1) c" "distinct (map blob_id m)"
    "blob_id ` set m \<subseteq> blob_id ` set bs \<union> blob_id ` set old" "length m \<le> length bs + length old"
    using merge_old_ok [OF mold tbs di, where old = old and min_age = min_age and max_age = max_age] B by auto
  have ado: "find_adolescent max_age min_age m = Inr (filter (kept max_age min_age) m)"
    by (rule find_adolescent_ok [of _ va D "B + 1"]) (use m(2) in \<open>auto simp: tracked_blob_def\<close>)
  have nn: "n \<le> n'" "n' \<le> n + int (length blobs)" using t1(4) list_all2_lengthD [OF t1(3)] len by (simp_all add: fresh_ids_def)
  have top: "\<forall>c \<in> set (new_blobs t1). blob_id c \<le> n'" using t1(4) bold nn(1) by (fastforce simp: fresh_ids_def)
  have "\<forall>i \<in> set (map blob_id bs). i \<le> n'" unfolding bids using top by simp
  then have "\<forall>c \<in> set bs. blob_id c \<le> n'" by simp
  then have "\<forall>c \<in> set m. blob_id c \<le> n'" using m(4) bold nn(1) by fastforce
  moreover have "length bs = length blobs" using list_all2_lengthD [OF bs(2)] list_all2_lengthD [OF t1(3)] len by simp
  moreover have "tracker_update track props blobs n t = Inr (n', t1\<lparr>new_blobs := old, old_blobs := m, adolescent := filter (kept max_age min_age) m\<rparr>,
      filter (kept max_age min_age) m)"
    using set old(1) new(1) t1(1,2) bs(1) m(1) ado by (simp add: tracker_update_def settings_ok_def)
  ultimately show ?thesis using m(2,3,5) nn len by (auto simp: tracker_inv_def)
qed

text \<open>A frame without blobs: the old blobs get older, and some are dropped.\<close>

lemma update_empty:
  assumes set: "settings_ok props max_age min_age" and inv: "tracker_inv va D B F n t" and B: "B < 2147483647" "0 \<le> F" "F < 20000000"
    and n: "0 \<le> n" "n \<le> 2147483647" and room: "length (old_blobs t) \<le> room"
  shows "\<exists>t'. tracker_update track props [] n t = Inr (n, t', old_blobs t') \<and> tracker_inv va D (B + 1) F n t' \<and>
    length (old_blobs t') \<le> length (old_blobs t) \<and>
    id_ages t' = {(i, a + 1) |i a. (i, a) \<in> id_ages t \<and> min_age \<le> a + 1 \<and> a + 1 \<le> max_age}"
proof -
  have told: "\<And>c. c \<in> set (old_blobs t) \<Longrightarrow> tracked_blob va D B F c" using inv by (simp add: tracker_inv_def)
  let ?R = "\<lambda>c c'. tracked_blob va D (B + 1) F c' \<and> blob_id c' = blob_id c \<and> int_at ''age'' c' = int_at ''age'' c + 1"
  obtain old where old: "mapM grow_older (old_blobs t) = Inr old" "list_all2 ?R (old_blobs t) old"
    using mapM_ok [of "old_blobs t" grow_older ?R] grow_older_ok [OF told B(1)] by blast
  have told1: "\<And>c. c \<in> set old \<Longrightarrow> tracked_blob va D (B + 1) F c" using list_all2_right [OF old(2)] by blast
  have ids: "map blob_id old = map blob_id (old_blobs t)" by (rule list_all2_map_eq [OF old(2)]) simp
  have pairs: "map (\<lambda>c. (blob_id c, int_at ''age'' c)) old = map (\<lambda>c. (blob_id c, int_at ''age'' c + 1)) (old_blobs t)"
    by (rule list_all2_map_eq [OF old(2)]) simp
  have le: "\<forall>c \<in> set old. blob_id c \<le> n"
  proof -
    have "\<forall>i \<in> set (map blob_id old). i \<le> n" unfolding ids using inv by (simp add: tracker_inv_def)
    then show ?thesis by simp
  qed
  have di: "distinct (map blob_id old)" unfolding ids using inv by (simp add: tracker_inv_def)
  let ?t = "t\<lparr>new_blobs := [], old_blobs := old, adolescent := []\<rparr>"
  have "\<exists>n' t1. track props n ?t = Inr (n', t1) \<and> old_blobs t1 = old_blobs ?t \<and>
      list_all2 (relabelled max_age) (new_blobs ?t) (new_blobs t1) \<and> fresh_ids n n' (old_blobs ?t) (new_blobs t1)"
    by (rule track_law [OF set, where t = ?t and va = va and B = "B + 1" and B' = "B + 1"])
      (use told1 di le n room list_all2_lengthD [OF old(2)] in \<open>auto simp: tracked_blob_def\<close>)
  then obtain t1 where t1: "track props n ?t = Inr (n, t1)" "old_blobs t1 = old" "new_blobs t1 = []"
    by (auto simp: fresh_ids_def)
  have "trackAngles props t1 = Inr t1"
    using set t1(3) by (auto simp: trackAngles_def settings_ok_def okR_iff bindR_eq_Inr)
  moreover have m: "merge_old max_age min_age old [] = Inr (filter (kept max_age min_age) old)"
    using merge_old_lost [of old "[]" va D "B + 1"] told1 di by (auto simp: tracked_blob_def)
  moreover have "find_adolescent max_age min_age (filter (kept max_age min_age) old) = Inr (filter (kept max_age min_age) old)"
    using find_adolescent_ok [of "filter (kept max_age min_age) old" va D "B + 1"] told1 by (auto simp: tracked_blob_def)
  ultimately have upd: "tracker_update track props [] n t = Inr (n, t1\<lparr>new_blobs := old, old_blobs := filter (kept max_age min_age) old,
      adolescent := filter (kept max_age min_age) old\<rparr>, filter (kept max_age min_age) old)"
    using set old(1) t1 by (simp add: tracker_update_def settings_ok_def)
  have "(\<lambda>c. (blob_id c, int_at ''age'' c)) ` set (filter (kept max_age min_age) old) =
      {(i, a) |i a. (i, a) \<in> set (map (\<lambda>c. (blob_id c, int_at ''age'' c)) old) \<and> min_age \<le> a \<and> a \<le> max_age}"
    by (auto simp: kept_def)
  then have "(\<lambda>c. (blob_id c, int_at ''age'' c)) ` set (filter (kept max_age min_age) old) =
      {(i, a + 1) |i a. (i, a) \<in> id_ages t \<and> min_age \<le> a + 1 \<and> a + 1 \<le> max_age}"
    unfolding pairs id_ages_def by auto
  moreover have "length (filter (kept max_age min_age) old) \<le> length (old_blobs t)"
    using length_filter_le [of _ old] list_all2_lengthD [OF old(2)] by simp
  ultimately show ?thesis using upd told1 di le by (auto simp: tracker_inv_def id_ages_def distinct_map_filter)
qed

lemma empty_frames:
  assumes "settings_ok props max_age min_age" "tracker_inv va D B F n t" "B + int k < 2147483647" "0 \<le> F" "F < 20000000"
    "0 \<le> n" "n \<le> 2147483647" "length (old_blobs t) \<le> room"
  shows "\<exists>out. track_frames track props (replicate (Suc k) []) n t = Inr out \<and> length out = Suc k \<and>
    blob_id ` set (last out) = {i. \<exists>a. (i, a) \<in> id_ages t \<and> min_age \<le> a + 1 \<and> a + int (Suc k) \<le> max_age}"
  using assms(2-)
proof (induction k arbitrary: B t)
  case 0
  then obtain t' where "tracker_update track props [] n t = Inr (n, t', old_blobs t')"
    "id_ages t' = {(i, a + 1) |i a. (i, a) \<in> id_ages t \<and> min_age \<le> a + 1 \<and> a + 1 \<le> max_age}"
    using update_empty [OF assms(1) 0(1)] by auto
  moreover have "blob_id ` set (old_blobs t') = fst ` id_ages t'" by (simp add: id_ages_def image_image)
  moreover have "fst ` {(i, a + 1) |i a. (i, a) \<in> id_ages t \<and> min_age \<le> a + 1 \<and> a + 1 \<le> max_age} =
      {i. \<exists>a. (i, a) \<in> id_ages t \<and> min_age \<le> a + 1 \<and> a + int (Suc 0) \<le> max_age}" by force
  ultimately show ?case by simp
next
  case (Suc k)
  obtain t' where t': "tracker_update track props [] n t = Inr (n, t', old_blobs t')" "tracker_inv va D (B + 1) F n t'"
    "length (old_blobs t') \<le> length (old_blobs t)"
    "id_ages t' = {(i, a + 1) |i a. (i, a) \<in> id_ages t \<and> min_age \<le> a + 1 \<and> a + 1 \<le> max_age}"
    using update_empty [OF assms(1) Suc.prems(1) _ Suc.prems(3-7)] Suc.prems(2) by auto
  obtain out where out: "track_frames track props (replicate (Suc k) []) n t' = Inr out" "length out = Suc k"
    "blob_id ` set (last out) = {i. \<exists>a. (i, a) \<in> id_ages t' \<and> min_age \<le> a + 1 \<and> a + int (Suc k) \<le> max_age}"
    using Suc.IH [OF t'(2)] Suc.prems t'(3) by auto
  have "track_frames track props (replicate (Suc (Suc k)) []) n t = Inr (old_blobs t' # out)"
    using t'(1) out(1) by simp
  moreover have "last (old_blobs t' # out) = last out" using out(2) by auto
  moreover have "{i. \<exists>a. (i, a) \<in> id_ages t' \<and> min_age \<le> a + 1 \<and> a + int (Suc k) \<le> max_age} =
      {i. \<exists>a. (i, a) \<in> id_ages t \<and> min_age \<le> a + 1 \<and> a + int (Suc (Suc k)) \<le> max_age}" (is "?L = ?R")
  proof
    show "?L \<subseteq> ?R" unfolding t'(4) by force
    show "?R \<subseteq> ?L"
    proof
      fix i assume "i \<in> ?R"
      then obtain a where "(i, a) \<in> id_ages t" "min_age \<le> a + 1" "a + int (Suc (Suc k)) \<le> max_age" by blast
      then show "i \<in> ?L" unfolding t'(4) by (intro CollectI exI [of _ "a + 1"]) auto
    qed
  qed
  ultimately show ?case using out(2,3) by simp
qed

text \<open>Any number of frames, as long as the counter of ids and the counters of the blobs do not overflow.\<close>

lemma frames_ok:
  assumes "settings_ok props max_age min_age" "tracker_inv va D B F n t" "\<And>f b. f \<in> set frames \<Longrightarrow> b \<in> set f \<Longrightarrow> found_blob va D b"
    "\<bar>max_age\<bar> < B" "\<bar>min_age\<bar> < B" "B + int (length frames) < 2147483647" "0 \<le> F" "F + int (length frames) < 20000000"
    "0 \<le> n" "n + int (sum_list (map length frames)) \<le> 2147483647" "sum_list (map length frames) + length (old_blobs t) \<le> room"
  shows "\<exists>out. track_frames track props frames n t = Inr out \<and> length out = length frames \<and>
    (\<forall>pub \<in> set out. distinct (map blob_id pub) \<and> (\<forall>c \<in> set pub. kept max_age min_age c \<and> flag ''tracked'' (str_at ''implements'' c)))"
  using assms(2-)
proof (induction frames arbitrary: B F n t)
  case (Cons f frames)
  have sums: "length f \<le> room" "length (old_blobs t) \<le> room" "n + int (length f) \<le> 2147483647" using Cons.prems by auto
  obtain n' t' where u: "tracker_update track props f n t = Inr (n', t', filter (kept max_age min_age) (old_blobs t'))"
    "tracker_inv va D (B + 1) (F + 1) n' t'" "n \<le> n'" "n' \<le> n + int (length f)" "length (old_blobs t') \<le> length f + length (old_blobs t)"
    using update_ok [OF assms(1) Cons.prems(1) _ Cons.prems(3,4) _ Cons.prems(6) _ Cons.prems(8) sums(3,1,2)] Cons.prems(2,5,7) by auto
  have "\<exists>out. track_frames track props frames n' t' = Inr out \<and> length out = length frames \<and>
    (\<forall>pub \<in> set out. distinct (map blob_id pub) \<and> (\<forall>c \<in> set pub. kept max_age min_age c \<and> flag ''tracked'' (str_at ''implements'' c)))"
    by (rule Cons.IH [OF u(2)]) (use Cons.prems u in auto)
  moreover have "distinct (map blob_id (filter (kept max_age min_age) (old_blobs t')))"
    using u(2) by (simp add: tracker_inv_def distinct_map_filter)
  moreover have "\<forall>c \<in> set (old_blobs t'). flag ''tracked'' (str_at ''implements'' c)"
    using u(2) by (simp add: tracker_inv_def tracked_blob_def blob_ok_def)
  ultimately show ?case using u(1) by auto
qed simp

end

interpretation greedy: blob_tracker greedy_trackBlobs room D for room D
proof
  fix props max_age min_age va B B' n and t :: tracker
  assume set: "settings_ok props max_age min_age" and new: "\<And>c. c \<in> set (new_blobs t) \<Longrightarrow> copied_blob va D B c"
    and old: "\<And>c. c \<in> set (old_blobs t) \<Longrightarrow> blob_ok va D B' c" and rest: "\<forall>c \<in> set (old_blobs t). blob_id c \<le> n" "0 \<le> n"
      "n + int (length (new_blobs t)) \<le> 2147483647"
  obtain md where md: "(if new_blobs t = [] then Inr 0 else get_double ''max_distance'' props) = Inr md"
    using set by (cases "new_blobs t = []") (auto simp: settings_ok_def okR_iff)
  obtain new1 ru n' where g: "greedy_loop md (old_blobs t) (new_blobs t) ([], n) = Inr (new1, ru, n')"
    "list_all2 (\<lambda>c c'. changed {''blob_id'', ''fiducial_id''} c c') (new_blobs t) new1" "n \<le> n'" "n' \<le> n + int (length (new_blobs t))"
    "distinct (map blob_id new1)" "\<forall>c \<in> set new1. blob_id c \<in> blob_id ` set (old_blobs t) - set [] \<or> n < blob_id c \<and> blob_id c \<le> n'"
    using greedy_loop_ok [OF new old rest(2,3,1), where ru = "[]" and md = md] by auto
  have b1: "\<And>c. c \<in> set new1 \<Longrightarrow> blob_ok va D B c"
  proof -
    have "\<forall>c \<in> set new1. blob_ok va D B c"
    proof (rule list_all2_right [OF g(2)])
      fix c c' assume c: "c \<in> set (new_blobs t)" "changed {''blob_id'', ''fiducial_id''} c c'"
      then have "blob_ok va D B c" using new by (simp add: copied_blob_def)
      then show "blob_ok va D B c'"
        using blob_ok_changed [OF _ c(2), of va D B B] changed_at(1) [OF c(2), of "''age''"] blob_okD(10) by simp
    qed
    then show "\<And>c. c \<in> set new1 \<Longrightarrow> blob_ok va D B c" by blast
  qed
  have m: "int32 (max_age + 1)" using set by (auto simp: settings_ok_def INT_MIN_def INT_MAX_def)
  let ?R = "\<lambda>c c'. changed {''age''} c c' \<and> (int_at ''age'' c' = int_at ''age'' c \<or> int_at ''age'' c' = max_age + 1)"
  obtain new2 where e: "mapM (greedy_expire max_age) new1 = Inr new2" "list_all2 ?R new1 new2"
    using mapM_ok [of new1 "greedy_expire max_age" ?R] greedy_expire_ok [OF b1 m] by blast
  have "list_all2 (relabelled max_age) (new_blobs t) new2"
  proof (rule list_all2_trans [OF _ g(2) e(2)])
    fix a b c assume ab: "changed {''blob_id'', ''fiducial_id''} a b" and bc: "?R b c"
    have "changed {''blob_id'', ''fiducial_id'', ''age''} a c"
      using changed_mono [OF changed_trans [OF ab conjunct1 [OF bc]]] by simp
    then show "relabelled max_age a c" using bc changed_at(1) [OF ab, of "''age''"] by (auto simp: relabelled_def)
  qed
  moreover have ids: "map blob_id new2 = map blob_id new1"
    by (rule list_all2_map_eq [OF e(2)]) (use changed_at(1) [of "{''age''}" _ _ "''blob_id''"] in auto)
  moreover have "\<forall>c \<in> set new2. blob_id c \<in> blob_id ` set (old_blobs t) \<or> n < blob_id c \<and> blob_id c \<le> n'"
  proof -
    have "\<forall>i \<in> set (map blob_id new2). i \<in> blob_id ` set (old_blobs t) \<or> n < i \<and> i \<le> n'" unfolding ids using g(6) by auto
    then show ?thesis by simp
  qed
  moreover have "length new2 = length (new_blobs t)" using list_all2_lengthD [OF g(2)] list_all2_lengthD [OF e(2)] by simp
  moreover have "greedy_trackBlobs props n t = Inr (n', t\<lparr>new_blobs := new2, reused := ru\<rparr>)"
    using set md g(1) e(1) by (simp add: greedy_trackBlobs_def settings_ok_def)
  ultimately show "\<exists>n' t'. greedy_trackBlobs props n t = Inr (n', t') \<and> old_blobs t' = old_blobs t \<and>
      list_all2 (relabelled max_age) (new_blobs t) (new_blobs t') \<and> fresh_ids n n' (old_blobs t) (new_blobs t')"
    using g(3,4,5) by (auto simp: fresh_ids_def)
qed

section \<open>Properties\<close>

text \<open>
  C4. The greedy tracker, frame after frame, on any blobs a finder may send: every update returns
  (no null property is followed, no conversion fails, no counter overflows), and what is published in
  a frame are tracked blobs with pairwise different ids whose ages lie between \<open>min_age\<close> and
  \<open>max_age\<close>. The blobs either all have volatile angles or none has, their coordinates are bounded by
  some \<open>D\<close> (any), and the run is shorter than the counters are wide.
\<close>

theorem tracker_session:
  assumes "settings_ok props max_age min_age" "\<forall>f \<in> set frames. \<forall>b \<in> set f. found_blob va D b"
    "length frames < 19000000" "sum_list (map length frames) < 2147483647"
  shows "\<exists>out. track_frames greedy_trackBlobs props frames 0 new_tracker = Inr out \<and> length out = length frames \<and>
    (\<forall>pub \<in> set out. distinct (map blob_id pub) \<and>
      (\<forall>c \<in> set pub. min_age \<le> int_at ''age'' c \<and> int_at ''age'' c \<le> max_age \<and> flag ''tracked'' (str_at ''implements'' c)))"
proof -
  have inv: "tracker_inv va D 1000000001 0 0 new_tracker" by (simp add: tracker_inv_def new_tracker_def)
  have "\<bar>max_age\<bar> < 1000000001" "\<bar>min_age\<bar> < 1000000001" using assms(1) by (auto simp: settings_ok_def)
  then have "\<exists>out. track_frames greedy_trackBlobs props frames 0 new_tracker = Inr out \<and> length out = length frames \<and>
    (\<forall>pub \<in> set out. distinct (map blob_id pub) \<and> (\<forall>c \<in> set pub. kept max_age min_age c \<and> flag ''tracked'' (str_at ''implements'' c)))"
    by (intro greedy.frames_ok [OF assms(1) inv, where room = "sum_list (map length frames)"])
      (use assms in \<open>auto simp: new_tracker_def\<close>)
  then show ?thesis by (auto simp: kept_def)
qed

text \<open>A finder's blob and the settings of the constructor, for the witnesses.\<close>

definition sample_blob :: "double \<Rightarrow> double \<Rightarrow> moDataGenericContainer" where
  "sample_blob x y = [(''implements'', new_cstr ''pos'' ''''), (''x'', new_double x ''''), (''y'', new_double y '''')]"

definition sample_settings :: "(string, moProperty) smap" where
  "sample_settings = [(''max_age'', new_int 10 ''''), (''max_distance'', new_double (1 / 10) ''''),
     (''max_rotation_speed'', new_int 46 ''''), (''min_age'', new_int 3 '''')]"

lemma found_blob_mono: "found_blob va D b \<Longrightarrow> D \<le> E \<Longrightarrow> found_blob va E b"
  by (auto simp: found_blob_def near_def split: sum.splits)

lemma sample_found: "\<exists>D. found_blob False D (sample_blob x y)"
proof -
  have wf: "smap_wf (sample_blob x y)" "\<And>n p. map_of (sample_blob x y) n = Some p \<Longrightarrow> prop_wf p"
    by (auto simp: sample_blob_def smap_wf_def new_simps prop_init_def prop_wf_def split: if_splits)
  obtain c where c: "clone (sample_blob x y) = Inr c" "keys c = keys (sample_blob x y)" using clone_ok [OF wf(1)] wf(2) by blast
  have "''width'' \<notin> keys c" "''height'' \<notin> keys c" unfolding c(2) by (simp_all add: sample_blob_def)
  then have "map_of c ''width'' = None" "map_of c ''height'' = None" by blast+
  then have "dbl_at ''width'' c = 0" "dbl_at ''height'' c = 0" by (simp_all add: dbl_at_def get_double_def cprop_def)
  then have "found_blob False (Max ((\<lambda>n. \<bar>dbl_at n c\<bar>) ` {''x'', ''y''})) (sample_blob x y)"
    using c(1) by (auto simp: le_max_iff_disj near_def found_blob_def sample_blob_def smap_wf_def promises_def str_at_def sval_def asString_def new_simps prop_init_def
        prop_wf_def flag_def c_str_def)
  then show ?thesis by blast
qed

lemma sample_settings_ok: "settings_ok sample_settings 10 3"
  by (simp add: settings_ok_def sample_settings_def module_prop_def get_double_def cprop_def asInteger_def asDouble_def
      new_simps prop_init_def dbl_int32 [of 46, simplified] int_of_double_of_int [of 46, simplified] INT_MIN_def INT_MAX_def)

lemma tracker_session_witness:
  "\<exists>out. track_frames greedy_trackBlobs sample_settings [[sample_blob (1 / 2) (1 / 2), sample_blob 0 0], []] 0 new_tracker = Inr out \<and> length out = 2 \<and>
    (\<forall>pub \<in> set out. distinct (map blob_id pub) \<and>
      (\<forall>c \<in> set pub. 3 \<le> int_at ''age'' c \<and> int_at ''age'' c \<le> 10 \<and> flag ''tracked'' (str_at ''implements'' c)))"
proof -
  obtain D1 D2 where d: "found_blob False D1 (sample_blob (1 / 2) (1 / 2))" "found_blob False D2 (sample_blob 0 0)"
    using sample_found by meson
  have "\<forall>f \<in> set [[sample_blob (1 / 2) (1 / 2), sample_blob 0 0], []]. \<forall>b \<in> set f. found_blob False (max D1 D2) b"
    using found_blob_mono [OF d(1), of "max D1 D2"] found_blob_mono [OF d(2), of "max D1 D2"] by simp
  then show ?thesis using tracker_session [OF sample_settings_ok, of "[[sample_blob (1 / 2) (1 / 2), sample_blob 0 0], []]" False "max D1 D2"]
    by (simp add: numeral_2_eq_2 del: track_frames.simps)
qed

text \<open>
  C19. The choice of the greedy tracker, for one new blob: it takes over the id of the nearest of the
  old blobs that are nearer than \<open>max_distance\<close>, whose id has not been given away in this frame and
  that may be the same object; where there is none it gets the next number.
\<close>

theorem greedy_nearest:
  assumes "copied_blob va D B it" "\<forall>c \<in> set old. blob_ok va D B' c" "0 \<le> n" "n < 2147483647"
  shows "\<exists>it' ru' n'. greedy_one max_distance old it (ru, n) = Inr (it', ru', n') \<and>
    ((\<exists>c \<in> set old. candidate ru it c \<and> blob_dist it c < max_distance \<and>
        (\<forall>c' \<in> set old. candidate ru it c' \<longrightarrow> blob_dist it c \<le> blob_dist it c') \<and>
        blob_id it' = blob_id c \<and> ru' = ru @ [blob_id c] \<and> n' = n) \<or>
     (\<forall>c \<in> set old. candidate ru it c \<longrightarrow> max_distance \<le> blob_dist it c) \<and> blob_id it' = n + 1 \<and> ru' = ru \<and> n' = n + 1)"
proof -
  obtain it' cl where "greedy_one max_distance old it (ru, n) = (case cl of
        Some c \<Rightarrow> Inr (it', ru @ [blob_id c], n) | None \<Rightarrow> Inr (it', ru, n + 1))" "choice ru max_distance old it cl"
      "blob_id it' = (case cl of Some c \<Rightarrow> blob_id c | None \<Rightarrow> n + 1)"
    using greedy_one_ok [OF assms(1) _ assms(3,4), of old B' max_distance ru] assms(2) by blast
  then show ?thesis by (cases cl) (auto simp: choice_def)
qed

definition sample_copy :: moDataGenericContainer where
  "sample_copy = [(''age'', new_int 0 ''''), (''blob_id'', new_int 7 ''''), (''implements'', new_string ''pos,tracked'' ''''),
     (''x'', new_string ''0.5'' ''''), (''y'', new_string ''0.5'' '''')]"

lemma sample_point: "atof ''0.5'' = 1 / 2"
  by code_simp

lemma sample_near: "near 1 sample_copy"
  by (simp add: near_def dbl_at_def get_double_def cprop_def sample_copy_def new_simps prop_init_def asDouble_def c_str_def sample_point)

lemma sample_copied: "copied_blob False 1 0 sample_copy" "blob_ok False 1 0 sample_copy" "blob_id sample_copy = 7"
  by (auto simp: sample_near [unfolded sample_copy_def]
      copied_blob_def blob_ok_def cok_def sample_copy_def smap_wf_def promises_def flag_def str_at_def int_at_def
      int_names_def INT_MIN_def INT_MAX_def split: if_splits)

lemma greedy_nearest_witness:
  "\<exists>it' ru' n'. greedy_one (1 / 10) [sample_copy] sample_copy ([7], 41) = Inr (it', ru', n') \<and> blob_id it' = 42"
  using greedy_nearest [OF sample_copied(1), of "[sample_copy]" 0 41 "1 / 10" "[7]"] sample_copied
  by (auto simp: candidate_def)

text \<open>
  C20. Blobs that got lost: when no blob is seen any more, the ids published in the \<open>k\<close>-th frame
  are exactly those of the blobs that were old enough (their age is at least \<open>min_age\<close> one frame later)
  and whose age plus \<open>k\<close> is at most \<open>max_age\<close>. So a tracked blob, whose age is reset to \<open>min_age\<close> whenever it is
  seen, is published for \<open>max_age - min_age\<close> more frames, and a blob younger than that is dropped at once.
\<close>

theorem lost_blob_grace:
  assumes "settings_ok props max_age min_age" "tracker_inv va D B F n t" "0 \<le> F" "F < 20000000" "0 \<le> n" "n \<le> 2147483647"
    "0 < k" "B + int k \<le> 2147483647"
  shows "\<exists>out. track_frames greedy_trackBlobs props (replicate k []) n t = Inr out \<and> length out = k \<and>
    blob_id ` set (last out) =
      {blob_id c |c. c \<in> set (old_blobs t) \<and> min_age \<le> int_at ''age'' c + 1 \<and> int_at ''age'' c + int k \<le> max_age}"
proof -
  obtain j where j: "k = Suc j" using assms(7) gr0_implies_Suc by blast
  have "\<exists>out. track_frames greedy_trackBlobs props (replicate (Suc j) []) n t = Inr out \<and> length out = Suc j \<and>
    blob_id ` set (last out) = {i. \<exists>a. (i, a) \<in> id_ages t \<and> min_age \<le> a + 1 \<and> a + int (Suc j) \<le> max_age}"
    by (rule greedy.empty_frames [where room = "length (old_blobs t)", OF assms(1,2) _ assms(3-6)]) (use assms(8) j in auto)
  moreover have "{i. \<exists>a. (i, a) \<in> id_ages t \<and> min_age \<le> a + 1 \<and> a + int k \<le> max_age} =
      {blob_id c |c. c \<in> set (old_blobs t) \<and> min_age \<le> int_at ''age'' c + 1 \<and> int_at ''age'' c + int k \<le> max_age}"
    by (auto simp: id_ages_def)
  ultimately show ?thesis unfolding j by simp
qed

lemma lost_blob_grace_witness:
  "\<exists>out. track_frames greedy_trackBlobs sample_settings (replicate 1 []) 9 (new_tracker\<lparr>old_blobs := [sample_copy]\<rparr>) = Inr out \<and> length out = 1 \<and>
    blob_id ` set (last out) =
      {blob_id c |c. c \<in> set [sample_copy] \<and> 3 \<le> int_at ''age'' c + 1 \<and> int_at ''age'' c + 1 \<le> 10}"
proof -
  have "tracker_inv False 1 0 0 9 (new_tracker\<lparr>old_blobs := [sample_copy]\<rparr>)"
    using sample_copied by (simp add: tracker_inv_def tracked_blob_def)
  from lost_blob_grace [OF sample_settings_ok this, of 1] show ?thesis by simp
qed

text \<open>
  A blob whose angle is volatile can be given the id of an old blob whose angle was not: the
  old blob has no \<open>fallen_over\<close>, and \<open>trackAngles\<close> follows a null pointer.
\<close>

theorem angle_history_missing:
  assumes "blob_ok True D B it" "angle_of it = Inr angle" "find_id (blob_id it) old = Inr (Some k)" "''fallen_over'' \<notin> keys (old ! k)"
  shows "track_angle max_diff old it = Inl NullDeref"
proof -
  note d = blob_okD [OF assms(1)]
  have "get_int ''fallen_over'' (old ! k) = Inl NullDeref"
    using assms(4) by (simp add: get_int_def cprop_def domIff)
  then show ?thesis
    using assms(2,3) d(8,11,13) get_ok(3) [OF d(1) d(9)] by (auto simp: track_angle_def inList_flag angle_of_def)
qed

definition sample_turning :: moDataGenericContainer where
  "sample_turning = [(''age'', new_int 0 ''''), (''angle'', new_string ''0'' ''''), (''blob_id'', new_int 7 ''''),
     (''implements'', new_string ''pos,volatileangle,tracked'' ''''), (''x'', new_string ''0.5'' ''''), (''y'', new_string ''0.5'' '''')]"

lemma angle_history_missing_witness: "track_angle 46 [sample_copy] sample_turning = Inl NullDeref"
proof -
  have near: "near 1 sample_turning"
    by (simp add: near_def dbl_at_def get_double_def cprop_def sample_turning_def new_simps prop_init_def asDouble_def c_str_def sample_point)
  have "blob_ok True 1 0 sample_turning"
    by (auto simp: near [unfolded sample_turning_def]
        blob_ok_def cok_def sample_turning_def smap_wf_def promises_def flag_def str_at_def int_at_def
        int_names_def INT_MIN_def INT_MAX_def split: if_splits)
  moreover have "angle_of sample_turning = Inr 0"
    by (simp add: angle_of_def get_double_def cprop_def sample_turning_def new_simps prop_init_def asDouble_def atof_def c_str_def
        isspace_def isdigit_def digits_val_def digit_val_def dbl_def radToDeg_def int_of_double_def rat_trunc_def INT_MIN_def INT_MAX_def)
  moreover have "find_id (blob_id sample_turning) [sample_copy] = Inr (Some 0)"
    using blob_okD(11) [OF sample_copied(2)] sample_copied(3) by (simp add: int_at_def sample_turning_def)
  moreover have "''fallen_over'' \<notin> keys ([sample_copy] ! 0)" by (simp add: sample_copy_def)
  ultimately show ?thesis by (rule angle_history_missing)
qed

end
