(* ===== verification/Movid_Float.thy ===== *)
theory Movid_Float
  imports Movid_Tracker "HOL-Library.Word"
begin

text \<open>
  The conversion of a double to a float (\<open>(float) x\<close>, rounding to nearest, ties to even) and the 32 bits of the float in
  memory: one sign bit, eight bits of exponent, 23 bits of fraction (IEEE 754 binary32). A double beyond the range of float makes the
  conversion undefined. \<open>float_value\<close> reads the bits; it gives the rounded number of \<open>flt\<close> back.
\<close>

definition to_float :: "double \<Rightarrow> 32 word result" where
  "to_float x =
     (if x = 0 then Inr 0
      else (let e0 = max (ilog 2 \<bar>x\<bar> - 23) (-149);
                m0 = half_even (\<bar>x\<bar> / bpow 2 e0);
                (m, e) = (if m0 = 2 ^ 24 then (2 ^ 23, e0 + 1) else (m0, e0));
                s = (if x < 0 then 2 ^ 31 else 0)
            in if e > 104 then Inl Undefined
               else Inr (word_of_int (s + (if m < 2 ^ 23 then m else (e + 150) * 2 ^ 23 + (m - 2 ^ 23))))))"

definition float_value :: "32 word \<Rightarrow> rat" where
  "float_value w =
     (let k = uint w mod 2 ^ 31; ex = k div 2 ^ 23; fr = k mod 2 ^ 23;
          v = (if ex = 0 then of_int fr * bpow 2 (-149) else of_int (2 ^ 23 + fr) * bpow 2 (ex - 150))
      in if 2 ^ 31 \<le> uint w then - v else v)"

section \<open>Powers and logarithms\<close>

lemma bpow_add: "0 < b \<Longrightarrow> bpow b (e + f) = bpow b e * bpow b f"
  by (simp add: bpow_powi power_int_add)

lemma bpow_mono: "e \<le> f \<Longrightarrow> bpow 2 e \<le> bpow 2 f"
  unfolding bpow_powi by (rule power_int_increasing) auto

lemma bpow_numeral: "bpow 2 (int n) = 2 ^ n"
  by (simp add: bpow_def)

lemma ilog_upper:
  assumes "0 < x"
  shows "x < bpow 2 (ilog 2 x + 1)"
proof -
  obtain n d where q: "quotient_of x = (n, d)" by fastforce
  have d: "0 < d" using quotient_of_denom_pos [OF q] .
  have x: "x = of_int n / of_int d" by (rule quotient_of_div [OF q])
  then have n: "0 < n" using assms d by (simp add: zero_less_divide_iff)
  let ?i = "ndigits 2 (nat n)" and ?j = "ndigits 2 (nat d)"
  have "nat n < 2 ^ ?i" "2 ^ ?j \<le> 2 * nat d" using ndigits_bounds [of 2 "nat n"] ndigits_bounds [of 2 "nat d"] d by auto
  then have "(of_nat (nat n) :: rat) < of_nat (2 ^ ?i)" "(of_nat (2 ^ ?j) :: rat) \<le> of_nat (2 * nat d)"
    by (simp_all only: of_nat_le_iff of_nat_less_iff)
  then have le: "(of_int n :: rat) < 2 ^ ?i" "(2 :: rat) ^ ?j \<le> 2 * of_int d" using n d by simp_all
  have "x < 2 ^ ?i / of_int d" unfolding x using le(1) d by (simp add: divide_strict_right_mono)
  also have "\<dots> \<le> 2 ^ ?i * 2 / 2 ^ ?j" using le(2) d by (simp add: field_simps)
  also have "\<dots> = bpow 2 (int ?i - int ?j + 1)" using bpow_diff [of 2 ?i ?j] bpow_add [of 2 "int ?i - int ?j" 1] by (simp add: bpow_def)
  finally have "x < bpow 2 (int ?i - int ?j + 1)" .
  then show ?thesis by (auto simp: ilog_def q Let_def)
qed

lemma ilog_less: "0 < x \<Longrightarrow> x < 2 ^ n \<Longrightarrow> ilog 2 x < int n"
proof (rule ccontr)
  assume x: "0 < x" "x < 2 ^ n" "\<not> ilog 2 x < int n"
  then have "bpow 2 (int n) \<le> bpow 2 (ilog 2 x)" by (intro bpow_mono) simp
  then show False using bpow_ilog_le [OF x(1)] x(2) by (simp add: bpow_numeral)
qed

lemma half_even_minus: "half_even (- y) = - half_even y"
proof -
  have f: "of_int \<lfloor>y\<rfloor> \<le> y" "y < of_int \<lfloor>y\<rfloor> + 1" by linarith+
  show ?thesis
  proof (cases "y = of_int \<lfloor>y\<rfloor>")
    case True
    then show ?thesis by (metis half_even_of_int of_int_minus)
  next
    case False
    then have lt: "of_int \<lfloor>y\<rfloor> < y" using f(1) by linarith
    then have n: "\<lfloor>- y\<rfloor> = - \<lfloor>y\<rfloor> - 1" using f(2) by (intro floor_unique) simp_all
    show ?thesis unfolding half_even_def Let_def n using f(2) lt by auto
  qed
qed

lemma half_even_between: "of_int a \<le> y \<Longrightarrow> y < of_int b \<Longrightarrow> a \<le> half_even y \<and> half_even y \<le> b"
proof -
  assume y: "of_int a \<le> y" "y < of_int b"
  have h: "\<bar>of_int (half_even y) - y\<bar> \<le> 1 / 2" by (rule half_even_bounds)
  have "of_int a - 1 < (of_int (half_even y) :: rat)" "(of_int (half_even y) :: rat) < of_int b + 1" using h y unfolding abs_le_iff by linarith+
  then have "of_int (a - 1) < (of_int (half_even y) :: rat)" "(of_int (half_even y) :: rat) < of_int (b + 1)" by simp_all
  then show ?thesis unfolding of_int_less_iff by simp
qed

section \<open>The bits\<close>

lemma float_value_bits:
  assumes "0 \<le> m" "m < 2 ^ 24" "e = -149 \<or> 2 ^ 23 \<le> m" "-149 \<le> e" "e \<le> 104"
  shows "float_value (word_of_int ((if neg then 2 ^ 31 else 0) + (if m < 2 ^ 23 then m else (e + 150) * 2 ^ 23 + (m - 2 ^ 23)))) =
    (if neg then - (of_int m * bpow 2 e) else of_int m * bpow 2 e)"
proof -
  let ?k = "if m < 2 ^ 23 then m else (e + 150) * 2 ^ 23 + (m - 2 ^ 23)"
  have k: "0 \<le> ?k" "?k < 2 ^ 31" using assms by auto
  have u: "uint (word_of_int ((if neg then 2 ^ 31 else 0) + ?k) :: 32 word) = (if neg then 2 ^ 31 else 0) + ?k"
    unfolding uint_word_of_int_eq take_bit_eq_mod by (rule mod_pos_pos_trivial) (use k in auto)
  have kk: "uint (word_of_int ((if neg then 2 ^ 31 else 0) + ?k) :: 32 word) mod 2 ^ 31 = ?k"
    unfolding u using mod_pos_pos_trivial [OF k] mod_add_self1 [of "2 ^ 31" ?k] by (cases neg) (simp_all only: if_True if_False add_0)
  have parts: "?k div 2 ^ 23 = (if m < 2 ^ 23 then 0 else e + 150)" "?k mod 2 ^ 23 = (if m < 2 ^ 23 then m else m - 2 ^ 23)"
  proof -
    have d: "((e + 150) * 2 ^ 23 + r) div 2 ^ 23 = e + 150 \<and> ((e + 150) * 2 ^ 23 + r) mod 2 ^ 23 = r" if "0 \<le> r" "r < 2 ^ 23" for r
      using that by (simp add: div_mult_self3 del: power_numeral)
    show "?k div 2 ^ 23 = (if m < 2 ^ 23 then 0 else e + 150)" "?k mod 2 ^ 23 = (if m < 2 ^ 23 then m else m - 2 ^ 23)"
      using assms(1,2) d [of "m - 2 ^ 23"] by (auto simp only: if_True if_False div_pos_pos_trivial mod_pos_pos_trivial split: if_splits) auto
  qed
  have "2 ^ 31
    \<le> uint (word_of_int ((if neg then 2 ^ 31 else 0) + ?k) :: 32 word) \<longleftrightarrow> neg" unfolding u using k by auto
  then show ?thesis unfolding float_value_def Let_def kk parts using assms by auto
qed

lemma to_float_ok:
  assumes "\<bar>x\<bar> < 2 ^ 127"
  shows "\<exists>w. to_float x = Inr w \<and> float_value w = flt x"
proof (cases "x = 0")
  case True
  then show ?thesis by (simp add: to_float_def flt_def float_value_def)
next
  case False
  define e where "e = max (ilog 2 \<bar>x\<bar> - 23) (-149)"
  define m where "m = half_even (\<bar>x\<bar> / bpow 2 e)"
  have x: "0 < \<bar>x\<bar>" using False by simp
  have pos: "0 < bpow 2 e" by (rule bpow_pos) simp
  have e: "-149 \<le> e" "e \<le> 103" using ilog_less [OF x assms] by (auto simp: e_def)
  have "\<bar>x\<bar> < bpow 2 (ilog 2 \<bar>x\<bar> + 1)" by (rule ilog_upper [OF x])
  also have "\<dots> \<le> bpow 2 (e + int 24)" by (rule bpow_mono) (simp add: e_def)
  also have "\<dots> = bpow 2 e * 2 ^ 24" by (simp add: bpow_add bpow_numeral del: of_nat_numeral)
  finally have up: "\<bar>x\<bar> / bpow 2 e < of_int (2 ^ 24)" using pos by (simp add: divide_less_eq mult.commute)
  have lo: "of_int (2 ^ 23) \<le> \<bar>x\<bar> / bpow 2 e" if "e \<noteq> -149"
  proof -
    have "e = ilog 2 \<bar>x\<bar> - 23" using that by (auto simp: e_def max_def split: if_splits)
    then have i: "ilog 2 \<bar>x\<bar> = e + int 23" by simp
    have "bpow 2 (ilog 2 \<bar>x\<bar>) = bpow 2 e * 2 ^ 23" unfolding i by (simp add: bpow_add bpow_numeral del: of_nat_numeral)
    then show ?thesis using bpow_ilog_le [OF x] pos by (simp add: le_divide_eq mult.commute)
  qed
  have m: "0 \<le> m" "m \<le> 2 ^ 24" "e = -149 \<or> 2 ^ 23 \<le> m"
    using half_even_between [of 0 _ "2 ^ 24", OF _ up] half_even_between [OF lo up] pos by (auto simp: m_def)
  have f: "flt x = (if x < 0 then - (of_int m * bpow 2 e) else of_int m * bpow 2 e)"
    using False half_even_minus [of "\<bar>x\<bar> / bpow 2 e"] by (auto simp: flt_def Let_def m_def e_def)
  let ?m = "if m = 2 ^ 24 then 2 ^ 23 else m" and ?e = "if m = 2 ^ 24 then e + 1 else e"
  have v: "of_int ?m * bpow 2 ?e = of_int m * bpow 2 e" using bpow_add [of 2 e 1] by (auto simp: bpow_def)
  have t: "to_float x = Inr (word_of_int ((if x < 0 then 2 ^ 31 else 0) + (if ?m < 2 ^ 23 then ?m else (?e + 150) * 2 ^ 23 + (?m - 2 ^ 23))))"
    using False e by (auto simp: to_float_def Let_def m_def [symmetric] e_def [symmetric])
  have "float_value (word_of_int ((if x < 0 then 2 ^ 31 else 0) + (if ?m < 2 ^ 23 then ?m else (?e + 150) * 2 ^ 23 + (?m - 2 ^ 23)))) =
      (if x < 0 then - (of_int ?m * bpow 2 ?e) else of_int ?m * bpow 2 ?e)"
    by (rule float_value_bits) (use m e in auto)
  then show ?thesis unfolding t f v by blast
qed

text \<open>A coordinate between -1 and 1 loses at most \<open>2 ^ -24\<close>.\<close>

lemma flt_error:
  assumes "\<bar>x\<bar> \<le> 1"
  shows "\<bar>flt x - x\<bar> \<le> 1 / 2 ^ 24"
proof (cases "x = 0")
  case False
  define e where "e = max (ilog 2 \<bar>x\<bar> - 23) (-149)"
  have "ilog 2 \<bar>x\<bar> < int 1" by (rule ilog_less) (use False assms in auto)
  then have "e \<le> -23" by (simp add: e_def)
  then have "bpow 2 e \<le> bpow 2 (-23)" by (rule bpow_mono)
  also have "bpow 2 (-23) = 1 / 2 ^ 23" by (simp add: bpow_def inverse_eq_divide)
  finally have e: "bpow 2 e \<le> 1 / 2 ^ 23" .
  have pos: "0 < bpow 2 e" by (rule bpow_pos) simp
  have "flt x - x = (of_int (half_even (x / bpow 2 e)) - x / bpow 2 e) * bpow 2 e"
    using False pos by (simp add: flt_def Let_def e_def left_diff_distrib)
  then have "\<bar>flt x - x\<bar> = \<bar>of_int (half_even (x / bpow 2 e)) - x / bpow 2 e\<bar> * bpow 2 e" using pos by (simp add: abs_mult)
  also have "\<dots> \<le> (1 / 2) * (1 / 2 ^ 23)" using half_even_bounds [of "x / bpow 2 e"] e pos by (intro mult_mono) auto
  finally show ?thesis by simp
qed (simp add: flt_def)

end
