(* ===== verification/Movid_Match.thy ===== *)
theory Movid_Match
  imports Movid_Tracker "HOL-Library.Word"
begin

unbundle bit_operations_syntax

text \<open>
  \<open>contrib/bitmap_munkres/match.c\<close>, the Hungarian algorithm on bit masks, and
  \<open>moMunkresBlobTrackerModule\<close>, which uses it to find the blobs of the last frame again.

  A set of columns or rows is a 32-bit word, a matrix of marks a list of 32 words, one per column; the
  distances are a list of ints, the entry of a row and a column at \<open>row + nrows * col\<close>. The steps call each
  other as last calls: \<open>match_step\<close> is one call, \<open>mpc\<close> the step that is called next. The temporary
  copy \<open>nmstar\<close> is local to step 4. An int that overflows is \<open>Undefined\<close>; a loop that gets no further is
  \<open>Diverges\<close>: the bounds are the numbers of turns the proofs below find sufficient.
\<close>

section \<open>Bit masks\<close>

type_synonym col_t = "32 word"
type_synonym mat_t = "32 word list"

definition GET1 :: "col_t \<Rightarrow> nat \<Rightarrow> bool" where
  "GET1 m x \<longleftrightarrow> drop_bit x m AND 1 \<noteq> 0"

definition SET1 :: "col_t \<Rightarrow> nat \<Rightarrow> col_t" where
  "SET1 m x = m OR push_bit x 1"

definition CLEAR1 :: "col_t \<Rightarrow> nat \<Rightarrow> col_t" where
  "CLEAR1 m x = m AND NOT (push_bit x 1)"

definition GET2 :: "mat_t \<Rightarrow> nat \<Rightarrow> nat \<Rightarrow> bool" where
  "GET2 m row col = GET1 (m ! col) row"

definition SET2 :: "mat_t \<Rightarrow> nat \<Rightarrow> nat \<Rightarrow> mat_t" where
  "SET2 m row col = m[col := SET1 (m ! col) row]"

definition CLEAR2 :: "mat_t \<Rightarrow> nat \<Rightarrow> nat \<Rightarrow> mat_t" where
  "CLEAR2 m row col = m[col := CLEAR1 (m ! col) row]"

definition DIM_FINGER :: nat where
  "DIM_FINGER = 32"

definition zero_mat :: mat_t where
  "zero_mat = replicate DIM_FINGER 0"

section \<open>The steps\<close>

record mstate =
  mdist :: "int list"
  mstar :: mat_t
  mprime :: mat_t
  ccol :: col_t
  crow :: col_t

datatype mpc = Step2a | Step2b | Step3 | Step4 nat nat | Step5 | Finished | Nothing_uncovered

definition chk_all :: "int list \<Rightarrow> int list result" where
  "chk_all xs = (if \<forall>x \<in> set xs. int32 x then Inr xs else Inl Undefined)"

definition buildixvector :: "mat_t \<Rightarrow> nat \<Rightarrow> nat \<Rightarrow> int list \<Rightarrow> int list" where
  "buildixvector star nrows ncols ix =
     map (\<lambda>row. case find (\<lambda>col. GET2 star row col) [0..<ncols] of Some col \<Rightarrow> int col | None \<Rightarrow> ix ! row) [0..<nrows]"

text \<open>The smallest element of a row or of a column; a turn of the loop over the rows reads and changes its
  own row only.\<close>

definition row_min :: "nat \<Rightarrow> nat \<Rightarrow> int list \<Rightarrow> nat \<Rightarrow> int" where
  "row_min nrows ncols md row =
     fold (\<lambda>col minValue. if md ! (row + nrows * col) < minValue then md ! (row + nrows * col) else minValue) [1..<ncols] (md ! row)"

definition col_min :: "nat \<Rightarrow> int list \<Rightarrow> nat \<Rightarrow> int" where
  "col_min nrows md col =
     fold (\<lambda>row minValue. if md ! (row + nrows * col) < minValue then md ! (row + nrows * col) else minValue) [1..<nrows] (md ! (nrows * col))"

definition sub_rows :: "nat \<Rightarrow> nat \<Rightarrow> int list \<Rightarrow> int list result" where
  "sub_rows nrows ncols md = chk_all (map (\<lambda>i. md ! i - row_min nrows ncols md (i mod nrows)) [0..<nrows * ncols])"

definition sub_cols :: "nat \<Rightarrow> nat \<Rightarrow> int list \<Rightarrow> int list result" where
  "sub_cols nrows ncols md = chk_all (map (\<lambda>i. md ! i - col_min nrows md (i div nrows)) [0..<nrows * ncols])"

definition star_row :: "nat \<Rightarrow> nat \<Rightarrow> int list \<Rightarrow> nat \<Rightarrow> mat_t \<times> col_t \<Rightarrow> mat_t \<times> col_t" where
  "star_row nrows ncols md row = (\<lambda>(star, cc).
     case find (\<lambda>col. md ! (row + nrows * col) = 0 \<and> \<not> GET1 cc col) [0..<ncols] of
       None \<Rightarrow> (star, cc)
     | Some col \<Rightarrow> (SET2 star row col, SET1 cc col))"

definition star_col :: "nat \<Rightarrow> int list \<Rightarrow> nat \<Rightarrow> mat_t \<times> col_t \<times> col_t \<Rightarrow> mat_t \<times> col_t \<times> col_t" where
  "star_col nrows md col = (\<lambda>(star, cc, cr).
     case find (\<lambda>row. md ! (row + nrows * col) = 0 \<and> \<not> GET1 cr row) [0..<nrows] of
       None \<Rightarrow> (star, cc, cr)
     | Some row \<Rightarrow> (SET2 star row col, SET1 cc col, SET1 cr row))"

text \<open>\<open>ixoptimal\<close> up to its call of step 2b.\<close>

definition match_start :: "nat \<Rightarrow> nat \<Rightarrow> int list \<Rightarrow> mstate result" where
  "match_start nrows ncols md0 =
     (if nrows \<le> ncols
      then bindR (sub_rows nrows ncols md0) (\<lambda>md.
             let (star, cc) = fold (star_row nrows ncols md) [0..<nrows] (zero_mat, 0)
             in Inr \<lparr>mdist = md, mstar = star, mprime = zero_mat, ccol = cc, crow = 0\<rparr>)
      else bindR (sub_cols nrows ncols md0) (\<lambda>md.
             let (star, cc, cr) = fold (star_col nrows md) [0..<ncols] (zero_mat, 0, 0)
             in Inr \<lparr>mdist = md, mstar = star, mprime = zero_mat, ccol = cc, crow = 0\<rparr>))"

definition step2a :: "nat \<Rightarrow> nat \<Rightarrow> mstate \<Rightarrow> mstate" where
  "step2a nrows ncols s =
     s\<lparr>ccol := fold (\<lambda>col cc. if find (\<lambda>row. GET2 (mstar s) row col) [0..<nrows] \<noteq> None then SET1 cc col else cc) [0..<ncols] (ccol s)\<rparr>"

definition step2b :: "nat \<Rightarrow> nat \<Rightarrow> mstate \<Rightarrow> mpc" where
  "step2b ncols dmin s = (if length (filter (GET1 (ccol s)) [0..<ncols]) = dmin then Finished else Step3)"

text \<open>One turn of the loop over the columns of step 3: a zero that is found, and the zero that leads
  to step 4.\<close>

definition step3_col :: "nat \<Rightarrow> nat \<Rightarrow> nat \<Rightarrow> mstate \<Rightarrow> mstate \<times> bool \<times> (nat \<times> nat) option" where
  "step3_col nrows ncols col s =
     (if GET1 (ccol s) col then (s, False, None)
      else (case find (\<lambda>row. mdist s ! (row + nrows * col) = 0 \<and> \<not> GET1 (crow s) row) [0..<nrows] of
              None \<Rightarrow> (s, False, None)
            | Some row \<Rightarrow>
                (let s1 = s\<lparr>mprime := SET2 (mprime s) row col\<rparr>
                 in case find (GET2 (mstar s1) row) [0..<ncols] of
                      None \<Rightarrow> (s1, True, Some (row, col))
                    | Some cstar \<Rightarrow> (s1\<lparr>crow := SET1 (crow s1) row, ccol := CLEAR1 (ccol s1) cstar\<rparr>, True, None))))"

fun step3_cols :: "nat \<Rightarrow> nat \<Rightarrow> nat list \<Rightarrow> bool \<Rightarrow> mstate \<Rightarrow> mstate \<times> bool \<times> (nat \<times> nat) option" where
  "step3_cols nrows ncols [] zerosFound s = (s, zerosFound, None)"
| "step3_cols nrows ncols (col # cols) zerosFound s =
     (case step3_col nrows ncols col s of
        (s1, z, Some rc) \<Rightarrow> (s1, True, Some rc)
      | (s1, z, None) \<Rightarrow> step3_cols nrows ncols cols (zerosFound \<or> z) s1)"

fun step3 :: "nat \<Rightarrow> nat \<Rightarrow> nat \<Rightarrow> mstate \<Rightarrow> (mpc \<times> mstate) result" where
  "step3 0 nrows ncols s = Inl Diverges"
| "step3 (Suc k) nrows ncols s =
     (case step3_cols nrows ncols [0..<ncols] False s of
        (s1, z, Some (row, col)) \<Rightarrow> Inr (Step4 row col, s1)
      | (s1, z, None) \<Rightarrow> if z then step3 k nrows ncols s1 else Inr (Step5, s1))"

text \<open>The loop of step 4; a row without a primed zero would set a mark in the column after the last.\<close>

fun step4_loop :: "nat \<Rightarrow> nat \<Rightarrow> nat \<Rightarrow> mat_t \<Rightarrow> mat_t \<Rightarrow> nat \<Rightarrow> mat_t \<Rightarrow> mat_t result" where
  "step4_loop 0 nrows ncols star prime cstar nm = Inl Diverges"
| "step4_loop (Suc k) nrows ncols star prime cstar nm =
     (case find (\<lambda>row. GET2 star row cstar) [0..<nrows] of
        None \<Rightarrow> Inr nm
      | Some rstar \<Rightarrow>
          (let primeCol = (case find (GET2 prime rstar) [0..<ncols] of Some c \<Rightarrow> c | None \<Rightarrow> ncols)
           in step4_loop k nrows ncols star prime primeCol (SET2 (CLEAR2 nm rstar cstar) rstar primeCol)))"

definition step4 :: "nat \<Rightarrow> nat \<Rightarrow> nat \<Rightarrow> nat \<Rightarrow> mstate \<Rightarrow> mstate result" where
  "step4 nrows ncols row col s =
     mapR (\<lambda>nm. s\<lparr>mstar := nm, mprime := zero_mat, crow := 0\<rparr>)
       (step4_loop (Suc nrows) nrows ncols (mstar s) (mprime s) col (SET2 (mstar s) row col))"

definition uncovered :: "nat \<Rightarrow> nat \<Rightarrow> mstate \<Rightarrow> int list" where
  "uncovered nrows ncols s =
     concat (map (\<lambda>row. if GET1 (crow s) row then []
                        else concat (map (\<lambda>col. if GET1 (ccol s) col then [] else [mdist s ! (row + nrows * col)]) [0..<ncols])) [0..<nrows])"

definition step5 :: "nat \<Rightarrow> nat \<Rightarrow> mstate \<Rightarrow> (mpc \<times> mstate) result" where
  "step5 nrows ncols s =
     (case uncovered nrows ncols s of
        [] \<Rightarrow> Inr (Nothing_uncovered, s)
      | v # vs \<Rightarrow>
          (let h = fold (\<lambda>v h. if v < h then v else h) vs v in
           bindR (chk_all (map (\<lambda>i. if GET1 (crow s) (i mod nrows) then mdist s ! i + h else mdist s ! i) [0..<nrows * ncols])) (\<lambda>md1.
           bindR (chk_all (map (\<lambda>i. if GET1 (ccol s) (i div nrows) then md1 ! i else md1 ! i - h) [0..<nrows * ncols])) (\<lambda>md2.
             Inr (Step3, s\<lparr>mdist := md2\<rparr>)))))"

fun match_step :: "nat \<Rightarrow> nat \<Rightarrow> nat \<Rightarrow> mpc \<Rightarrow> mstate \<Rightarrow> (mpc \<times> mstate) result" where
  "match_step nrows ncols dmin Step2a s = Inr (Step2b, step2a nrows ncols s)"
| "match_step nrows ncols dmin Step2b s = Inr (step2b ncols dmin s, s)"
| "match_step nrows ncols dmin Step3 s = step3 (Suc nrows) nrows ncols s"
| "match_step nrows ncols dmin (Step4 row col) s = mapR (Pair Step2a) (step4 nrows ncols row col s)"
| "match_step nrows ncols dmin Step5 s = step5 nrows ncols s"
| "match_step nrows ncols dmin pc s = Inr (pc, s)"

fun match_run :: "nat \<Rightarrow> nat \<Rightarrow> nat \<Rightarrow> nat \<Rightarrow> mpc \<Rightarrow> mstate \<Rightarrow> int list result" where
  "match_run k nrows ncols dmin Finished s = Inr (buildixvector (mstar s) nrows ncols (replicate nrows (-1)))"
| "match_run k nrows ncols dmin Nothing_uncovered s = Inr (replicate nrows (-1))"
| "match_run 0 nrows ncols dmin pc s = Inl Diverges"
| "match_run (Suc k) nrows ncols dmin pc s =
     bindR (match_step nrows ncols dmin pc s) (\<lambda>(pc1, s1). match_run k nrows ncols dmin pc1 s1)"

definition mtdev_match :: "int list \<Rightarrow> nat \<Rightarrow> nat \<Rightarrow> int list result" where
  "mtdev_match A nrow ncol =
     (let dmin = min nrow ncol
      in bindR (match_start nrow ncol A) (match_run ((dmin + 1) * (2 * nrow + 6)) nrow ncol dmin Step2b))"

section \<open>The tracker\<close>

definition clamp15 :: "int \<Rightarrow> int" where
  "clamp15 x = (if x < -32767 then -32767 else if x > 32767 then 32767 else x)"

definition dist2 :: "int \<Rightarrow> int \<Rightarrow> int" where
  "dist2 dx dy = (let dx = clamp15 dx; dy = clamp15 dy in dx * dx + dy * dy)"

text \<open>A coordinate times \<open>NORMALIZATION_FACTOR\<close>, as an int.\<close>

definition normalized :: "string \<Rightarrow> moDataGenericContainer \<Rightarrow> int result" where
  "normalized name c = bindR (get_double name c) (\<lambda>x. int_of_double (dbl (x * 10000)))"

definition munkres_distances :: "(int \<times> int) list \<Rightarrow> (int \<times> int) list \<Rightarrow> int list result" where
  "munkres_distances new old =
     mapR concat (mapM (\<lambda>(sx, sy). mapM (\<lambda>(nx, ny).
       bindR (chk32 (nx - sx)) (\<lambda>dx. mapR (dist2 dx) (chk32 (ny - sy)))) new) old)"

fun munkres_assign :: "int list \<Rightarrow> int list \<Rightarrow> moDataGenericContainer list \<Rightarrow> int \<Rightarrow> (moDataGenericContainer list \<times> int) result" where
  "munkres_assign sid [] new id_counter = Inr ([], id_counter)"
| "munkres_assign sid (j # n2s) [] id_counter = Inr ([], id_counter)"
| "munkres_assign sid (j # n2s) (c # new) id_counter =
     (let i0 = (if j \<ge> 0 then sid ! nat j else -10);
          n1 = (if i0 = -10 then pincrement id_counter else id_counter);
          i1 = (if i0 = -10 then n1 else i0)
      in bindR (put_int ''blob_id'' i1 c) (\<lambda>c1.
         mapR (\<lambda>(cs, n2). (c1 # cs, n2)) (munkres_assign sid n2s new n1)))"

definition munkres_trackBlobs :: "(string, moProperty) smap \<Rightarrow> int \<Rightarrow> tracker \<Rightarrow> (int \<times> tracker) result" where
  "munkres_trackBlobs props id_counter t =
     (let sn = length (old_blobs t); nn = length (new_blobs t) in
      if \<not> sn < DIM_FINGER \<or> \<not> nn < DIM_FINGER then Inl AssertFailed
      else
        bindR (mapM (\<lambda>c. bindR (get_int ''blob_id'' c) (\<lambda>i. bindR (normalized ''x'' c) (\<lambda>x. mapR (\<lambda>y. (i, x, y)) (normalized ''y'' c)))) (old_blobs t)) (\<lambda>old.
        bindR (mapM (\<lambda>c. bindR (normalized ''x'' c) (\<lambda>x. mapR (Pair x) (normalized ''y'' c))) (new_blobs t)) (\<lambda>new.
        bindR (munkres_distances new (map snd old)) (\<lambda>A.
        bindR (mtdev_match A nn sn) (\<lambda>n2s.
          mapR (\<lambda>(bs, n). (n, t\<lparr>new_blobs := bs\<rparr>)) (munkres_assign (map fst old) n2s (new_blobs t) id_counter))))))"

section \<open>Sets of marks\<close>

definition bits :: "nat \<Rightarrow> col_t \<Rightarrow> nat set" where
  "bits n w = {x. x < n \<and> GET1 w x}"

definition marks :: "nat \<Rightarrow> nat \<Rightarrow> mat_t \<Rightarrow> (nat \<times> nat) set" where
  "marks R C m = {(r, c). r < R \<and> c < C \<and> GET2 m r c}"

lemma GET1_bit: "GET1 m x \<longleftrightarrow> bit m x"
  by (simp add: GET1_def bit_iff_odd_drop_bit and_one_eq odd_iff_mod_2_eq_one)

lemma GET1_simps [simp]:
  "\<not> GET1 0 y" "x < 32 \<Longrightarrow> GET1 (SET1 m x) y \<longleftrightarrow> y = x \<or> GET1 m y" "x < 32 \<Longrightarrow> GET1 (CLEAR1 m x) y \<longleftrightarrow> y \<noteq> x \<and> GET1 m y"
  by (auto simp: GET1_bit SET1_def CLEAR1_def bit_simps dest: bit_imp_le_length)

lemma bits_simps [simp]:
  "bits n 0 = {}" "x < n \<Longrightarrow> n \<le> 32 \<Longrightarrow> bits n (SET1 w x) = insert x (bits n w)" "x < n \<Longrightarrow> n \<le> 32 \<Longrightarrow> bits n (CLEAR1 w x) = bits n w - {x}"
  by (auto simp: bits_def)

lemma marks_simps [simp]:
  "length m = 32 \<Longrightarrow> r < R \<Longrightarrow> c < C \<Longrightarrow> R \<le> 32 \<Longrightarrow> C \<le> 32 \<Longrightarrow> marks R C (SET2 m r c) = insert (r, c) (marks R C m)"
  "length m = 32 \<Longrightarrow> r < R \<Longrightarrow> c < C \<Longrightarrow> R \<le> 32 \<Longrightarrow> C \<le> 32 \<Longrightarrow> marks R C (CLEAR2 m r c) = marks R C m - {(r, c)}"
  "C \<le> 32 \<Longrightarrow> marks R C zero_mat = {}" "length (SET2 m r c) = length m" "length (CLEAR2 m r c) = length m" "length zero_mat = 32"
  by (auto simp: marks_def GET2_def SET2_def CLEAR2_def nth_list_update zero_mat_def DIM_FINGER_def split: if_splits)

lemma finite_marks [simp]: "finite (marks R C m)"
  by (rule finite_subset [of _ "{..<R} \<times> {..<C}"]) (auto simp: marks_def)

lemma find_upt_None: "find P [0..<n] = None \<longleftrightarrow> (\<forall>x < n. \<not> P x)"
  by (auto simp: find_None_iff)

lemma find_upt_Some: "find P [0..<n] = Some x \<Longrightarrow> x < n \<and> P x"
  by (auto simp: find_Some_iff)

text \<open>The entry of a row and a column.\<close>

definition ent :: "nat \<Rightarrow> int list \<Rightarrow> nat \<Rightarrow> nat \<Rightarrow> int" where
  "ent R md r c = md ! (r + R * c)"

lemma index_less: "r < R \<Longrightarrow> c < C \<Longrightarrow> r + R * c < R * (C :: nat)"
proof -
  assume "r < R" "c < C"
  then have "r + R * c < R * Suc c" by simp
  also have "\<dots> \<le> R * C" using \<open>c < C\<close> by (intro mult_le_mono2) simp
  finally show ?thesis .
qed

lemma ent_map:
  assumes "r < R" "c < C"
  shows "ent R (map f [0..<R * C]) r c = f (r + R * c)" "(r + R * c) mod R = r" "(r + R * c) div R = c"
  using assms index_less [OF assms] by (auto simp: ent_def)

lemma index_split: "i < R * C \<Longrightarrow> \<exists>r c. r < R \<and> c < C \<and> i = r + R * (c :: nat)"
  by (rule exI [of _ "i mod R"], rule exI [of _ "i div R"])
    (cases "R = 0"; simp add: less_mult_imp_div_less mult.commute)

section \<open>Matchings and their costs\<close>

definition matching :: "nat \<Rightarrow> nat \<Rightarrow> (nat \<times> nat) set \<Rightarrow> bool" where
  "matching R C F \<longleftrightarrow> F \<subseteq> {..<R} \<times> {..<C} \<and> inj_on fst F \<and> inj_on snd F"

definition cost :: "(nat \<Rightarrow> nat \<Rightarrow> int) \<Rightarrow> (nat \<times> nat) set \<Rightarrow> int" where
  "cost A F = (\<Sum>(r, c) \<in> F. A r c)"

lemma matching_finite: "matching R C F \<Longrightarrow> finite F"
  unfolding matching_def by (meson finite_SigmaI finite_lessThan finite_subset)

lemma matching_cards:
  assumes "matching R C F"
  shows "card (fst ` F) = card F" "card (snd ` F) = card F" "fst ` F \<subseteq> {..<R}" "snd ` F \<subseteq> {..<C}" "card F \<le> R" "card F \<le> C"
proof -
  show s: "card (fst ` F) = card F" "card (snd ` F) = card F" using assms by (auto simp: matching_def intro: card_image)
  show t: "fst ` F \<subseteq> {..<R}" "snd ` F \<subseteq> {..<C}" using assms by (auto simp: matching_def)
  show "card F \<le> R" "card F \<le> C" using card_mono [OF _ t(1)] card_mono [OF _ t(2)] s by auto
qed

text \<open>Where everything outside of \<open>Z\<close> has the largest weight, no set of the size of \<open>Z\<close> weighs less.\<close>

lemma sum_lightest:
  fixes g :: "nat \<Rightarrow> int"
  assumes "Y \<subseteq> X" "Z \<subseteq> X" "finite X" "card Y = card Z" "\<And>x y. x \<in> X - Z \<Longrightarrow> y \<in> X \<Longrightarrow> g y \<le> g x"
  shows "sum g Z \<le> sum g Y"
proof (cases "X - Z = {}")
  case True
  then have "Z = X" using assms(2) by blast
  moreover have "Y = X" using assms(1,3,4) calculation by (metis card_subset_eq)
  ultimately show ?thesis by simp
next
  case False
  then obtain x where x: "x \<in> X - Z" by blast
  have fin: "finite Y" "finite Z" using assms(1,2,3) finite_subset by auto
  have "card (Z - Y) = card (Y - Z)" using assms(4) fin by (metis card_Diff_subset_Int card_Int_Diff Int_commute finite_Int diff_add_inverse)
  have le: "sum g (Z - Y) \<le> of_nat (card (Z - Y)) * g x"
    by (rule sum_bounded_above) (use assms(2,5) x in auto)
  have ge: "of_nat (card (Y - Z)) * g x \<le> sum g (Y - Z)"
    by (rule sum_bounded_below) (use assms(1,5) x in auto)
  have "sum g Z = sum g (Z \<inter> Y) + sum g (Z - Y)" by (rule sum.Int_Diff [OF fin(2)])
  moreover have "sum g Y = sum g (Z \<inter> Y) + sum g (Y - Z)" by (subst Int_commute) (rule sum.Int_Diff [OF fin(1)])
  ultimately show ?thesis using le ge \<open>card (Z - Y) = card (Y - Z)\<close> by simp
qed

text \<open>Reduced entries \<open>M\<close> that are nowhere negative, and zero on a matching of full size: no other
  matching of that size costs less, if the rows or columns it leaves out have the largest weights.\<close>

lemma optimal_dual:
  assumes S: "matching R C S" "card S = min R C" and F: "matching R C F" "card F = min R C"
    and M: "\<And>r c. r < R \<Longrightarrow> c < C \<Longrightarrow> A r c = M r c + u r + v c \<and> 0 \<le> M r c" and zero: "\<And>r c. (r, c) \<in> S \<Longrightarrow> M r c = 0"
    and u: "\<And>r r'. r < R \<Longrightarrow> r \<notin> fst ` S \<Longrightarrow> r' < R \<Longrightarrow> u r' \<le> u r" and v: "\<And>c c'. c < C \<Longrightarrow> c \<notin> snd ` S \<Longrightarrow> c' < C \<Longrightarrow> v c' \<le> v c"
  shows "cost A S \<le> cost A F"
proof -
  have split: "cost A G = (\<Sum>(r, c) \<in> G. M r c) + sum u (fst ` G) + sum v (snd ` G)" if G: "matching R C G" for G
  proof -
    have "cost A G = (\<Sum>p \<in> G. M (fst p) (snd p) + u (fst p) + v (snd p))"
      unfolding cost_def by (rule sum.cong) (use M G in \<open>auto simp: matching_def\<close>)
    then show ?thesis using G by (simp add: sum.distrib sum.reindex matching_def case_prod_beta)
  qed
  have "(\<Sum>(r, c) \<in> S. M r c) = 0" using zero by (intro sum.neutral) auto
  moreover have "0 \<le> (\<Sum>(r, c) \<in> F. M r c)" by (rule sum_nonneg) (use M F(1) in \<open>auto simp: matching_def\<close>)
  moreover have "sum u (fst ` S) \<le> sum u (fst ` F)"
    by (rule sum_lightest [of _ "{..<R}"]) (use matching_cards [OF S(1)] matching_cards [OF F(1)] S(2) F(2) u in auto)
  moreover have "sum v (snd ` S) \<le> sum v (snd ` F)"
    by (rule sum_lightest [of _ "{..<C}"]) (use matching_cards [OF S(1)] matching_cards [OF F(1)] S(2) F(2) v in auto)
  ultimately show ?thesis using split [OF S(1)] split [OF F(1)] by linarith
qed

section \<open>Invariants\<close>

text \<open>What holds at every step. \<open>S\<close> are the starred zeros; \<open>u\<close> and \<open>v\<close> are what has been subtracted
  from the rows and columns of the distances \<open>A\<close>, \<open>T\<close> is the sum of what step 5 has subtracted, and \<open>K\<close> bounds the
  distances. A row or column without a starred zero has never been covered.\<close>

definition star_inv :: "nat \<Rightarrow> nat \<Rightarrow> (nat \<Rightarrow> nat \<Rightarrow> int) \<Rightarrow> int \<Rightarrow> mstate \<Rightarrow> (nat \<times> nat) set \<Rightarrow> (nat \<Rightarrow> int) \<Rightarrow> (nat \<Rightarrow> int) \<Rightarrow> int \<Rightarrow> bool" where
  "star_inv R C A K s S u v T \<longleftrightarrow>
     marks R C (mstar s) = S \<and> matching R C S \<and> length (mdist s) = R * C \<and> length (mstar s) = 32 \<and> length (mprime s) = 32 \<and>
     (\<forall>r < R. \<forall>c < C. A r c = ent R (mdist s) r c + u r + v c \<and> 0 \<le> ent R (mdist s) r c \<and> ent R (mdist s) r c \<le> K + T) \<and>
     (\<forall>r c. (r, c) \<in> S \<longrightarrow> ent R (mdist s) r c = 0) \<and> 0 \<le> T \<and>
     (\<forall>r < R. \<forall>c < C. r \<notin> fst ` S \<longrightarrow> c \<notin> snd ` S \<longrightarrow> ent R (mdist s) r c + T \<le> K) \<and>
     (R \<le> C \<longrightarrow> (\<forall>c < C. c \<notin> snd ` S \<longrightarrow> (\<forall>c' < C. v c' \<le> v c))) \<and>
     (C < R \<longrightarrow> (\<forall>r < R. r \<notin> fst ` S \<longrightarrow> (\<forall>r' < R. u r' \<le> u r)))"

text \<open>What holds in steps 3 and 5. \<open>L\<close> lists the covered rows as they were covered: a covered row has a
  starred zero in a column that is not covered and one primed zero, and a starred zero in the column of the primed
  zero lies in a row that was covered before.\<close>

definition cover_inv :: "nat \<Rightarrow> nat \<Rightarrow> int list \<Rightarrow> (nat \<times> nat) set \<Rightarrow> (nat \<times> nat) set \<Rightarrow> nat set \<Rightarrow> nat set \<Rightarrow> nat list \<Rightarrow> bool" where
  "cover_inv R C md S P CR CC L \<longleftrightarrow>
     distinct L \<and> set L = CR \<and> CR \<subseteq> fst ` S \<and> CC \<subseteq> snd ` S \<and> (\<forall>r c. (r, c) \<in> S \<longrightarrow> (r \<in> CR \<longleftrightarrow> c \<notin> CC)) \<and>
     fst ` P = CR \<and> inj_on fst P \<and> (\<forall>r c. (r, c) \<in> P \<longrightarrow> c < C \<and> c \<notin> CC \<and> ent R md r c = 0) \<and>
     (\<forall>k < length L. \<forall>c r. (L ! k, c) \<in> P \<longrightarrow> (r, c) \<in> S \<longrightarrow> r \<in> set (take k L))"

lemma star_invD:
  assumes "star_inv R C A K s S u v T"
  shows "marks R C (mstar s) = S" "matching R C S" "length (mdist s) = R * C" "length (mstar s) = 32" "length (mprime s) = 32"
    "\<And>r c. r < R \<Longrightarrow> c < C \<Longrightarrow> A r c = ent R (mdist s) r c + u r + v c"
    "\<And>r c. r < R \<Longrightarrow> c < C \<Longrightarrow> 0 \<le> ent R (mdist s) r c" "\<And>r c. r < R \<Longrightarrow> c < C \<Longrightarrow> ent R (mdist s) r c \<le> K + T"
    "\<And>r c. (r, c) \<in> S \<Longrightarrow> ent R (mdist s) r c = 0" "0 \<le> T"
    "\<And>r c. r < R \<Longrightarrow> c < C \<Longrightarrow> r \<notin> fst ` S \<Longrightarrow> c \<notin> snd ` S \<Longrightarrow> ent R (mdist s) r c + T \<le> K"
    "\<And>c c'. R \<le> C \<Longrightarrow> c < C \<Longrightarrow> c \<notin> snd ` S \<Longrightarrow> c' < C \<Longrightarrow> v c' \<le> v c"
    "\<And>r r'. C < R \<Longrightarrow> r < R \<Longrightarrow> r \<notin> fst ` S \<Longrightarrow> r' < R \<Longrightarrow> u r' \<le> u r"
  using assms unfolding star_inv_def by (elim conjE; blast)+

lemma star_inv_cong:
  "mdist s' = mdist s \<Longrightarrow> mstar s' = mstar s \<Longrightarrow> length (mprime s') = 32 \<Longrightarrow> star_inv R C A K s S u v T \<Longrightarrow> star_inv R C A K s' S u v T"
  by (simp add: star_inv_def)

text \<open>More stars in the same rows and columns.\<close>

lemma star_inv_more:
  assumes s: "star_inv R C A K s S u v T" and S': "marks R C m = S'" "matching R C S'" "length m = 32" "fst ` S \<subseteq> fst ` S'" "snd ` S \<subseteq> snd ` S'"
    and zero: "\<And>r c. (r, c) \<in> S' \<Longrightarrow> ent R (mdist s) r c = 0" and p: "length p = 32"
  shows "star_inv R C A K (s\<lparr>mstar := m, mprime := p, crow := w\<rparr>) S' u v T"
proof -
  note d = star_invD [OF s]
  have out: "r \<notin> fst ` S' \<Longrightarrow> r \<notin> fst ` S" "c \<notin> snd ` S' \<Longrightarrow> c \<notin> snd ` S" for r c using S'(4,5) by blast+
  show ?thesis unfolding star_inv_def
    by (intro conjI allI impI) (simp_all add: S'(1-3) p zero d(3) d(6-8) d(10) d(11) d(12,13) out)
qed

lemma cover_invD:
  assumes "cover_inv R C md S P CR CC L"
  shows "distinct L" "set L = CR" "CR \<subseteq> fst ` S" "CC \<subseteq> snd ` S" "\<And>r c. (r, c) \<in> S \<Longrightarrow> r \<in> CR \<longleftrightarrow> c \<notin> CC" "fst ` P = CR" "inj_on fst P"
    "\<And>r c. (r, c) \<in> P \<Longrightarrow> c < C" "\<And>r c. (r, c) \<in> P \<Longrightarrow> c \<notin> CC" "\<And>r c. (r, c) \<in> P \<Longrightarrow> ent R md r c = 0"
    "\<And>k c r. k < length L \<Longrightarrow> (L ! k, c) \<in> P \<Longrightarrow> (r, c) \<in> S \<Longrightarrow> r \<in> set (take k L)"
  using assms by (auto simp: cover_inv_def)

lemma cover_start: "CC = snd ` S \<Longrightarrow> cover_inv R C md S {} {} CC []"
  by (force simp: cover_inv_def)

text \<open>The next step and what it may rely on.\<close>

fun match_inv :: "nat \<Rightarrow> nat \<Rightarrow> (nat \<Rightarrow> nat \<Rightarrow> int) \<Rightarrow> int \<Rightarrow> mpc \<Rightarrow> mstate \<Rightarrow> (nat \<times> nat) set \<Rightarrow> bool \<Rightarrow> bool" where
  "match_inv R C A K Step2a s S z \<longleftrightarrow> (\<exists>u v T. star_inv R C A K s S u v T) \<and> marks R C (mprime s) = {} \<and> bits R (crow s) = {} \<and>
     bits C (ccol s) \<subseteq> snd ` S"
| "match_inv R C A K Step2b s S z \<longleftrightarrow> (\<exists>u v T. star_inv R C A K s S u v T) \<and> marks R C (mprime s) = {} \<and> bits R (crow s) = {} \<and>
     bits C (ccol s) = snd ` S"
| "match_inv R C A K Step3 s S z \<longleftrightarrow> (\<exists>u v T. star_inv R C A K s S u v T) \<and> card S < min R C \<and>
     (\<exists>L. cover_inv R C (mdist s) S (marks R C (mprime s)) (bits R (crow s)) (bits C (ccol s)) L) \<and>
     (z \<longrightarrow> (\<exists>r c. r < R \<and> c < C \<and> ent R (mdist s) r c = 0 \<and> r \<notin> bits R (crow s) \<and> c \<notin> bits C (ccol s)))"
| "match_inv R C A K (Step4 r c) s S z \<longleftrightarrow> (\<exists>u v T. star_inv R C A K s S u v T) \<and> card S < min R C \<and>
     (\<exists>L P. cover_inv R C (mdist s) S P (bits R (crow s)) (bits C (ccol s)) L \<and> marks R C (mprime s) = insert (r, c) P) \<and>
     r < R \<and> c < C \<and> r \<notin> fst ` S \<and> r \<notin> bits R (crow s) \<and> c \<notin> bits C (ccol s) \<and> ent R (mdist s) r c = 0"
| "match_inv R C A K Step5 s S z \<longleftrightarrow> (\<exists>u v T. star_inv R C A K s S u v T) \<and> card S < min R C \<and>
     (\<exists>L. cover_inv R C (mdist s) S (marks R C (mprime s)) (bits R (crow s)) (bits C (ccol s)) L) \<and>
     (\<forall>r < R. \<forall>c < C. r \<notin> bits R (crow s) \<longrightarrow> c \<notin> bits C (ccol s) \<longrightarrow> ent R (mdist s) r c \<noteq> 0)"
| "match_inv R C A K Finished s S z \<longleftrightarrow> (\<exists>u v T. star_inv R C A K s S u v T) \<and> card S = min R C"
| "match_inv R C A K Nothing_uncovered s S z \<longleftrightarrow> False"

text \<open>Steps 2a and 2b.\<close>

lemma bits_fold_cover:
  assumes "C \<le> 32" "set cols \<subseteq> {..<C}"
  shows "bits C (fold (\<lambda>col cc. if P col then SET1 cc col else cc) cols w) = bits C w \<union> {c \<in> set cols. P c}"
  using assms(2)
proof (induction cols arbitrary: w)
  case (Cons col cols)
  then show ?case using assms(1) by (cases "P col") auto
qed simp

lemma step2a_ok:
  assumes "match_inv R C A K Step2a s S z" "C < 32"
  shows "match_inv R C A K Step2b (step2a R C s) S z'"
proof -
  obtain u v T where si: "star_inv R C A K s S u v T" using assms(1) by auto
  let ?P = "\<lambda>col. find (\<lambda>row. GET2 (mstar s) row col) [0..<R] \<noteq> None"
  have "{c \<in> set [0..<C]. ?P c} = snd ` S"
    unfolding star_invD(1) [OF si, symmetric] by (force simp: find_upt_None marks_def)
  then have "bits C (ccol (step2a R C s)) = snd ` S"
  proof -
    have "bits C (ccol (step2a R C s)) = bits C (ccol s) \<union> {c \<in> set [0..<C]. ?P c}"
      using bits_fold_cover [of C "[0..<C]" ?P "ccol s"] assms(2) by (simp add: step2a_def subset_iff)
    then show ?thesis using \<open>{c \<in> set [0..<C]. ?P c} = snd ` S\<close> assms(1) by (metis Un_absorb1 match_inv.simps(1))
  qed
  moreover have "star_inv R C A K (step2a R C s) S u v T"
    by (rule star_inv_cong [OF _ _ _ si]) (use star_invD(5) [OF si] in \<open>simp_all add: step2a_def\<close>)
  ultimately show ?thesis using assms(1) by (auto simp: step2a_def)
qed

lemma step2b_ok:
  assumes "match_inv R C A K Step2b s S z"
  shows "match_inv R C A K (step2b C (min R C) s) s S False"
proof -
  obtain u v T where si: "star_inv R C A K s S u v T" using assms by auto
  have "set (filter (GET1 (ccol s)) [0..<C]) = bits C (ccol s)" by (auto simp: bits_def)
  then have "length (filter (GET1 (ccol s)) [0..<C]) = card (snd ` S)"
    using assms by (metis distinct_card distinct_filter distinct_upt match_inv.simps(2))
  then have n: "length (filter (GET1 (ccol s)) [0..<C]) = card S" using matching_cards(2) [OF star_invD(2) [OF si]] by simp
  have "card S \<le> min R C" using matching_cards(5,6) [OF star_invD(2) [OF si]] by simp
  then show ?thesis using assms n cover_start [of "bits C (ccol s)" S R C "mdist s"] by (auto simp: step2b_def)
qed

section \<open>Step 3\<close>

definition phase :: "nat \<Rightarrow> nat \<Rightarrow> (nat \<Rightarrow> nat \<Rightarrow> int) \<Rightarrow> int \<Rightarrow> mstate \<Rightarrow> (nat \<times> nat) set \<Rightarrow> bool" where
  "phase R C A K s S \<longleftrightarrow> R < 32 \<and> C < 32 \<and> (\<exists>u v T. star_inv R C A K s S u v T) \<and> card S < min R C \<and>
     (\<exists>L. cover_inv R C (mdist s) S (marks R C (mprime s)) (bits R (crow s)) (bits C (ccol s)) L)"

definition no_zero :: "nat \<Rightarrow> mstate \<Rightarrow> nat \<Rightarrow> bool" where
  "no_zero R s c \<longleftrightarrow> GET1 (ccol s) c \<or> (\<forall>r < R. r \<notin> bits R (crow s) \<longrightarrow> ent R (mdist s) r c \<noteq> 0)"

text \<open>A primed zero in a row with a starred zero: the row is covered, the column of the star is not any more.\<close>

lemma cover_more:
  assumes ci: "cover_inv R C md S P CR CC L" and S: "matching R C S" and star: "(r, c') \<in> S"
    and rc: "c < C" "r \<notin> CR" "c \<notin> CC" "ent R md r c = 0"
  shows "cover_inv R C md S (insert (r, c) P) (insert r CR) (CC - {c'}) (L @ [r])"
proof -
  note d = cover_invD [OF ci]
  have one: "(a, c') \<in> S \<Longrightarrow> a = r" "(r, b) \<in> S \<Longrightarrow> b = c'" for a b
    using S star unfolding matching_def inj_on_def by (metis fst_conv snd_conv)+
  have last: "a \<in> CR" if "(a, c) \<in> S" for a using d(5) [OF that] rc(3) by simp
  have "\<forall>k < length (L @ [r]). \<forall>b a. ((L @ [r]) ! k, b) \<in> insert (r, c) P \<longrightarrow> (a, b) \<in> S \<longrightarrow> a \<in> set (take k (L @ [r]))"
  proof (intro allI impI)
    fix k b a assume k: "k < length (L @ [r])" "((L @ [r]) ! k, b) \<in> insert (r, c) P" "(a, b) \<in> S"
    show "a \<in> set (take k (L @ [r]))"
    proof (cases "k < length L")
      case True
      then have "L ! k \<in> CR" using d(2) by auto
      then have "(L ! k, b) \<in> P" using k(2) True rc(2) by (auto simp: nth_append)
      then show ?thesis using d(11) [OF True _ k(3)] True by simp
    next
      case False
      then have "k = length L" "b = c" using k(1,2) rc(2) d(6) by (force simp: nth_append)+
      then show ?thesis using last k(3) d(2) by simp
    qed
  qed
  moreover have "\<forall>a b. (a, b) \<in> S \<longrightarrow> (a \<in> insert r CR \<longleftrightarrow> b \<notin> CC - {c'})" using d(5) one by blast
  moreover have "inj_on fst (insert (r, c) P)" using d(6,7) rc(2) by (force simp: inj_on_def)
  moreover have "r \<in> fst ` S" using star by force
  ultimately show ?thesis using d rc unfolding cover_inv_def by auto
qed

lemma step3_col_ok:
  assumes ph: "phase R C A K s S" and col: "col < C"
  shows "(step3_col R C col s = (s, False, None) \<and> no_zero R s col) \<or>
    (\<exists>r s'. step3_col R C col s = (s', True, Some (r, col)) \<and> match_inv R C A K (Step4 r col) s' S True) \<or>
    (\<exists>s'. step3_col R C col s = (s', True, None) \<and> phase R C A K s' S \<and> bits R (crow s) \<subset> bits R (crow s') \<and> mdist s' = mdist s)"
proof (cases "step3_col R C col s = (s, False, None) \<and> no_zero R s col")
  case False
  obtain u v T L where si: "star_inv R C A K s S u v T" and n: "R \<le> 32" "C \<le> 32" "card S < min R C"
    and ci: "cover_inv R C (mdist s) S (marks R C (mprime s)) (bits R (crow s)) (bits C (ccol s)) L" using ph by (auto simp: phase_def)
  note d = star_invD [OF si]
  from False have cc: "\<not> GET1 (ccol s) col" by (auto simp: step3_col_def no_zero_def)
  from False obtain r where r: "find (\<lambda>row. mdist s ! (row + R * col) = 0 \<and> \<not> GET1 (crow s) row) [0..<R] = Some r"
    using cc by (cases "find (\<lambda>row. mdist s ! (row + R * col) = 0 \<and> \<not> GET1 (crow s) row) [0..<R]")
      (auto simp: step3_col_def no_zero_def find_upt_None ent_def bits_def)
  have rr: "r < R" "ent R (mdist s) r col = 0" "r \<notin> bits R (crow s)" "col \<notin> bits C (ccol s)"
    using find_upt_Some [OF r] cc by (auto simp: ent_def bits_def)
  let ?s = "s\<lparr>mprime := SET2 (mprime s) r col\<rparr>"
  have pr: "marks R C (SET2 (mprime s) r col) = insert (r, col) (marks R C (mprime s))" using d(5) rr(1) col n by simp
  have si': "star_inv R C A K ?s S u v T" by (rule star_inv_cong [OF _ _ _ si]) (use d(5) in simp_all)
  show ?thesis
  proof (cases "find (GET2 (mstar s) r) [0..<C]")
    case None
    then have "r \<notin> fst ` S" unfolding d(1) [symmetric] by (auto simp: find_upt_None marks_def)
    then have "match_inv R C A K (Step4 r col) ?s S True" using si' n(3) ci pr rr col by auto
    moreover have "step3_col R C col s = (?s, True, Some (r, col))" using cc r None by (simp add: step3_col_def)
    ultimately show ?thesis by blast
  next
    case (Some c')
    then have star: "(r, c') \<in> S" "c' < C" unfolding d(1) [symmetric] using find_upt_Some [OF Some] rr(1) by (auto simp: marks_def)
    let ?s' = "?s\<lparr>crow := SET1 (crow s) r, ccol := CLEAR1 (ccol s) c'\<rparr>"
    have "star_inv R C A K ?s' S u v T" by (rule star_inv_cong [OF _ _ _ si']) (use d(5) in simp_all)
    moreover have "cover_inv R C (mdist s) S (insert (r, col) (marks R C (mprime s))) (insert r (bits R (crow s))) (bits C (ccol s) - {c'}) (L @ [r])"
      by (rule cover_more [OF ci d(2) star(1) col rr(3,4,2)])
    ultimately have "phase R C A K ?s' S" using ph pr rr(1) star(2) n by (auto simp: phase_def)
    moreover have "bits R (crow s) \<subset> bits R (crow ?s')" using rr(1,3) n(1) by auto
    moreover have "step3_col R C col s = (?s', True, None)" using cc r Some by (simp add: step3_col_def Let_def)
    ultimately show ?thesis by auto
  qed
qed simp

text \<open>A pass over the columns ends with a zero for step 4, or has covered a row, or has found no zero.\<close>

lemma step3_cols_ok:
  assumes "phase R C A K s S" "set cols \<subseteq> {..<C}"
  shows "(\<exists>r c s'. step3_cols R C cols z s = (s', True, Some (r, c)) \<and> match_inv R C A K (Step4 r c) s' S True) \<or>
    (\<exists>s'. step3_cols R C cols z s = (s', True, None) \<and> phase R C A K s' S \<and> bits R (crow s) \<subset> bits R (crow s') \<and> mdist s' = mdist s) \<or>
    (step3_cols R C cols z s = (s, z, None) \<and> (\<forall>c \<in> set cols. no_zero R s c))"
  using assms
proof (induction cols arbitrary: z s)
  case (Cons col cols)
  have col: "col < C" "set cols \<subseteq> {..<C}" using Cons.prems(2) by auto
  from step3_col_ok [OF Cons.prems(1) col(1)] consider
    (none) "step3_col R C col s = (s, False, None)" "no_zero R s col"
    | (four) r s' where "step3_col R C col s = (s', True, Some (r, col))" "match_inv R C A K (Step4 r col) s' S True"
    | (more) s' where "step3_col R C col s = (s', True, None)" "phase R C A K s' S" "bits R (crow s) \<subset> bits R (crow s')" "mdist s' = mdist s"
    by blast
  then show ?case
  proof cases
    case none
    then show ?thesis using Cons.IH [OF Cons.prems(1) col(2), of z] by auto
  next
    case four
    then show ?thesis by auto
  next
    case more
    then have eq: "step3_cols R C (col # cols) z s = step3_cols R C cols True s'" by simp
    show ?thesis unfolding eq using Cons.IH [OF more(2) col(2), of True] more by (metis psubset_trans)
  qed
qed simp

lemma step3_ok:
  assumes "phase R C A K s S" "R - card (bits R (crow s)) < k"
  shows "\<exists>pc s'. step3 k R C s = Inr (pc, s') \<and> match_inv R C A K pc s' S True \<and> ((\<exists>r c. pc = Step4 r c) \<or>
    pc = Step5 \<and> phase R C A K s' S \<and> (bits R (crow s) \<subset> bits R (crow s') \<or> bits R (crow s) = bits R (crow s') \<and> (\<forall>c < C. no_zero R s c)))"
  using assms
proof (induction k arbitrary: s)
  case (Suc k)
  have "set [0..<C] \<subseteq> {..<C}" by auto
  from step3_cols_ok [OF Suc.prems(1) this, of False] consider
    (four) r c s' where "step3_cols R C [0..<C] False s = (s', True, Some (r, c))" "match_inv R C A K (Step4 r c) s' S True"
    | (more) s' where "step3_cols R C [0..<C] False s = (s', True, None)" "phase R C A K s' S" "bits R (crow s) \<subset> bits R (crow s')"
    | (none) "step3_cols R C [0..<C] False s = (s, False, None)" "\<forall>c \<in> set [0..<C]. no_zero R s c" by blast
  then show ?case
  proof cases
    case four
    then show ?thesis by auto
  next
    case more
    have "card (bits R (crow s)) < card (bits R (crow s'))" "card (bits R (crow s')) \<le> R"
      using more(3) psubset_card_mono card_mono [of "{..<R}" "bits R (crow s')"] by (auto simp: bits_def)
    then have "R - card (bits R (crow s')) < k" using Suc.prems(2) by linarith
    then obtain pc s2 where "step3 k R C s' = Inr (pc, s2)" "match_inv R C A K pc s2 S True"
      "(\<exists>r c. pc = Step4 r c) \<or> pc = Step5 \<and> phase R C A K s2 S \<and> bits R (crow s') \<subseteq> bits R (crow s2)"
      using Suc.IH [OF more(2)] by blast
    moreover have "step3 (Suc k) R C s = step3 k R C s'" using more(1) by simp
    ultimately show ?thesis using more(3) by (metis psubset_subset_trans)
  next
    case none
    then have "match_inv R C A K Step5 s S True" using Suc.prems(1) by (auto simp: phase_def no_zero_def bits_def)
    then show ?thesis using none Suc.prems(1) by auto
  qed
qed simp

section \<open>Step 5\<close>

lemma fold_least:
  fixes v :: int
  shows "fold (\<lambda>v h. if v < h then v else h) vs v \<in> set (v # vs) \<and> (\<forall>x \<in> set (v # vs). fold (\<lambda>v h. if v < h then v else h) vs v \<le> x)"
proof (induction vs arbitrary: v)
  case (Cons a vs)
  show ?case using Cons.IH [of a] Cons.IH [of v] by (cases "a < v") force+
qed simp

lemma uncovered_set:
  "set (uncovered R C s) = {ent R (mdist s) r c |r c. r < R \<and> c < C \<and> r \<notin> bits R (crow s) \<and> c \<notin> bits C (ccol s)}"
  by (auto simp: uncovered_def ent_def bits_def split: if_splits) (blast, fastforce)

lemma missing_index: "card X < n \<Longrightarrow> X \<subseteq> {..<n} \<Longrightarrow> \<exists>i < n. i \<notin> (X :: nat set)"
proof (rule ccontr)
  assume "card X < n" "X \<subseteq> {..<n}" "\<not> (\<exists>i < n. i \<notin> X)"
  then have "X = {..<n}" by auto
  then show False using \<open>card X < n\<close> by simp
qed

lemma chk_all_map: "(\<And>i. i < n \<Longrightarrow> int32 (f i)) \<Longrightarrow> chk_all (map f [0..<n]) = Inr (map f [0..<n])"
  by (auto simp: chk_all_def)

text \<open>The weights after step 5.\<close>

lemma star_inv_shift:
  assumes si: "star_inv R C A K s S u v T" and CR: "CR \<subseteq> fst ` S" and CC: "CC \<subseteq> snd ` S" and cov: "\<And>r c. (r, c) \<in> S \<Longrightarrow> r \<in> CR \<longleftrightarrow> c \<notin> CC"
    and h: "0 \<le> h" "\<And>r c. r < R \<Longrightarrow> c < C \<Longrightarrow> r \<notin> CR \<Longrightarrow> c \<notin> CC \<Longrightarrow> h \<le> ent R (mdist s) r c"
    and md: "length md = R * C"
      "\<And>r c. r < R \<Longrightarrow> c < C \<Longrightarrow> ent R md r c = ent R (mdist s) r c + (if r \<in> CR then h else 0) - (if c \<in> CC then 0 else h)"
  shows "star_inv R C A K (s\<lparr>mdist := md\<rparr>) S (\<lambda>r. u r - (if r \<in> CR then h else 0)) (\<lambda>c. v c + (if c \<in> CC then 0 else h)) (T + h)"
proof -
  note d = star_invD [OF si]
  have S: "r < R \<and> c < C" if "(r, c) \<in> S" for r c using that d(2) by (auto simp: matching_def)
  have out: "r \<notin> fst ` S \<Longrightarrow> r \<notin> CR" "c \<notin> snd ` S \<Longrightarrow> c \<notin> CC" for r c using CR CC by blast+
  have low: "0 \<le> ent R md r c" if "r < R" "c < C" for r c using md(2) [OF that] d(7) [OF that] h(1) h(2) [OF that] by auto
  have high: "ent R md r c \<le> K + (T + h)" if "r < R" "c < C" for r c using md(2) [OF that] d(8) [OF that] h(1) by auto
  have w: "A r c = ent R md r c + (u r - (if r \<in> CR then h else 0)) + (v c + (if c \<in> CC then 0 else h))" if "r < R" "c < C" for r c
    using md(2) [OF that] d(6) [OF that] by simp
  have zero: "ent R md r c = 0" if "(r, c) \<in> S" for r c using md(2) [of r c] S [OF that] cov [OF that] d(9) [OF that] by auto
  have free: "ent R md r c + (T + h) \<le> K" if "r < R" "c < C" "r \<notin> fst ` S" "c \<notin> snd ` S" for r c
    using md(2) [OF that(1,2)] d(11) [OF that] out that by simp
  have v: "v c' + (if c' \<in> CC then 0 else h) \<le> v c + (if c \<in> CC then 0 else h)" if "R \<le> C" "c < C" "c \<notin> snd ` S" "c' < C" for c c'
    using d(12) [OF that] out(2) [OF that(3)] h(1) by simp
  have u: "u r' - (if r' \<in> CR then h else 0) \<le> u r - (if r \<in> CR then h else 0)" if "C < R" "r < R" "r \<notin> fst ` S" "r' < R" for r r'
    using d(13) [OF that] out(1) [OF that(3)] h(1) by simp
  show ?thesis unfolding star_inv_def
    using d(1,2,4,5,10) md(1) h(1) w low high zero free u v by (intro conjI allI impI) auto
qed

lemma step5_shift:
  assumes m: "\<And>r c. r < R \<Longrightarrow> c < C \<Longrightarrow> 0 \<le> ent R m r c \<and> ent R m r c + h \<le> 2147483647" and h: "0 \<le> h"
  shows "\<exists>md1 md. chk_all (map (\<lambda>i. if GET1 w (i mod R) then m ! i + h else m ! i) [0..<R * C]) = Inr md1 \<and>
    chk_all (map (\<lambda>i. if GET1 w' (i div R) then md1 ! i else md1 ! i - h) [0..<R * C]) = Inr md \<and> length md = R * C \<and>
    (\<forall>r < R. \<forall>c < C. ent R md r c = ent R m r c + (if r \<in> bits R w then h else 0) - (if c \<in> bits C w' then 0 else h))"
proof -
  let ?f1 = "\<lambda>k. if GET1 w (k mod R) then m ! k + h else m ! k"
  let ?md1 = "map ?f1 [0..<R * C]"
  let ?f2 = "\<lambda>k. if GET1 w' (k div R) then ?md1 ! k else ?md1 ! k - h"
  have f1: "?f1 k = ent R m r c + (if r \<in> bits R w then h else 0)" and f2: "?f2 k = ?f1 k - (if c \<in> bits C w' then 0 else h)"
    if "r < R" "c < C" "k = r + R * c" for r c k
    using ent_map(2,3) [OF that(1,2)] index_less [OF that(1,2)] that by (simp_all add: ent_def bits_def)
  have range: "int32 (?f1 k) \<and> int32 (?f2 k)" if k: "k < R * C" for k
  proof -
    obtain r c where rc: "r < R" "c < C" "k = r + R * c" using index_split [OF k] by blast
    show ?thesis using f1 [OF rc] f2 [OF rc] m [OF rc(1,2)] h by (auto simp: INT_MIN_def INT_MAX_def)
  qed
  have "chk_all ?md1 = Inr ?md1" "chk_all (map ?f2 [0..<R * C]) = Inr (map ?f2 [0..<R * C])"
    by (rule chk_all_map, use range in blast)+
  moreover have "ent R (map ?f2 [0..<R * C]) r c = ent R m r c + (if r \<in> bits R w then h else 0) - (if c \<in> bits C w' then 0 else h)"
    if "r < R" "c < C" for r c
    using ent_map(1) [OF that, of ?f2] f1 [OF that refl] f2 [OF that refl] by simp
  ultimately show ?thesis by (intro exI [of _ ?md1] exI [of _ "map ?f2 [0..<R * C]"]) simp
qed

lemma step5_ok:
  assumes inv: "match_inv R C A K Step5 s S z" and n: "R < 32" "C < 32" and K: "K \<le> 1073741823"
  shows "\<exists>s'. step5 R C s = Inr (Step3, s') \<and> match_inv R C A K Step3 s' S True \<and> phase R C A K s' S \<and> crow s' = crow s \<and> ccol s' = ccol s"
proof -
  let ?CR = "bits R (crow s)" and ?CC = "bits C (ccol s)" and ?e = "ent R (mdist s)"
  obtain u v T L where si: "star_inv R C A K s S u v T" and card: "card S < min R C"
    and ci: "cover_inv R C (mdist s) S (marks R C (mprime s)) ?CR ?CC L"
    and nz: "\<And>r c. r < R \<Longrightarrow> c < C \<Longrightarrow> r \<notin> ?CR \<Longrightarrow> c \<notin> ?CC \<Longrightarrow> ?e r c \<noteq> 0" using inv by auto
  note d = star_invD [OF si] and e = cover_invD [OF ci] and m = matching_cards [OF star_invD(2) [OF si]]
  obtain i where i: "i < R" "i \<notin> fst ` S" using missing_index [OF _ m(3)] m(1) card by auto
  obtain j where j: "j < C" "j \<notin> snd ` S" using missing_index [OF _ m(4)] m(2) card by auto
  have ij: "i \<notin> ?CR" "j \<notin> ?CC" using i(2) j(2) e(3,4) by blast+
  then have "?e i j \<in> set (uncovered R C s)" using i(1) j(1) unfolding uncovered_set by blast
  then obtain w ws where ws: "uncovered R C s = w # ws" by (cases "uncovered R C s") auto
  define h where "h = fold (\<lambda>v h. if v < h then v else h) ws w"
  have "h \<in> set (uncovered R C s)" and least: "\<And>x. x \<in> set (uncovered R C s) \<Longrightarrow> h \<le> x" using fold_least [of ws w] ws by (auto simp: h_def)
  then obtain r0 c0 where h0: "r0 < R" "c0 < C" "r0 \<notin> ?CR" "c0 \<notin> ?CC" "h = ?e r0 c0" unfolding uncovered_set by blast
  have hp: "0 < h" using nz [OF h0(1-4)] d(7) [OF h0(1,2)] h0(5) by simp
  have hl: "h \<le> ?e r c" if "r < R" "c < C" "r \<notin> ?CR" "c \<notin> ?CC" for r c using least uncovered_set [of R C s] that by blast
  have hT: "h + T \<le> K" using hl [OF i(1) j(1) ij] d(11) [OF i(1) j(1) i(2) j(2)] by simp
  have range: "0 \<le> ?e r c \<and> ?e r c + h \<le> 2147483647" if "r < R" "c < C" for r c using d(7,8) [OF that] hT K by simp
  obtain md1 md where md: "chk_all (map (\<lambda>i. if GET1 (crow s) (i mod R) then mdist s ! i + h else mdist s ! i) [0..<R * C]) = Inr md1"
    "chk_all (map (\<lambda>i. if GET1 (ccol s) (i div R) then md1 ! i else md1 ! i - h) [0..<R * C]) = Inr md" "length md = R * C"
    "\<forall>r < R. \<forall>c < C. ent R md r c = ?e r c + (if r \<in> ?CR then h else 0) - (if c \<in> ?CC then 0 else h)"
    using step5_shift [where R = R and C = C and m = "mdist s" and h = h and w = "crow s" and w' = "ccol s", OF range less_imp_le [OF hp]] by blast
  have si': "star_inv R C A K (s\<lparr>mdist := md\<rparr>) S (\<lambda>r. u r - (if r \<in> ?CR then h else 0)) (\<lambda>c. v c + (if c \<in> ?CC then 0 else h)) (T + h)"
    by (rule star_inv_shift [OF si e(3,4,5) _ hl md(3)]) (use hp md(4) in auto)
  have "step5 R C s = Inr (Step3, s\<lparr>mdist := md\<rparr>)"
    unfolding step5_def ws list.case Let_def h_def [symmetric] using md(1,2) by simp
  moreover have "ent R md r c = 0" if p: "(r, c) \<in> marks R C (mprime s)" for r c
  proof -
    have "r < R" "c < C" using p by (auto simp: marks_def)
    moreover have "r \<in> ?CR" using p e(6) by force
    ultimately show ?thesis using md(4) e(9,10) [OF p] by simp
  qed
  then have "cover_inv R C md S (marks R C (mprime s)) ?CR ?CC L" using ci unfolding cover_inv_def by blast
  moreover have "ent R md r0 c0 = 0" using md(4) h0 by simp
  ultimately show ?thesis using si' card h0(1-4) n unfolding phase_def
    by (intro exI [of _ "s\<lparr>mdist := md\<rparr>"]) auto
qed

section \<open>Step 4\<close>

text \<open>The alternating path from a primed zero. The marks \<open>N\<close> are a matching but for the column \<open>cs\<close>, which has a
  new mark and maybe still a starred zero; the rows \<open>take k L\<close> have not been visited.\<close>

definition path_inv :: "nat \<Rightarrow> nat \<Rightarrow> int list \<Rightarrow> (nat \<times> nat) set \<Rightarrow> nat list \<Rightarrow> nat \<Rightarrow> nat \<Rightarrow> (nat \<times> nat) set \<Rightarrow> bool" where
  "path_inv R C md S L k cs N \<longleftrightarrow>
     N \<subseteq> {..<R} \<times> {..<C} \<and> (\<forall>r c. (r, c) \<in> N \<longrightarrow> ent R md r c = 0) \<and> inj_on fst N \<and>
     (\<exists>a. (a, cs) \<in> N - S \<and> (\<forall>r. (r, cs) \<in> N \<longrightarrow> r = a \<or> (r, cs) \<in> S)) \<and>
     (\<forall>r r' c. (r, c) \<in> N \<longrightarrow> (r', c) \<in> N \<longrightarrow> c \<noteq> cs \<longrightarrow> r = r') \<and>
     (\<forall>i < k. \<forall>c. (L ! i, c) \<in> N \<longleftrightarrow> (L ! i, c) \<in> S) \<and> (\<forall>r. (r, cs) \<in> S \<longrightarrow> r \<in> set (take k L)) \<and>
     (\<forall>r c. (r, c) \<in> N - S \<longrightarrow> c \<noteq> cs \<longrightarrow> (\<exists>j. k \<le> j \<and> j < length L \<and> (L ! j, c) \<in> S)) \<and>
     snd ` S \<subseteq> snd ` N \<and> fst ` S \<subseteq> fst ` N \<and> card N = Suc (card S)"

lemma path_invD:
  assumes "path_inv R C md S L k cs N"
  shows "N \<subseteq> {..<R} \<times> {..<C}" "\<And>r c. (r, c) \<in> N \<Longrightarrow> ent R md r c = 0" "inj_on fst N"
    "\<exists>a. (a, cs) \<in> N - S \<and> (\<forall>r. (r, cs) \<in> N \<longrightarrow> r = a \<or> (r, cs) \<in> S)"
    "\<And>r r' c. (r, c) \<in> N \<Longrightarrow> (r', c) \<in> N \<Longrightarrow> c \<noteq> cs \<Longrightarrow> r = r'"
    "\<And>i c. i < k \<Longrightarrow> (L ! i, c) \<in> N \<longleftrightarrow> (L ! i, c) \<in> S" "\<And>r. (r, cs) \<in> S \<Longrightarrow> r \<in> set (take k L)"
    "\<And>r c. (r, c) \<in> N \<Longrightarrow> (r, c) \<notin> S \<Longrightarrow> c \<noteq> cs \<Longrightarrow> \<exists>j. k \<le> j \<and> j < length L \<and> (L ! j, c) \<in> S"
    "snd ` S \<subseteq> snd ` N" "fst ` S \<subseteq> fst ` N" "card N = Suc (card S)"
proof -
  have h: "N \<subseteq> {..<R} \<times> {..<C}" "\<forall>r c. (r, c) \<in> N \<longrightarrow> ent R md r c = 0" "inj_on fst N"
    "\<exists>a. (a, cs) \<in> N - S \<and> (\<forall>r. (r, cs) \<in> N \<longrightarrow> r = a \<or> (r, cs) \<in> S)"
    "\<forall>r r' c. (r, c) \<in> N \<longrightarrow> (r', c) \<in> N \<longrightarrow> c \<noteq> cs \<longrightarrow> r = r'"
    "\<forall>i < k. \<forall>c. (L ! i, c) \<in> N \<longleftrightarrow> (L ! i, c) \<in> S" "\<forall>r. (r, cs) \<in> S \<longrightarrow> r \<in> set (take k L)"
    "\<forall>r c. (r, c) \<in> N - S \<longrightarrow> c \<noteq> cs \<longrightarrow> (\<exists>j. k \<le> j \<and> j < length L \<and> (L ! j, c) \<in> S)"
    "snd ` S \<subseteq> snd ` N" "fst ` S \<subseteq> fst ` N" "card N = Suc (card S)"
    using assms unfolding path_inv_def by - (elim conjE, assumption)+
  show "N \<subseteq> {..<R} \<times> {..<C}" "\<And>r c. (r, c) \<in> N \<Longrightarrow> ent R md r c = 0" "inj_on fst N"
    "\<exists>a. (a, cs) \<in> N - S \<and> (\<forall>r. (r, cs) \<in> N \<longrightarrow> r = a \<or> (r, cs) \<in> S)"
    "\<And>i c. i < k \<Longrightarrow> (L ! i, c) \<in> N \<longleftrightarrow> (L ! i, c) \<in> S" "\<And>r. (r, cs) \<in> S \<Longrightarrow> r \<in> set (take k L)"
    "snd ` S \<subseteq> snd ` N" "fst ` S \<subseteq> fst ` N" "card N = Suc (card S)" using h(1-4,6,7,9-11) by simp_all
  show "\<And>r r' c. (r, c) \<in> N \<Longrightarrow> (r', c) \<in> N \<Longrightarrow> c \<noteq> cs \<Longrightarrow> r = r'" using h(5) by blast
  show "\<And>r c. (r, c) \<in> N \<Longrightarrow> (r, c) \<notin> S \<Longrightarrow> c \<noteq> cs \<Longrightarrow> \<exists>j. k \<le> j \<and> j < length L \<and> (L ! j, c) \<in> S" using h(8) by blast
qed

lemma path_start:
  assumes S: "matching R C S" and ci: "cover_inv R C md S P CR CC L" and rc: "r < R" "c < C" "r \<notin> fst ` S" "r \<notin> CR" "c \<notin> CC" "ent R md r c = 0"
    and zero: "\<And>r c. (r, c) \<in> S \<Longrightarrow> ent R md r c = 0"
  shows "path_inv R C md S L (length L) c (insert (r, c) S)"
proof -
  note e = cover_invD [OF ci]
  have new: "(r, b) \<notin> S" for b using rc(3) by force
  have L: "L ! i \<noteq> r" if "i < length L" for i using that e(2) rc(4) nth_mem by blast
  have one: "a = a'" if "(a, b) \<in> S" "(a', b) \<in> S" for a a' b using S that unfolding matching_def inj_on_def by fastforce
  have "a \<in> set L" if "(a, c) \<in> S" for a using e(2) e(5) [OF that] rc(5) by simp
  moreover have "card (insert (r, c) S) = Suc (card S)" using matching_finite [OF S] new by simp
  moreover have "inj_on fst (insert (r, c) S)" using S rc(3) by (auto simp: matching_def)
  moreover have "insert (r, c) S \<subseteq> {..<R} \<times> {..<C}" using S rc(1,2) by (auto simp: matching_def)
  ultimately show ?thesis unfolding path_inv_def using new L one rc(6) zero by (intro conjI) auto
qed

lemma path_next:
  assumes S: "matching R C S" and ci: "cover_inv R C md S P CR CC L" and pi: "path_inv R C md S L k cs N" and k: "k \<le> length L"
    and star: "(L ! j, cs) \<in> S" and j: "j < k" and prime: "(L ! j, c1) \<in> P"
  shows "path_inv R C md S L j c1 (insert (L ! j, c1) (N - {(L ! j, cs)}))"
proof -
  note e = cover_invD [OF ci] and p = path_invD [OF pi]
  let ?r = "L ! j" and ?N = "insert (L ! j, c1) (N - {(L ! j, cs)})"
  have jl: "j < length L" using j k by simp
  have oneS: "a = a'" if "(a, b) \<in> S" "(a', b) \<in> S" for a a' b using S that unfolding matching_def inj_on_def by fastforce
  have rowS: "b = b'" if "(a, b) \<in> S" "(a, b') \<in> S" for a b b' using S that unfolding matching_def inj_on_def by fastforce
  have rowN: "b = b'" if "(a, b) \<in> N" "(a, b') \<in> N" for a b b' using p(3) that unfolding inj_on_def by fastforce
  have before: "a \<in> set (take j L)" if "(a, c1) \<in> S" for a using e(11) [OF jl prime that] .
  have later: "L ! i \<notin> set (take j L)" if "j \<le> i" "i < length L" for i
    using e(1) that by (auto simp: in_set_conv_nth nth_eq_iff_index_eq)
  have c1: "c1 \<noteq> cs" using before [of ?r] star later [of j] jl by blast
  have inN: "(?r, cs) \<in> N" using p(6) [OF j] star by simp
  have notS: "(?r, c1) \<notin> S" using rowS star c1 by blast
  have empty: "(?r, b) \<notin> N - {(?r, cs)}" for b using rowN inN by blast
  have rows: "L ! i \<noteq> ?r" if "i < j" for i using e(1) that jl by (simp add: nth_eq_iff_index_eq)
  obtain a where a: "(a, cs) \<in> N" "(a, cs) \<notin> S" "\<And>r. (r, cs) \<in> N \<Longrightarrow> r = a \<or> (r, cs) \<in> S" using p(4) by blast
  have ar: "a \<noteq> ?r" using a(2) star by blast
  have "?r < R" using S star by (auto simp: matching_def)
  then have "?N \<subseteq> {..<R} \<times> {..<C}" using p(1) e(8) [OF prime] by auto
  moreover have "\<forall>r c. (r, c) \<in> ?N \<longrightarrow> ent R md r c = 0" using p(2) e(10) [OF prime] by blast
  moreover have "inj_on fst ?N" using p(3) empty by (force simp: inj_on_def)
  moreover have "(r, c1) \<in> S" if "(r, c1) \<in> N" for r
    using p(8) [OF that _ c1] before later that j by (meson le_trans less_imp_le)
  then have "\<exists>a. (a, c1) \<in> ?N - S \<and> (\<forall>r. (r, c1) \<in> ?N \<longrightarrow> r = a \<or> (r, c1) \<in> S)" using notS by blast
  moreover have "\<forall>r r' c. (r, c) \<in> ?N \<longrightarrow> (r', c) \<in> ?N \<longrightarrow> c \<noteq> c1 \<longrightarrow> r = r'"
  proof (intro allI impI)
    fix r r' c assume n: "(r, c) \<in> ?N" "(r', c) \<in> ?N" "c \<noteq> c1"
    then have m: "(r, c) \<in> N - {(?r, cs)}" "(r', c) \<in> N - {(?r, cs)}" by auto
    show "r = r'"
    proof (cases "c = cs")
      case True
      have only: "b = a" if "(b, cs) \<in> N - {(?r, cs)}" for b using a(3) [of b] oneS [OF _ star, of b] that by blast
      show ?thesis using only [of r] only [of r'] m True by simp
    qed (use m p(5) in blast)
  qed
  moreover have "\<forall>i < j. \<forall>c. (L ! i, c) \<in> ?N \<longleftrightarrow> (L ! i, c) \<in> S" using p(6) rows j by auto
  moreover have "\<forall>r c. (r, c) \<in> ?N - S \<longrightarrow> c \<noteq> c1 \<longrightarrow> (\<exists>i. j \<le> i \<and> i < length L \<and> (L ! i, c) \<in> S)"
  proof (intro allI impI)
    fix r c assume rc: "(r, c) \<in> ?N - S" "c \<noteq> c1"
    show "\<exists>i. j \<le> i \<and> i < length L \<and> (L ! i, c) \<in> S"
    proof (cases "c = cs")
      case True
      then show ?thesis using star jl by blast
    next
      case False
      have "(r, c) \<in> N" "(r, c) \<notin> S" using rc by auto
      then obtain i where "k \<le> i" "i < length L" "(L ! i, c) \<in> S" using p(8) False by blast
      then show ?thesis using j by (intro exI [of _ i]) simp
    qed
  qed
  moreover have "snd ` S \<subseteq> snd ` ?N"
  proof
    fix b assume "b \<in> snd ` S"
    then obtain r where "(r, b) \<in> N" using p(9) by (metis imageE prod.collapse subsetD)
    then show "b \<in> snd ` ?N" using a(1) ar by (cases "b = cs") force+
  qed
  moreover have "fst ` S \<subseteq> fst ` ?N"
  proof
    fix b assume "b \<in> fst ` S"
    then obtain c where "(b, c) \<in> N" using p(10) by (metis imageE prod.collapse subsetD)
    then show "b \<in> fst ` ?N" by (cases "b = ?r") force+
  qed
  moreover have "card ?N = Suc (card S)"
  proof -
    have fin: "finite N" using p(1) by (meson finite_SigmaI finite_lessThan finite_subset)
    have "card ?N = Suc (card (N - {(?r, cs)}))" using fin empty [of c1] by (intro card_insert_disjoint) auto
    also have "\<dots> = card N" by (rule card_Suc_Diff1 [OF fin inN])
    finally show ?thesis using p(11) by (rule trans)
  qed
  moreover have "\<forall>r. (r, c1) \<in> S \<longrightarrow> r \<in> set (take j L)" using before by blast
  ultimately show ?thesis unfolding path_inv_def by - (intro conjI; assumption)
qed

lemma path_end:
  assumes "path_inv R C md S L k cs N" "\<And>r. (r, cs) \<notin> S"
  shows "matching R C N"
proof -
  note p = path_invD [OF assms(1)]
  have "inj_on snd N"
  proof (rule inj_onI)
    fix x y assume x: "x \<in> N" "y \<in> N" "snd x = snd y"
    obtain r c where xc: "x = (r, c)" by force
    obtain r' where yc: "y = (r', c)" using x(3) xc by (cases y) auto
    have "r = r'" using p(4) p(5) [of r c r'] x xc yc assms(2) by (cases "c = cs") auto
    then show "x = y" using xc yc by simp
  qed
  then show ?thesis using p(1,3) by (simp add: matching_def)
qed

lemma step4_loop_ok:
  assumes S: "matching R C S" and ci: "cover_inv R C md S P CR CC L" and n: "R < 32" "C < 32"
    and star: "marks R C star = S" and prime: "marks R C prime = insert (r0, c0) P" "r0 \<notin> CR"
    and pi: "path_inv R C md S L k cs (marks R C nm)" and nm: "length nm = 32" and k: "k \<le> length L" "k < fuel" and cs: "cs < C"
  shows "\<exists>nm'. step4_loop fuel R C star prime cs nm = Inr nm' \<and> length nm' = 32 \<and> matching R C (marks R C nm') \<and>
    (\<forall>r c. (r, c) \<in> marks R C nm' \<longrightarrow> ent R md r c = 0) \<and> fst ` S \<subseteq> fst ` marks R C nm' \<and> snd ` S \<subseteq> snd ` marks R C nm' \<and>
    card (marks R C nm') = Suc (card S)"
  using pi nm k cs
proof (induction fuel arbitrary: k cs nm)
  case (Suc fuel)
  note p = path_invD [OF Suc.prems(1)] and e = cover_invD [OF ci]
  show ?case
  proof (cases "find (\<lambda>row. GET2 star row cs) [0..<R]")
    case None
    then have "(r, cs) \<notin> S" for r unfolding star [symmetric] by (auto simp: find_upt_None marks_def)
    from path_end [OF Suc.prems(1) this] show ?thesis using None p(2,9,10,11) Suc.prems(2) by auto
  next
    case (Some rs)
    have rs: "(rs, cs) \<in> S" unfolding star [symmetric] using find_upt_Some [OF Some] Suc.prems(5) by (simp add: marks_def)
    from p(7) [OF this] obtain j where j: "j < k" "L ! j = rs" "j < length L" by (auto simp: in_set_conv_nth)
    have rR: "rs < R" "rs \<in> CR" "rs \<noteq> r0" using rs S e(2) j prime(2) nth_mem [OF j(3)] by (auto simp: matching_def)
    then obtain c where "(rs, c) \<in> marks R C prime" using e(6) prime(1) by (metis imageE insertI2 prod.collapse)
    then have "find (GET2 prime rs) [0..<C] \<noteq> None" by (auto simp: find_upt_None marks_def)
    then obtain c1 where c1: "find (GET2 prime rs) [0..<C] = Some c1" by blast
    have "(rs, c1) \<in> marks R C prime" "c1 < C" using find_upt_Some [OF c1] rR(1) by (simp_all add: marks_def)
    then have pr: "(L ! j, c1) \<in> P" using prime(1) rR(3) j(2) by auto
    let ?nm = "SET2 (CLEAR2 nm rs cs) rs c1"
    have m: "marks R C ?nm = insert (L ! j, c1) (marks R C nm - {(L ! j, cs)})"
      using Suc.prems(2,5) rR(1) \<open>c1 < C\<close> n j(2) by simp
    have pi': "path_inv R C md S L j c1 (marks R C ?nm)"
      unfolding m by (rule path_next [OF S ci Suc.prems(1,3) _ j(1) pr]) (use rs j(2) in simp)
    have "step4_loop (Suc fuel) R C star prime cs nm = step4_loop fuel R C star prime c1 ?nm" using Some c1 by simp
    moreover have "length ?nm = 32" "j \<le> length L" "j < fuel" using Suc.prems(2,4) j by simp_all
    ultimately show ?thesis using Suc.IH [OF pi'] \<open>c1 < C\<close> by simp
  qed
qed simp

lemma step4_ok:
  assumes inv: "match_inv R C A K (Step4 r c) s S z" and n: "R < 32" "C < 32"
  shows "\<exists>s' S'. step4 R C r c s = Inr s' \<and> match_inv R C A K Step2a s' S' z' \<and> card S' = Suc (card S)"
proof -
  obtain u v T L P where si: "star_inv R C A K s S u v T"
    and ci: "cover_inv R C (mdist s) S P (bits R (crow s)) (bits C (ccol s)) L" and pr: "marks R C (mprime s) = insert (r, c) P"
    and rc: "r < R" "c < C" "r \<notin> fst ` S" "r \<notin> bits R (crow s)" "c \<notin> bits C (ccol s)" "ent R (mdist s) r c = 0"
    using inv by auto
  note d = star_invD [OF si] and e = cover_invD [OF ci]
  let ?nm = "SET2 (mstar s) r c"
  have m: "marks R C ?nm = insert (r, c) S" using d(1,4) rc(1,2) n by simp
  have pi: "path_inv R C (mdist s) S L (length L) c (marks R C ?nm)"
    unfolding m by (rule path_start [OF d(2) ci rc d(9)])
  have "length L \<le> R" using e(1,2) card_mono [of "{..<R}" "set L"] distinct_card [OF e(1)] by (auto simp: bits_def)
  then obtain nm' where nm: "step4_loop (Suc R) R C (mstar s) (mprime s) c ?nm = Inr nm'" "length nm' = 32" "matching R C (marks R C nm')"
    "\<forall>r c. (r, c) \<in> marks R C nm' \<longrightarrow> ent R (mdist s) r c = 0" "fst ` S \<subseteq> fst ` marks R C nm'" "snd ` S \<subseteq> snd ` marks R C nm'"
    "card (marks R C nm') = Suc (card S)"
    using step4_loop_ok [OF d(2) ci n d(1) pr rc(4) pi, of "Suc R"] d(4) rc(2) by auto
  have "star_inv R C A K (s\<lparr>mstar := nm', mprime := zero_mat, crow := 0\<rparr>) (marks R C nm') u v T"
    by (rule star_inv_more [OF si refl nm(3,2,5,6)]) (use nm(4) in auto)
  moreover have "step4 R C r c s = Inr (s\<lparr>mstar := nm', mprime := zero_mat, crow := 0\<rparr>)" using nm(1) by (simp add: step4_def)
  moreover have "bits C (ccol s) \<subseteq> snd ` marks R C nm'" using e(4) nm(6) by blast
  ultimately show ?thesis using nm(7) n by (intro exI [of _ "s\<lparr>mstar := nm', mprime := zero_mat, crow := 0\<rparr>"] exI [of _ "marks R C nm'"]) auto
qed

section \<open>The whole algorithm\<close>

text \<open>Every step is followed by one that is nearer to the end.\<close>

fun match_rank :: "nat \<Rightarrow> nat \<Rightarrow> mpc \<Rightarrow> mstate \<Rightarrow> (nat \<times> nat) set \<Rightarrow> bool \<Rightarrow> nat" where
  "match_rank R C Step2a s S z = (min R C - card S) * (2 * R + 6) + 2 * R + 6"
| "match_rank R C Step2b s S z = (min R C - card S) * (2 * R + 6) + 2 * R + 5"
| "match_rank R C Step3 s S z = (min R C - card S) * (2 * R + 6) + 2 * (R - card (bits R (crow s))) + (if z then 2 else 4)"
| "match_rank R C Step5 s S z = (min R C - card S) * (2 * R + 6) + 2 * (R - card (bits R (crow s))) + 3"
| "match_rank R C (Step4 r c) s S z = (min R C - card S) * (2 * R + 6) + 1"
| "match_rank R C pc s S z = 0"

lemma card_bits_le: "card (bits R w) \<le> R" "bits R w \<subset> bits R w' \<Longrightarrow> card (bits R w) < card (bits R w')"
  using card_mono [of "{..<R}" "bits R w"] psubset_card_mono [of "bits R w'" "bits R w"] by (auto simp: bits_def)

lemma match_step_ok:
  assumes inv: "match_inv R C A K pc s S z" and n: "R < 32" "C < 32" and K: "K \<le> 1073741823" and pc: "pc \<noteq> Finished"
  shows "\<exists>pc' s' S' z'. match_step R C (min R C) pc s = Inr (pc', s') \<and> match_inv R C A K pc' s' S' z' \<and>
    match_rank R C pc' s' S' z' < match_rank R C pc s S z"
proof (cases pc)
  case Step2a
  then have "match_inv R C A K Step2b (step2a R C s) S True" using step2a_ok [of R C A K s S z True] inv n by simp
  then show ?thesis using Step2a
    by (intro exI [of _ Step2b] exI [of _ "step2a R C s"] exI [of _ S] exI [of _ True]) (simp del: match_inv.simps)
next
  case Step2b
  have k: "bits R (crow s) = {}" using inv Step2b by simp
  have "match_rank R C (step2b C (min R C) s) s S False < match_rank R C Step2b s S z" using k by (simp add: step2b_def)
  then show ?thesis using step2b_ok [of R C A K s S z] inv Step2b
    by (intro exI [of _ "step2b C (min R C) s"] exI [of _ s] exI [of _ S] exI [of _ False]) simp
next
  case Step3
  have ph: "phase R C A K s S" using inv Step3 n by (simp add: phase_def)
  have z: "\<not> (\<forall>c < C. no_zero R s c)" if z using inv that Step3 by (auto simp: no_zero_def bits_def)
  obtain pc' s' where s': "step3 (Suc R) R C s = Inr (pc', s')" "match_inv R C A K pc' s' S True"
    "(\<exists>r c. pc' = Step4 r c) \<or> pc' = Step5 \<and> (bits R (crow s) \<subset> bits R (crow s') \<or> bits R (crow s) = bits R (crow s') \<and> (\<forall>c < C. no_zero R s c))"
    using step3_ok [OF ph, of "Suc R"] unfolding less_Suc_eq_le using diff_le_self by blast
  have "match_rank R C pc' s' S True < match_rank R C Step3 s S z"
    using s'(3)
  proof (elim disjE exE conjE)
    assume "pc' = Step5" "bits R (crow s) \<subset> bits R (crow s')"
    then have "card (bits R (crow s)) < card (bits R (crow s'))" "card (bits R (crow s')) \<le> R"
      using card_bits_le by blast+
    then have "2 * (R - card (bits R (crow s'))) + 2 \<le> 2 * (R - card (bits R (crow s)))" by linarith
    then show ?thesis using \<open>pc' = Step5\<close> by simp
  next
    assume "pc' = Step5" "bits R (crow s) = bits R (crow s')" "\<forall>c < C. no_zero R s c"
    then show ?thesis using z by auto
  qed simp
  then show ?thesis using s'(1,2) Step3 by (intro exI [of _ pc'] exI [of _ s'] exI [of _ S] exI [of _ True]) simp
next
  case (Step4 r c)
  obtain s' S' where s': "step4 R C r c s = Inr s'" "match_inv R C A K Step2a s' S' True" "card S' = Suc (card S)"
    using step4_ok [of R C A K r c s S z True] inv n Step4 by blast
  have "card S < min R C" using inv Step4 by simp
  then obtain D where D: "min R C - card S = Suc D" by (metis Suc_diff_Suc)
  then have "min R C - card S' = D" using s'(3) by simp
  then have "match_rank R C Step2a s' S' True < match_rank R C pc s S z" using Step4 D by simp
  then show ?thesis using s'(1,2) Step4 by (intro exI [of _ Step2a] exI [of _ s'] exI [of _ S'] exI [of _ True]) simp
next
  case Step5
  then obtain s' where "step5 R C s = Inr (Step3, s')" "match_inv R C A K Step3 s' S True" "crow s' = crow s"
    using step5_ok [of R C A K s S z] inv n K by blast
  then show ?thesis using Step5 by (intro exI [of _ Step3] exI [of _ s'] exI [of _ S] exI [of _ True]) simp
qed (use inv pc in auto)

lemma match_run_ok:
  assumes "match_inv R C A K pc s S z" "match_rank R C pc s S z \<le> k" and n: "R < 32" "C < 32" "K \<le> 1073741823"
  shows "\<exists>s' S'. match_run k R C (min R C) pc s = Inr (buildixvector (mstar s') R C (replicate R (-1))) \<and> match_inv R C A K Finished s' S' True"
  using assms(1,2)
proof (induction k arbitrary: pc s S z)
  case 0
  then have "pc = Finished" using match_step_ok [OF 0(1) n] by (metis le_zero_eq not_less_zero)
  then show ?case using 0(1) by (intro exI [of _ s] exI [of _ S]) simp
next
  case (Suc k)
  show ?case
  proof (cases "pc = Finished")
    case False
    obtain pc' s' S' z' where step: "match_step R C (min R C) pc s = Inr (pc', s')" "match_inv R C A K pc' s' S' z'"
      "match_rank R C pc' s' S' z' < match_rank R C pc s S z" using match_step_ok [OF Suc.prems(1) n False] by blast
    have "match_run (Suc k) R C (min R C) pc s = match_run k R C (min R C) pc' s'"
      using step(1) False Suc.prems(1) by (cases pc) (simp_all del: match_step.simps)
    then show ?thesis using Suc.IH [OF step(2)] step(3) Suc.prems(2) by simp
  qed (use Suc.prems in \<open>auto intro!: exI [of _ s] exI [of _ S]\<close>)
qed

section \<open>The start\<close>

lemma fold_least_map:
  fixes f :: "nat \<Rightarrow> int"
  shows "fold (\<lambda>i m. if f i < m then f i else m) is v \<in> insert v (f ` set is) \<and>
    (\<forall>x \<in> insert v (f ` set is). fold (\<lambda>i m. if f i < m then f i else m) is v \<le> x)"
proof -
  have "fold (\<lambda>i m. if f i < m then f i else m) is v = fold (\<lambda>v h. if v < h then v else h) (map f is) v"
    by (simp add: fold_map comp_def)
  then show ?thesis using fold_least [of "map f is" v] by simp
qed

lemma indices: "0 < n \<Longrightarrow> insert (f 0) (f ` set [1..<n]) = f ` {..<n}"
proof -
  assume "0 < n"
  then have "{..<n} = insert 0 (set [1..<n])" by auto
  then show ?thesis by simp
qed

lemma row_min_least:
  assumes "0 < C"
  shows "\<exists>c < C. row_min R C md r = ent R md r c" "c < C \<Longrightarrow> row_min R C md r \<le> ent R md r c"
proof -
  let ?f = "\<lambda>c. md ! (r + R * c)"
  note l = fold_least_map [of ?f "[1..<C]" "?f 0", unfolded indices [OF assms, of ?f]]
  show "\<exists>c < C. row_min R C md r = ent R md r c" using l by (auto simp: row_min_def ent_def)
  show "c < C \<Longrightarrow> row_min R C md r \<le> ent R md r c" using l by (auto simp: row_min_def ent_def)
qed

lemma col_min_least:
  assumes "0 < R"
  shows "\<exists>r < R. col_min R md c = ent R md r c" "r < R \<Longrightarrow> col_min R md c \<le> ent R md r c"
proof -
  let ?f = "\<lambda>r. md ! (r + R * c)"
  note l = fold_least_map [of ?f "[1..<R]" "?f 0", unfolded indices [OF assms, of ?f]]
  show "\<exists>r < R. col_min R md c = ent R md r c" using l by (auto simp: col_min_def ent_def)
  show "r < R \<Longrightarrow> col_min R md c \<le> ent R md r c" using l by (auto simp: col_min_def ent_def)
qed

text \<open>Subtracting the least elements.\<close>

lemma sub_ok:
  assumes "\<And>r c. r < R \<Longrightarrow> c < C \<Longrightarrow> 0 \<le> f (r + R * c) \<and> f (r + R * c) \<le> K" "K \<le> 1073741823"
  shows "chk_all (map f [0..<R * C]) = Inr (map f [0..<R * C])"
proof (rule chk_all_map)
  fix i assume "i < R * C"
  then obtain r c where "r < R" "c < C" "i = r + R * c" using index_split by blast
  then show "int32 (f i)" using assms by (force simp: INT_MIN_def INT_MAX_def)
qed

text \<open>The first stars: any zeros that share no row and no column.\<close>

definition first_stars :: "nat \<Rightarrow> nat \<Rightarrow> int list \<Rightarrow> mat_t \<Rightarrow> col_t \<Rightarrow> bool" where
  "first_stars R C md m cc \<longleftrightarrow> length m = 32 \<and> matching R C (marks R C m) \<and> (\<forall>r c. (r, c) \<in> marks R C m \<longrightarrow> ent R md r c = 0) \<and>
     bits C cc = snd ` marks R C m"

lemma matching_insert: "matching R C F \<Longrightarrow> r < R \<Longrightarrow> c < C \<Longrightarrow> r \<notin> fst ` F \<Longrightarrow> c \<notin> snd ` F \<Longrightarrow> matching R C (insert (r, c) F)"
  by (auto simp: matching_def)

lemma star_rows_ok:
  assumes "n \<le> R" "R < 32" "C < 32"
  shows "\<exists>m cc. fold (star_row R C md) [0..<n] (zero_mat, 0) = (m, cc) \<and> first_stars R C md m cc \<and> fst ` marks R C m \<subseteq> {..<n}"
  using assms(1)
proof (induction n)
  case 0
  then show ?case using assms by (simp add: first_stars_def matching_def)
next
  case (Suc n)
  then obtain m cc where m: "fold (star_row R C md) [0..<n] (zero_mat, 0) = (m, cc)" "first_stars R C md m cc" "fst ` marks R C m \<subseteq> {..<n}"
    by auto
  have f: "fold (star_row R C md) [0..<Suc n] (zero_mat, 0) = star_row R C md n (m, cc)" using m(1) by simp
  show ?case
  proof (cases "find (\<lambda>col. md ! (n + R * col) = 0 \<and> \<not> GET1 cc col) [0..<C]")
    case None
    then have "star_row R C md n (m, cc) = (m, cc)" by (simp add: star_row_def)
    moreover have "fst ` marks R C m \<subseteq> {..<Suc n}" using m(3) by auto
    ultimately show ?thesis unfolding f using m(2) by blast
  next
    case (Some c)
    then have c: "c < C" "ent R md n c = 0" "c \<notin> bits C cc" using find_upt_Some [OF Some] by (auto simp: ent_def bits_def)
    have "n < R" "n \<notin> fst ` marks R C m" using Suc.prems m(3) by auto
    then have "first_stars R C md (SET2 m n c) (SET1 cc c)"
      using m(2) c assms matching_insert [of R C "marks R C m" n c] unfolding first_stars_def by auto
    moreover have "star_row R C md n (m, cc) = (SET2 m n c, SET1 cc c)" using Some by (simp add: star_row_def)
    moreover have "fst ` marks R C (SET2 m n c) \<subseteq> {..<Suc n}"
      using m(2,3) c(1) \<open>n < R\<close> assms by (auto simp: first_stars_def)
    ultimately show ?thesis unfolding f by blast
  qed
qed

lemma star_cols_ok:
  assumes "n \<le> C" "R < 32" "C < 32"
  shows "\<exists>m cc cr. fold (star_col R md) [0..<n] (zero_mat, 0, 0) = (m, cc, cr) \<and> first_stars R C md m cc \<and>
    bits R cr = fst ` marks R C m \<and> snd ` marks R C m \<subseteq> {..<n}"
  using assms(1)
proof (induction n)
  case 0
  then show ?case using assms by (simp add: first_stars_def matching_def)
next
  case (Suc n)
  then obtain m cc cr where m: "fold (star_col R md) [0..<n] (zero_mat, 0, 0) = (m, cc, cr)" "first_stars R C md m cc"
    "bits R cr = fst ` marks R C m" "snd ` marks R C m \<subseteq> {..<n}" by auto
  have f: "fold (star_col R md) [0..<Suc n] (zero_mat, 0, 0) = star_col R md n (m, cc, cr)" using m(1) by simp
  show ?case
  proof (cases "find (\<lambda>row. md ! (row + R * n) = 0 \<and> \<not> GET1 cr row) [0..<R]")
    case None
    then have "star_col R md n (m, cc, cr) = (m, cc, cr)" by (simp add: star_col_def)
    moreover have "snd ` marks R C m \<subseteq> {..<Suc n}" using m(4) by auto
    ultimately show ?thesis unfolding f using m(2,3) by blast
  next
    case (Some r)
    then have r: "r < R" "ent R md r n = 0" "r \<notin> fst ` marks R C m" using find_upt_Some [OF Some] m(3) [symmetric] by (auto simp: ent_def bits_def)
    have "n < C" "n \<notin> snd ` marks R C m" using Suc.prems m(4) by auto
    then have "first_stars R C md (SET2 m r n) (SET1 cc n)"
      using m(2) r assms matching_insert [of R C "marks R C m" r n] unfolding first_stars_def by auto
    moreover have "star_col R md n (m, cc, cr) = (SET2 m r n, SET1 cc n, SET1 cr r)" using Some by (simp add: star_col_def)
    moreover have "snd ` marks R C (SET2 m r n) \<subseteq> {..<Suc n}" "bits R (SET1 cr r) = fst ` marks R C (SET2 m r n)"
      using m(2-4) r(1) \<open>n < C\<close> assms by (auto simp: first_stars_def)
    ultimately show ?thesis unfolding f by blast
  qed
qed

lemma match_start_ok:
  assumes len: "length A = R * C" and A: "\<forall>a \<in> set A. 0 \<le> a \<and> a \<le> K" and n: "R < 32" "C < 32" and K: "K \<le> 1073741823"
  shows "\<exists>s S. match_start R C A = Inr s \<and> match_inv R C (ent R A) K Step2b s S True"
proof -
  have rng: "0 \<le> ent R A r c \<and> ent R A r c \<le> K" if "r < R" "c < C" for r c
    using A index_less [OF that] len by (simp add: ent_def)
  have fin: "match_inv R C (ent R A) K Step2b \<lparr>mdist = map f [0..<R * C], mstar = m, mprime = zero_mat, ccol = cc, crow = 0\<rparr> (marks R C m) True"
    if fs: "first_stars R C (map f [0..<R * C]) m cc"
      and f: "\<And>r c. r < R \<Longrightarrow> c < C \<Longrightarrow> f (r + R * c) = ent R A r c - u r - v c \<and> 0 \<le> f (r + R * c) \<and> f (r + R * c) \<le> K"
      and uv: "R \<le> C \<Longrightarrow> v = (\<lambda>_. 0)" "C < R \<Longrightarrow> u = (\<lambda>_. 0)" for f m cc u v
  proof -
    have e: "ent R (map f [0..<R * C]) r c = f (r + R * c)" if "r < R" "c < C" for r c using ent_map(1) [OF that] .
    have "star_inv R C (ent R A) K \<lparr>mdist = map f [0..<R * C], mstar = m, mprime = zero_mat, ccol = cc, crow = 0\<rparr> (marks R C m) u v 0"
    proof -
      have g: "v c \<le> ent R A r c - u r \<and> ent R A r c - u r - v c \<le> K" if "r < R" "c < C" for r c
        using f [OF that] by auto
      show ?thesis using fs uv unfolding star_inv_def first_stars_def by (simp add: e f g)
    qed
    then show ?thesis using fs n by (auto simp: first_stars_def)
  qed
  show ?thesis
  proof (cases "R \<le> C")
    case True
    let ?f = "\<lambda>i. A ! i - row_min R C A (i mod R)"
    have f: "?f (r + R * c) = ent R A r c - row_min R C A r - 0 \<and> 0 \<le> ?f (r + R * c) \<and> ?f (r + R * c) \<le> K" if rc: "r < R" "c < C" for r c
    proof -
      have "0 < C" using rc by simp
      then obtain c' where "c' < C" "row_min R C A r = ent R A r c'" using row_min_least(1) by blast
      then show ?thesis using row_min_least(2) [OF \<open>0 < C\<close> rc(2), of R A r] rng [OF rc] rng [OF rc(1), of c'] ent_map(2) [OF rc] rc
        by (simp add: ent_def)
    qed
    then have sub: "sub_rows R C A = Inr (map ?f [0..<R * C])" unfolding sub_rows_def by (intro sub_ok [OF _ K]) blast
    obtain m cc where m: "fold (star_row R C (map ?f [0..<R * C])) [0..<R] (zero_mat, 0) = (m, cc)" "first_stars R C (map ?f [0..<R * C]) m cc"
      using star_rows_ok [of R R C "map ?f [0..<R * C]"] n by auto
    have "match_inv R C (ent R A) K Step2b \<lparr>mdist = map ?f [0..<R * C], mstar = m, mprime = zero_mat, ccol = cc, crow = 0\<rparr> (marks R C m) True"
      by (rule fin [OF m(2), where u = "row_min R C A" and v = "\<lambda>_. 0"]) (fact f, use True in auto)
    moreover have "match_start R C A = Inr \<lparr>mdist = map ?f [0..<R * C], mstar = m, mprime = zero_mat, ccol = cc, crow = 0\<rparr>"
      using True sub m(1) by (simp add: match_start_def)
    ultimately show ?thesis by blast
  next
    case False
    let ?f = "\<lambda>i. A ! i - col_min R A (i div R)"
    have f: "?f (r + R * c) = ent R A r c - 0 - col_min R A c \<and> 0 \<le> ?f (r + R * c) \<and> ?f (r + R * c) \<le> K" if rc: "r < R" "c < C" for r c
    proof -
      have "0 < R" using rc by simp
      then obtain r' where "r' < R" "col_min R A c = ent R A r' c" using col_min_least(1) by blast
      then show ?thesis using col_min_least(2) [OF \<open>0 < R\<close> rc(1), of A c] rng [OF rc] rng [OF _ rc(2), of r'] ent_map(3) [OF rc] rc
        by (simp add: ent_def)
    qed
    then have sub: "sub_cols R C A = Inr (map ?f [0..<R * C])" unfolding sub_cols_def by (intro sub_ok [OF _ K]) blast
    obtain m cc cr where m: "fold (star_col R (map ?f [0..<R * C])) [0..<C] (zero_mat, 0, 0) = (m, cc, cr)" "first_stars R C (map ?f [0..<R * C]) m cc"
      using star_cols_ok [of C C R "map ?f [0..<R * C]"] n by auto
    have "match_inv R C (ent R A) K Step2b \<lparr>mdist = map ?f [0..<R * C], mstar = m, mprime = zero_mat, ccol = cc, crow = 0\<rparr> (marks R C m) True"
      by (rule fin [OF m(2), where u = "\<lambda>_. 0" and v = "col_min R A"]) (fact f, use False in auto)
    moreover have "match_start R C A = Inr \<lparr>mdist = map ?f [0..<R * C], mstar = m, mprime = zero_mat, ccol = cc, crow = 0\<rparr>"
      using False sub m(1) by (simp add: match_start_def)
    ultimately show ?thesis by blast
  qed
qed

section \<open>The result\<close>

lemma star_inv_optimal:
  assumes si: "star_inv R C A K s S u v T" and S: "card S = min R C" and F: "matching R C F" "card F = min R C"
  shows "cost A S \<le> cost A F"
proof (rule optimal_dual [OF star_invD(2) [OF si] S F, where M = "ent R (mdist s)" and u = u and v = v])
  note d = star_invD [OF si] and m = matching_cards [OF star_invD(2) [OF si]]
  have all: "fst ` S = {..<R}" if "R \<le> C" using m(1,3) S that card_subset_eq [of "{..<R}" "fst ` S"] by simp
  have all': "snd ` S = {..<C}" if "\<not> C < R \<longrightarrow> R = C" using m(2,4) S that card_subset_eq [of "{..<C}" "snd ` S"] by (simp add: min_def split: if_splits)
  show "u r' \<le> u r" if "r < R" "r \<notin> fst ` S" "r' < R" for r r'
    using that all d(13) [OF _ that] by (cases "C < R") auto
  show "v c' \<le> v c" if "c < C" "c \<notin> snd ` S" "c' < C" for c c'
    using that all' d(12) [OF _ that] by (cases "C < R") auto
qed (use star_invD(6,7,9) [OF si] in auto)

lemma buildixvector_marks:
  assumes "matching R C (marks R C m)"
  shows "length (buildixvector m R C (replicate R (-1))) = R"
    "r < R \<Longrightarrow> c < C \<Longrightarrow> buildixvector m R C (replicate R (-1)) ! r = int c \<longleftrightarrow> (r, c) \<in> marks R C m"
    "r < R \<Longrightarrow> buildixvector m R C (replicate R (-1)) ! r = -1 \<or> (\<exists>c < C. buildixvector m R C (replicate R (-1)) ! r = int c)"
proof -
  show "length (buildixvector m R C (replicate R (-1))) = R" by (simp add: buildixvector_def)
  show "r < R \<Longrightarrow> buildixvector m R C (replicate R (-1)) ! r = -1 \<or> (\<exists>c < C. buildixvector m R C (replicate R (-1)) ! r = int c)"
    by (auto simp: buildixvector_def split: option.split dest: find_upt_Some)
  assume rc: "r < R" "c < C"
  show "buildixvector m R C (replicate R (-1)) ! r = int c \<longleftrightarrow> (r, c) \<in> marks R C m"
  proof (cases "find (\<lambda>col. GET2 m r col) [0..<C]")
    case None
    then show ?thesis using rc find_upt_None [of "\<lambda>col. GET2 m r col" C] by (simp add: buildixvector_def marks_def)
  next
    case (Some c')
    then have "(r, c') \<in> marks R C m" using rc find_upt_Some [OF Some] by (simp add: marks_def)
    moreover have "inj_on fst (marks R C m)" using assms by (simp add: matching_def)
    ultimately have "(r, c) \<in> marks R C m \<longleftrightarrow> c = c'" using inj_onD [of fst "marks R C m" "(r, c)" "(r, c')"] by auto
    then show ?thesis using rc Some by (auto simp: buildixvector_def)
  qed
qed

text \<open>The pairs an index vector stands for.\<close>

definition pairs :: "nat \<Rightarrow> nat \<Rightarrow> int list \<Rightarrow> (nat \<times> nat) set" where
  "pairs R C ix = {(r, c). r < R \<and> c < C \<and> ix ! r = int c}"

lemma mtdev_match_ok:
  assumes len: "length A = R * C" and A: "\<forall>a \<in> set A. 0 \<le> a \<and> a \<le> 1073741823" and n: "R < 32" "C < 32"
  shows "\<exists>ix. mtdev_match A R C = Inr ix \<and> length ix = R \<and> (\<forall>r < R. ix ! r = -1 \<or> (\<exists>c < C. ix ! r = int c)) \<and>
    matching R C (pairs R C ix) \<and> card (pairs R C ix) = min R C \<and>
    (\<forall>F. matching R C F \<longrightarrow> card F = min R C \<longrightarrow> cost (ent R A) (pairs R C ix) \<le> cost (ent R A) F)"
proof -
  obtain s0 S0 where s0: "match_start R C A = Inr s0" "match_inv R C (ent R A) 1073741823 Step2b s0 S0 True"
    using match_start_ok [OF len A n order.refl] by blast
  have "match_rank R C Step2b s0 S0 True \<le> (min R C + 1) * (2 * R + 6)"
    using mult_le_mono1 [of "min R C - card S0" "min R C" "2 * R + 6"] by (simp add: algebra_simps)
  then obtain s S where s: "match_run ((min R C + 1) * (2 * R + 6)) R C (min R C) Step2b s0 = Inr (buildixvector (mstar s) R C (replicate R (-1)))"
    "match_inv R C (ent R A) 1073741823 Finished s S True" using match_run_ok [OF s0(2) _ n] by blast
  obtain u v T where si: "star_inv R C (ent R A) 1073741823 s S u v T" and S: "card S = min R C" using s(2) by auto
  note d = star_invD(1,2) [OF si]
  note b = buildixvector_marks [of R C "mstar s", unfolded d(1), OF d(2)]
  have "pairs R C (buildixvector (mstar s) R C (replicate R (-1))) = S"
    using b(2) d(2) by (auto simp: pairs_def matching_def)
  then show ?thesis using s0(1) s(1) b(1,3) d(2) S star_inv_optimal [OF si S]
    by (intro exI [of _ "buildixvector (mstar s) R C (replicate R (-1))"]) (simp add: mtdev_match_def Let_def)
qed

section \<open>The tracker keeps the contract\<close>

text \<open>The coordinates of a blob as the tracker sees them, and the square of the distance of two blobs.\<close>

definition norm_at :: "string \<Rightarrow> moDataGenericContainer \<Rightarrow> int" where
  "norm_at n c = (case normalized n c of Inr i \<Rightarrow> i | Inl _ \<Rightarrow> 0)"

definition sqdist :: "moDataGenericContainer \<Rightarrow> moDataGenericContainer \<Rightarrow> int" where
  "sqdist a b = (norm_at ''x'' a - norm_at ''x'' b)\<^sup>2 + (norm_at ''y'' a - norm_at ''y'' b)\<^sup>2"

lemma normalized_ok:
  assumes "blob_ok va 1 B c" "n = ''x'' \<or> n = ''y''"
  shows "normalized n c = Inr (norm_at n c)" "\<bar>norm_at n c\<bar> \<le> 10000"
proof -
  note d = blob_okD [OF assms(1)]
  have "n \<in> keys c" using assms(2) d(3,4) by blast
  then have g: "get_double n c = Inr (dbl_at n c)" using get_double_at d(1) by blast
  have "\<bar>dbl_at n c\<bar> \<le> 1" using d(14) assms(2) by (auto simp: near_def)
  then have "\<bar>dbl_at n c * 10000\<bar> \<le> 10000" by (simp add: abs_mult)
  moreover from this have "\<bar>dbl (dbl_at n c * 10000) - dbl_at n c * 10000\<bar> \<le> 1 / 2" by (intro dbl_error) simp
  ultimately have "\<bar>dbl (dbl_at n c * 10000)\<bar> \<le> of_int 10000 + 1 / 2" unfolding abs_le_iff by simp
  then obtain i where "int_of_double (dbl (dbl_at n c * 10000)) = Inr i" "\<bar>i\<bar> \<le> 10000"
    using int_of_double_near [of "dbl (dbl_at n c * 10000)" 10000] by auto
  then show "normalized n c = Inr (norm_at n c)" "\<bar>norm_at n c\<bar> \<le> 10000" using g by (simp_all add: norm_at_def normalized_def)
qed

lemma square_le: "\<bar>d :: int\<bar> \<le> 20000 \<Longrightarrow> 0 \<le> d\<^sup>2 \<and> d\<^sup>2 \<le> 400000000"
  using power_mono [of "\<bar>d\<bar>" 20000 2] by simp

lemma dist2_sqdist:
  assumes a: "blob_ok va 1 B a" and b: "blob_ok va' 1 B' b"
  shows "bindR (chk32 (norm_at ''x'' a - norm_at ''x'' b)) (\<lambda>dx. mapR (dist2 dx) (chk32 (norm_at ''y'' a - norm_at ''y'' b))) = Inr (sqdist a b)"
    "0 \<le> sqdist a b" "sqdist a b \<le> 1073741823"
proof -
  let ?x = "norm_at ''x'' a - norm_at ''x'' b" and ?y = "norm_at ''y'' a - norm_at ''y'' b"
  have r: "\<bar>?x\<bar> \<le> 20000" "\<bar>?y\<bar> \<le> 20000"
    using normalized_ok(2) [OF a, of "''x''"] normalized_ok(2) [OF a, of "''y''"] normalized_ok(2) [OF b, of "''x''"] normalized_ok(2) [OF b, of "''y''"]
    by auto
  then have c: "clamp15 ?x = ?x" "clamp15 ?y = ?y" "int32 ?x" "int32 ?y" unfolding abs_le_iff clamp15_def INT_MIN_def INT_MAX_def by simp_all
  show "bindR (chk32 ?x) (\<lambda>dx. mapR (dist2 dx) (chk32 ?y)) = Inr (sqdist a b)"
    using c by (simp add: chk32_def dist2_def Let_def sqdist_def power2_eq_square)
  show "0 \<le> sqdist a b" "sqdist a b \<le> 1073741823" using square_le [OF r(1)] square_le [OF r(2)] by (simp_all add: sqdist_def)
qed

definition place :: "moDataGenericContainer \<Rightarrow> int \<times> int" where
  "place c = (norm_at ''x'' c, norm_at ''y'' c)"

lemma mapM_map: "(\<And>x. x \<in> set xs \<Longrightarrow> f x = Inr (g x)) \<Longrightarrow> mapM f xs = Inr (map g xs)"
  by (induction xs) auto

lemma munkres_distances_ok:
  assumes new: "\<And>c. c \<in> set new \<Longrightarrow> blob_ok va 1 B c" and old: "\<And>c. c \<in> set old \<Longrightarrow> blob_ok va' 1 B' c"
  shows "munkres_distances (map place new) (map place old) = Inr (concat (map (\<lambda>o'. map (\<lambda>n. sqdist n o') new) old))"
proof -
  have "mapM (\<lambda>(sx, sy). mapM (\<lambda>(nx, ny). bindR (chk32 (nx - sx)) (\<lambda>dx. mapR (dist2 dx) (chk32 (ny - sy)))) (map place new)) (map place old) =
    Inr (map (\<lambda>o'. map (\<lambda>n. sqdist n o') new) old)" (is "mapM ?f _ = _")
  proof -
    have "mapM ?f (map place old) = mapM (\<lambda>o'. ?f (place o')) old" by (induction old) auto
    also have "\<dots> = Inr (map (\<lambda>o'. map (\<lambda>n. sqdist n o') new) old)"
    proof (rule mapM_map)
      fix o' assume o: "o' \<in> set old"
      let ?g = "\<lambda>(nx, ny). bindR (chk32 (nx - norm_at ''x'' o')) (\<lambda>dx. mapR (dist2 dx) (chk32 (ny - norm_at ''y'' o')))"
      have "mapM ?g (map place new) = mapM (\<lambda>n. ?g (place n)) new" by (induction new) auto
      also have "\<dots> = Inr (map (\<lambda>n. sqdist n o') new)"
        by (rule mapM_map) (use dist2_sqdist(1) [OF new old [OF o]] in \<open>simp add: place_def\<close>)
      finally show "?f (place o') = Inr (map (\<lambda>n. sqdist n o') new)" by (simp add: place_def)
    qed
    finally show ?thesis .
  qed
  then show ?thesis by (simp add: munkres_distances_def)
qed

lemma concat_columns:
  assumes "r < length new" "c < length old"
  shows "concat (map (\<lambda>o'. map (\<lambda>n. f n o') new) old) ! (r + length new * c) = f (new ! r) (old ! c)"
    "length (concat (map (\<lambda>o'. map (\<lambda>n. f n o') new) old)) = length new * length old"
  using assms(2)
proof (induction old arbitrary: c)
  case (Cons a old)
  { case 1
    show ?case using assms(1) Cons.IH(1) [of "c - 1"] 1 by (cases c) (auto simp: nth_append)
  next
    case 2
    show ?case by (simp add: length_concat comp_def sum_list_triv)
  }
qed simp_all

text \<open>The ids: taken over along the matching, or new.\<close>

lemma munkres_assign_ok:
  assumes "\<And>c. c \<in> set new \<Longrightarrow> cok c \<and> ''blob_id'' \<in> keys c" "length ix = length new" "\<forall>j \<in> set ix. j = -1 \<or> nat j < length sid \<and> 0 \<le> j"
    "sorted_wrt (\<lambda>a b. 0 \<le> a \<longrightarrow> a \<noteq> b) ix" "0 \<le> n" "n + int (length new) \<le> 2147483647"
    and sid: "distinct sid" "\<forall>i \<in> set sid. int32 i \<and> i \<le> k" and "k \<le> n"
  shows "\<exists>new' n'. munkres_assign sid ix new n = Inr (new', n') \<and> list_all2 (changed {''blob_id''}) new new' \<and> n \<le> n' \<and> n' \<le> n + int (length new) \<and>
    distinct (map blob_id new') \<and> (\<forall>c \<in> set new'. (\<exists>j \<in> set ix. 0 \<le> j \<and> blob_id c = sid ! nat j) \<or> n < blob_id c \<and> blob_id c \<le> n') \<and>
    list_all2 (\<lambda>j c. (0 \<le> j \<and> sid ! nat j \<noteq> -10 \<longrightarrow> blob_id c = sid ! nat j) \<and> (j < 0 \<longrightarrow> n < blob_id c)) ix new'"
  using assms(1-6) \<open>k \<le> n\<close>
proof (induction ix arbitrary: new n)
  case (Cons j ix)
  obtain c cs where new: "new = c # cs" using Cons.prems(2) by (cases new) auto
  define i0 where "i0 = (if j \<ge> 0 then sid ! nat j else -10)"
  define n1 where "n1 = (if i0 = -10 then n + 1 else n)"
  define i1 where "i1 = (if i0 = -10 then n1 else i0)"
  have j: "j = -1 \<or> nat j < length sid \<and> 0 \<le> j" using Cons.prems(3) by simp
  then have s: "0 \<le> j \<Longrightarrow> sid ! nat j \<in> set sid" by simp
  have bound: "n + int (length cs) + 1 \<le> 2147483647" using Cons.prems(6) new by simp
  then have "int32 i1" using Cons.prems(5) s sid(2) by (auto simp: i1_def i0_def n1_def INT_MIN_def INT_MAX_def split: if_splits)
  then obtain c1 where c1: "put_int ''blob_id'' i1 c = Inr c1" "changed {''blob_id''} c c1" "blob_id c1 = i1"
    using put_int_ok [of c "''blob_id''" i1] Cons.prems(1) [of c] new by auto
  have "n \<le> n1" "n1 \<le> n + 1" "0 \<le> n1" "k \<le> n1" using Cons.prems(5,7) by (auto simp: n1_def)
  then obtain cs' n' where cs': "munkres_assign sid ix cs n1 = Inr (cs', n')" "list_all2 (changed {''blob_id''}) cs cs'" "n1 \<le> n'"
    "n' \<le> n1 + int (length cs)" "distinct (map blob_id cs')"
    "\<forall>c \<in> set cs'. (\<exists>j \<in> set ix. 0 \<le> j \<and> blob_id c = sid ! nat j) \<or> n1 < blob_id c \<and> blob_id c \<le> n'"
    "list_all2 (\<lambda>j c. (0 \<le> j \<and> sid ! nat j \<noteq> -10 \<longrightarrow> blob_id c = sid ! nat j) \<and> (j < 0 \<longrightarrow> n1 < blob_id c)) ix cs'"
    using Cons.IH [of cs n1] Cons.prems(1-4) bound new by auto
  have "munkres_assign sid (j # ix) new n = Inr (c1 # cs', n')"
  proof -
    have "pincrement n = n + 1" using Cons.prems(5) bound by (simp add: pincrement_def INT_MIN_def INT_MAX_def)
    then have "munkres_assign sid (j # ix) new n =
        bindR (put_int ''blob_id'' i1 c) (\<lambda>c1. mapR (\<lambda>(cs, n2). (c1 # cs, n2)) (munkres_assign sid ix cs n1))"
      unfolding new munkres_assign.simps Let_def i1_def n1_def i0_def by simp
    then show ?thesis using c1(1) cs'(1) by simp
  qed
  moreover have "blob_id c1 \<notin> blob_id ` set cs'"
  proof
    assume "blob_id c1 \<in> blob_id ` set cs'"
    then obtain d where "d \<in> set cs'" "blob_id d = i1" using c1(3) by auto
    then consider j' where "j' \<in> set ix" "0 \<le> j'" "i1 = sid ! nat j'" | "n1 < i1" using cs'(6) by auto
    then show False
    proof cases
      case 1
      have j': "nat j' < length sid" "j = j' \<Longrightarrow> j < 0" using 1 Cons.prems(3,4) by force+
      then have "sid ! nat j' \<le> k" using sid(2) by auto
      then have "i0 \<noteq> -10" using 1 Cons.prems(7) by (auto simp: i1_def n1_def split: if_splits)
      then have "sid ! nat j = sid ! nat j'" "0 \<le> j" using 1 by (auto simp: i1_def i0_def split: if_splits)
      then have "nat j = nat j'" using j j'(1) sid(1) nth_eq_iff_index_eq by fastforce
      then have "j = j'" using 1(2) \<open>0 \<le> j\<close> by (simp add: eq_nat_nat_iff)
      then show False using j'(2) \<open>0 \<le> j\<close> by simp
    next
      case 2
      then show False using s sid(2) Cons.prems(7) by (auto simp: i1_def i0_def n1_def split: if_splits)
    qed
  qed
  moreover have "(\<exists>j' \<in> set (j # ix). 0 \<le> j' \<and> blob_id c1 = sid ! nat j') \<or> n < blob_id c1 \<and> blob_id c1 \<le> n'"
    using c1(3) cs'(3) by (auto simp: i1_def i0_def n1_def split: if_splits)
  moreover have "(0 \<le> j \<and> sid ! nat j \<noteq> -10 \<longrightarrow> blob_id c1 = sid ! nat j) \<and> (j < 0 \<longrightarrow> n < blob_id c1)"
    using c1(3) by (auto simp: i1_def i0_def n1_def)
  moreover have "list_all2 (\<lambda>j c. (0 \<le> j \<and> sid ! nat j \<noteq> -10 \<longrightarrow> blob_id c = sid ! nat j) \<and> (j < 0 \<longrightarrow> n < blob_id c)) ix cs'"
    by (rule list_all2_mono [OF cs'(7)]) (use \<open>n \<le> n1\<close> in auto)
  moreover have "\<forall>c \<in> set cs'. (\<exists>j' \<in> set (j # ix). 0 \<le> j' \<and> blob_id c = sid ! nat j') \<or> n < blob_id c \<and> blob_id c \<le> n'"
    using cs'(6) \<open>n \<le> n1\<close> by fastforce
  ultimately show ?case using c1(2) cs'(2-5) \<open>n \<le> n1\<close> \<open>n1 \<le> n + 1\<close> new by (intro exI [of _ "c1 # cs'"] exI [of _ n']) auto
qed simp

lemma pairs_sorted:
  assumes "length ix = R" "\<forall>r < R. ix ! r = -1 \<or> (\<exists>c < C. ix ! r = int c)" "matching R C (pairs R C ix)"
  shows "sorted_wrt (\<lambda>a b. 0 \<le> a \<longrightarrow> a \<noteq> b) ix" "\<forall>j \<in> set ix. j = -1 \<or> nat j < C \<and> 0 \<le> j"
proof -
  show "\<forall>j \<in> set ix. j = -1 \<or> nat j < C \<and> 0 \<le> j"
    using assms(1,2) by (fastforce simp: in_set_conv_nth)
  show "sorted_wrt (\<lambda>a b. 0 \<le> a \<longrightarrow> a \<noteq> b) ix"
    unfolding sorted_wrt_iff_nth_less
  proof (intro allI impI notI)
    fix i j assume ij: "i < j" "j < length ix" "0 \<le> ix ! i" "ix ! i = ix ! j"
    then have "ix ! i \<noteq> -1" "i < R" using assms(1) by auto
    then obtain c where "c < C" "ix ! i = int c" using assms(2) by blast
    then have "(i, c) \<in> pairs R C ix" "(j, c) \<in> pairs R C ix" using ij assms(1) by (auto simp: pairs_def)
    moreover have "inj_on snd (pairs R C ix)" using assms(3) by (simp add: matching_def)
    ultimately show False using inj_onD [of snd "pairs R C ix" "(i, c)" "(j, c)"] ij(1) by simp
  qed
qed

text \<open>One frame: along an optimal matching of the new blobs with the old ones, ids are taken over.\<close>

lemma munkres_track_ok:
  assumes new: "\<And>c. c \<in> set (new_blobs t) \<Longrightarrow> blob_ok va 1 B c" and old: "\<And>c. c \<in> set (old_blobs t) \<Longrightarrow> blob_ok va' 1 B' c"
    and ids: "distinct (map blob_id (old_blobs t))" "\<forall>c \<in> set (old_blobs t). blob_id c \<le> n"
    and n: "0 \<le> n" "n + int (length (new_blobs t)) \<le> 2147483647" and room: "length (new_blobs t) < 32" "length (old_blobs t) < 32"
  shows "\<exists>n' bs P. munkres_trackBlobs props n t = Inr (n', t\<lparr>new_blobs := bs\<rparr>) \<and>
    list_all2 (changed {''blob_id''}) (new_blobs t) bs \<and> fresh_ids n n' (old_blobs t) bs \<and>
    matching (length (new_blobs t)) (length (old_blobs t)) P \<and> card P = min (length (new_blobs t)) (length (old_blobs t)) \<and>
    (\<forall>F. matching (length (new_blobs t)) (length (old_blobs t)) F \<longrightarrow> card F = card P \<longrightarrow>
       cost (\<lambda>r c. sqdist (new_blobs t ! r) (old_blobs t ! c)) P \<le> cost (\<lambda>r c. sqdist (new_blobs t ! r) (old_blobs t ! c)) F) \<and>
    (\<forall>r < length bs. \<forall>c. (r, c) \<in> P \<longrightarrow> blob_id (old_blobs t ! c) \<noteq> -10 \<longrightarrow> blob_id (bs ! r) = blob_id (old_blobs t ! c)) \<and>
    (\<forall>r < length bs. r \<notin> fst ` P \<longrightarrow> n < blob_id (bs ! r))"
proof -
  let ?new = "new_blobs t" and ?old = "old_blobs t"
  let ?R = "length ?new" and ?C = "length ?old" and ?d = "\<lambda>r c. sqdist (new_blobs t ! r) (old_blobs t ! c)"
  let ?A = "concat (map (\<lambda>o'. map (\<lambda>n. sqdist n o') ?new) ?old)" and ?sid = "map blob_id ?old"
  have len: "length ?A = ?R * ?C" by (simp add: length_concat comp_def sum_list_triv)
  have "\<forall>a \<in> set ?A. 0 \<le> a \<and> a \<le> 1073741823" using dist2_sqdist(2,3) [OF new old] by auto
  from mtdev_match_ok [OF len this room] obtain ix where ix: "mtdev_match ?A ?R ?C = Inr ix" "length ix = ?R"
    "\<forall>r < ?R. ix ! r = -1 \<or> (\<exists>c < ?C. ix ! r = int c)" "matching ?R ?C (pairs ?R ?C ix)" "card (pairs ?R ?C ix) = min ?R ?C"
    "\<forall>F. matching ?R ?C F \<longrightarrow> card F = min ?R ?C \<longrightarrow> cost (ent ?R ?A) (pairs ?R ?C ix) \<le> cost (ent ?R ?A) F" by blast
  have sid: "distinct ?sid" "\<forall>i \<in> set ?sid. int32 i \<and> i \<le> n" using ids get_ok(2) [OF blob_okD(1,5) [OF old]] by auto
  have keys: "cok c \<and> ''blob_id'' \<in> keys c" if "c \<in> set ?new" for c using blob_okD(1,5) [OF new [OF that]] by blast
  have srt: "sorted_wrt (\<lambda>a b. 0 \<le> a \<longrightarrow> a \<noteq> b) ix" "\<forall>j \<in> set ix. j = -1 \<or> nat j < length ?sid \<and> 0 \<le> j"
    using pairs_sorted [OF ix(2,3,4)] by simp_all
  from munkres_assign_ok [OF keys ix(2) srt(2,1) n sid order.refl]
  obtain bs n' where bs: "munkres_assign ?sid ix ?new n = Inr (bs, n')" "list_all2 (changed {''blob_id''}) ?new bs" "n \<le> n'" "n' \<le> n + int ?R"
    "distinct (map blob_id bs)" "\<forall>c \<in> set bs. (\<exists>j \<in> set ix. 0 \<le> j \<and> blob_id c = ?sid ! nat j) \<or> n < blob_id c \<and> blob_id c \<le> n'"
    "list_all2 (\<lambda>j c. (0 \<le> j \<and> ?sid ! nat j \<noteq> -10 \<longrightarrow> blob_id c = ?sid ! nat j) \<and> (j < 0 \<longrightarrow> n < blob_id c)) ix bs" by blast
  have lbs: "length bs = ?R" using list_all2_lengthD [OF bs(2)] by simp
  have "munkres_trackBlobs props n t = Inr (n', t\<lparr>new_blobs := bs\<rparr>)"
  proof -
    have o: "mapM (\<lambda>c. bindR (get_int ''blob_id'' c) (\<lambda>i. bindR (normalized ''x'' c) (\<lambda>x. mapR (\<lambda>y. (i, x, y)) (normalized ''y'' c)))) ?old =
        Inr (map (\<lambda>c. (blob_id c, place c)) ?old)"
      by (rule mapM_map) (simp add: blob_okD(11) [OF old] normalized_ok(1) [OF old] place_def)
    have w: "mapM (\<lambda>c. bindR (normalized ''x'' c) (\<lambda>x. mapR (Pair x) (normalized ''y'' c))) ?new = Inr (map place ?new)"
      by (rule mapM_map) (simp add: normalized_ok(1) [OF new] place_def)
    have m: "map snd (map (\<lambda>c. (blob_id c, place c)) ?old) = map place ?old" "map fst (map (\<lambda>c. (blob_id c, place c)) ?old) = ?sid" by auto
    have d: "munkres_distances (map place ?new) (map place ?old) = Inr ?A" using munkres_distances_ok [of ?new va B ?old va' B'] new old by blast
    show ?thesis unfolding munkres_trackBlobs_def Let_def o w bindR_simps m d ix(1) bs(1)
      using room by (simp add: DIM_FINGER_def)
  qed
  moreover have "fresh_ids n n' ?old bs"
  proof -
    have "\<forall>c \<in> set bs. blob_id c \<in> blob_id ` set ?old \<or> n < blob_id c \<and> blob_id c \<le> n'"
      using bs(6) srt(2) nth_mem by (fastforce simp: image_iff)
    then show ?thesis using bs(3-5) lbs by (simp add: fresh_ids_def)
  qed
  moreover have "\<forall>F. matching ?R ?C F \<longrightarrow> card F = card (pairs ?R ?C ix) \<longrightarrow> cost ?d (pairs ?R ?C ix) \<le> cost ?d F"
  proof -
    have "cost (ent ?R ?A) F = cost ?d F" if "matching ?R ?C F" for F
      unfolding cost_def by (rule sum.cong) (use that concat_columns(1) [where f = sqdist] in \<open>auto simp: matching_def ent_def\<close>)
    then show ?thesis using ix(4-6) by simp
  qed
  moreover have "\<forall>r < length bs. \<forall>c. (r, c) \<in> pairs ?R ?C ix \<longrightarrow> blob_id (?old ! c) \<noteq> -10 \<longrightarrow> blob_id (bs ! r) = blob_id (?old ! c)"
    using list_all2_nthD2 [OF bs(7)] by (auto simp: pairs_def)
  moreover have "\<forall>r < length bs. r \<notin> fst ` pairs ?R ?C ix \<longrightarrow> n < blob_id (bs ! r)"
  proof (intro allI impI)
    fix r assume r: "r < length bs" "r \<notin> fst ` pairs ?R ?C ix"
    then have "ix ! r = -1" using ix(3) lbs by (force simp: pairs_def image_iff)
    then show "n < blob_id (bs ! r)" using list_all2_nthD2 [OF bs(7) r(1)] by simp
  qed
  ultimately show ?thesis using bs(2) ix(4,5) by blast
qed

interpretation munkres: blob_tracker munkres_trackBlobs 31 1
proof
  fix props max_age min_age va B B' n and t :: tracker
  assume set: "settings_ok props max_age min_age" and new: "\<And>c. c \<in> set (new_blobs t) \<Longrightarrow> copied_blob va 1 B c"
    and old: "\<And>c. c \<in> set (old_blobs t) \<Longrightarrow> blob_ok va 1 B' c" and ids: "distinct (map blob_id (old_blobs t))" "\<forall>c \<in> set (old_blobs t). blob_id c \<le> n"
    and n: "0 \<le> n" "n + int (length (new_blobs t)) \<le> 2147483647" and room: "length (new_blobs t) \<le> 31" "length (old_blobs t) \<le> 31"
  have new': "\<And>c. c \<in> set (new_blobs t) \<Longrightarrow> blob_ok va 1 B c" using new by (simp add: copied_blob_def)
  obtain n' bs where bs: "munkres_trackBlobs props n t = Inr (n', t\<lparr>new_blobs := bs\<rparr>)" "list_all2 (changed {''blob_id''}) (new_blobs t) bs"
    "fresh_ids n n' (old_blobs t) bs" using munkres_track_ok [OF new' old ids n, of props] room by auto
  have "list_all2 (relabelled max_age) (new_blobs t) bs"
  proof (rule list_all2_mono [OF bs(2)])
    fix a b assume ab: "changed {''blob_id''} a b"
    then show "relabelled max_age a b" using changed_at(1) [OF ab, of "''age''"] changed_mono [OF ab] by (simp add: relabelled_def)
  qed
  then show "\<exists>n' t'. munkres_trackBlobs props n t = Inr (n', t') \<and> old_blobs t' = old_blobs t \<and>
      list_all2 (relabelled max_age) (new_blobs t) (new_blobs t') \<and> fresh_ids n n' (old_blobs t) (new_blobs t')"
    using bs(1,3) by simp
qed

section \<open>Properties\<close>

text \<open>
  C6. \<open>mtdev_match\<close> ends for every matrix of up to 31 times 31 distances between 0 and \<open>2 ^ 30 - 1\<close>, without
  overflow, and solves the assignment problem: every row gets the number of a column or -1, no column is
  given twice, as many rows as possible get one, and no other assignment of that size costs less.
\<close>

theorem match_optimal:
  assumes "length A = R * C" "\<forall>a \<in> set A. 0 \<le> a \<and> a \<le> 1073741823" "R < 32" "C < 32"
  shows "\<exists>ix. mtdev_match A R C = Inr ix \<and> length ix = R \<and> (\<forall>r < R. ix ! r = -1 \<or> (\<exists>c < C. ix ! r = int c)) \<and>
    matching R C (pairs R C ix) \<and> card (pairs R C ix) = min R C \<and>
    (\<forall>F. matching R C F \<longrightarrow> card F = min R C \<longrightarrow> cost (ent R A) (pairs R C ix) \<le> cost (ent R A) F)"
  by (rule mtdev_match_ok [OF assms])

lemma match_optimal_witness:
  "\<exists>ix. mtdev_match [1, 2, 3, 2, 4, 6] 3 2 = Inr ix \<and> card (pairs 3 2 ix) = 2 \<and>
    (\<forall>F. matching 3 2 F \<longrightarrow> card F = 2 \<longrightarrow> cost (ent 3 [1, 2, 3, 2, 4, 6]) (pairs 3 2 ix) \<le> cost (ent 3 [1, 2, 3, 2, 4, 6]) F)"
proof -
  have "\<exists>ix. mtdev_match [1, 2, 3, 2, 4, 6] 3 2 = Inr ix \<and> length ix = 3 \<and> (\<forall>r < 3. ix ! r = -1 \<or> (\<exists>c < 2. ix ! r = int c)) \<and>
    matching 3 2 (pairs 3 2 ix) \<and> card (pairs 3 2 ix) = min 3 2 \<and>
    (\<forall>F. matching 3 2 F \<longrightarrow> card F = min 3 2 \<longrightarrow> cost (ent 3 [1, 2, 3, 2, 4, 6]) (pairs 3 2 ix) \<le> cost (ent 3 [1, 2, 3, 2, 4, 6]) F)"
    by (rule match_optimal) simp_all
  then show ?thesis by auto
qed

text \<open>
  C7. One frame of the Munkres tracker, with at most 31 new and 31 old blobs on a normalized image: the ids of
  the old blobs are taken over along a matching that is as large as possible and has the smallest sum of
  squared distances (of the coordinates rounded to the grid of the tracker) among the matchings of its size; every
  other new blob gets a number that has not been used. The old blob with the id \<open>-10\<close>, which the code uses for \<open>none\<close>, would not hand its id on.
\<close>

theorem munkres_optimal:
  assumes "\<forall>c \<in> set (new_blobs t). blob_ok va 1 B c" "\<forall>c \<in> set (old_blobs t). blob_ok va 1 B c \<and> blob_id c \<noteq> -10 \<and> blob_id c \<le> n"
    "distinct (map blob_id (old_blobs t))" "0 \<le> n" "n + int (length (new_blobs t)) \<le> 2147483647"
    "length (new_blobs t) < 32" "length (old_blobs t) < 32"
  shows "\<exists>n' bs P. munkres_trackBlobs props n t = Inr (n', t\<lparr>new_blobs := bs\<rparr>) \<and> length bs = length (new_blobs t) \<and> distinct (map blob_id bs) \<and>
    matching (length (new_blobs t)) (length (old_blobs t)) P \<and> card P = min (length (new_blobs t)) (length (old_blobs t)) \<and>
    (\<forall>F. matching (length (new_blobs t)) (length (old_blobs t)) F \<longrightarrow> card F = card P \<longrightarrow>
       cost (\<lambda>r c. sqdist (new_blobs t ! r) (old_blobs t ! c)) P \<le> cost (\<lambda>r c. sqdist (new_blobs t ! r) (old_blobs t ! c)) F) \<and>
    (\<forall>(r, c) \<in> P. blob_id (bs ! r) = blob_id (old_blobs t ! c)) \<and> (\<forall>r < length bs. r \<notin> fst ` P \<longrightarrow> n < blob_id (bs ! r))"
proof -
  obtain n' bs P where P: "munkres_trackBlobs props n t = Inr (n', t\<lparr>new_blobs := bs\<rparr>)" "list_all2 (changed {''blob_id''}) (new_blobs t) bs"
    "fresh_ids n n' (old_blobs t) bs" "matching (length (new_blobs t)) (length (old_blobs t)) P" "card P = min (length (new_blobs t)) (length (old_blobs t))"
    "\<forall>F. matching (length (new_blobs t)) (length (old_blobs t)) F \<longrightarrow> card F = card P \<longrightarrow>
       cost (\<lambda>r c. sqdist (new_blobs t ! r) (old_blobs t ! c)) P \<le> cost (\<lambda>r c. sqdist (new_blobs t ! r) (old_blobs t ! c)) F"
    "\<forall>r < length bs. \<forall>c. (r, c) \<in> P \<longrightarrow> blob_id (old_blobs t ! c) \<noteq> -10 \<longrightarrow> blob_id (bs ! r) = blob_id (old_blobs t ! c)"
    "\<forall>r < length bs. r \<notin> fst ` P \<longrightarrow> n < blob_id (bs ! r)"
    using munkres_track_ok [of t va B va B n props] assms by blast
  have len: "length bs = length (new_blobs t)" using list_all2_lengthD [OF P(2)] by simp
  have "\<forall>(r, c) \<in> P. blob_id (bs ! r) = blob_id (old_blobs t ! c)"
    using P(4,7) len assms(2) by (auto simp: matching_def)
  moreover have "distinct (map blob_id bs)" using P(3) by (simp add: fresh_ids_def)
  ultimately show ?thesis using P len by blast
qed

lemma munkres_optimal_witness:
  "\<exists>n' bs P. munkres_trackBlobs sample_settings 9 (new_tracker\<lparr>old_blobs := [sample_copy], new_blobs := [sample_copy]\<rparr>) =
      Inr (n', new_tracker\<lparr>old_blobs := [sample_copy], new_blobs := bs\<rparr>) \<and> matching 1 1 P \<and> card P = 1 \<and> (\<forall>(r, c) \<in> P. blob_id (bs ! r) = 7)"
proof -
  let ?t = "new_tracker\<lparr>old_blobs := [sample_copy], new_blobs := [sample_copy]\<rparr>"
  obtain n' bs P where P: "munkres_trackBlobs sample_settings 9 ?t = Inr (n', ?t\<lparr>new_blobs := bs\<rparr>)" "matching 1 1 P" "card P = 1"
    "\<forall>(r, c) \<in> P. blob_id (bs ! r) = blob_id ([sample_copy] ! c)"
    using munkres_optimal [of ?t False 0 9 sample_settings] sample_copied by auto
  moreover have "c = 0" if "(r, c) \<in> P" for r c using P(2) that by (auto simp: matching_def)
  then have "\<forall>(r, c) \<in> P. blob_id (bs ! r) = 7" using P(4) sample_copied(3) by fastforce
  ultimately show ?thesis by (intro exI [of _ n'] exI [of _ bs] exI [of _ P]) simp
qed

text \<open>
  C21. An update with the Munkres tracker, from any state the tracker can be in, with at most 31 blobs found and
  at most 31 remembered: it returns, keeps the invariant of the tracker (every remembered blob has its properties, ids are
  pairwise different and at most the counter), and publishes the remembered blobs whose age lies between \<open>min_age\<close> and \<open>max_age\<close>.
\<close>

theorem munkres_update:
  assumes "settings_ok props max_age min_age" "tracker_inv va 1 B F n t" "\<forall>b \<in> set blobs. found_blob va 1 b"
    "\<bar>max_age\<bar> < B" "\<bar>min_age\<bar> < B" "B < 2147483647" "0 \<le> F" "F < 20000000" "0 \<le> n" "n + int (length blobs) \<le> 2147483647"
    "length blobs < 32" "length (old_blobs t) < 32"
  shows "\<exists>n' t'. tracker_update munkres_trackBlobs props blobs n t = Inr (n', t', filter (kept max_age min_age) (old_blobs t')) \<and>
    tracker_inv va 1 (B + 1) (F + 1) n' t' \<and> n \<le> n' \<and> n' \<le> n + int (length blobs) \<and>
    length (old_blobs t') \<le> length blobs + length (old_blobs t)"
  by (rule munkres.update_ok [OF assms(1,2) bspec [OF assms(3)] assms(4-10)]) (use assms(11,12) in auto)

definition text_blob :: moDataGenericContainer where
  "text_blob = [(''implements'', new_cstr ''pos'' ''''), (''x'', new_cstr ''0.5'' ''''), (''y'', new_cstr ''0.5'' '''')]"

lemma munkres_update_witness:
  "\<exists>n' t'. tracker_update munkres_trackBlobs sample_settings [text_blob] 9 (new_tracker\<lparr>old_blobs := [sample_copy]\<rparr>) =
      Inr (n', t', filter (kept 10 3) (old_blobs t')) \<and> tracker_inv False 1 12 1 n' t' \<and> n' \<le> 10"
proof -
  have inv: "tracker_inv False 1 11 0 9 (new_tracker\<lparr>old_blobs := [sample_copy]\<rparr>)"
    using sample_copied by (simp add: tracker_inv_def tracked_blob_def blob_ok_def)
  have "found_blob False 1 text_blob"
    by (auto simp: found_blob_def text_blob_def smap_wf_def promises_def str_at_def sval_def asString_def new_simps prop_init_def
        prop_wf_def flag_def c_str_def clone_def near_def dbl_at_def get_double_def cprop_def asDouble_def sample_point)
  then show ?thesis using munkres_update [OF sample_settings_ok inv, of "[text_blob]"] by auto
qed

end
