(* ===== verification/Movid_Tuio.thy ===== *)
theory Movid_Tuio
  imports Movid_Osc Movid_Float Movid_Match
begin

text \<open>
  \<open>moTuioModule\<close> and \<open>moTuio2Module\<close>, the ends of a pipeline: what a tracker publishes is written to Open Sound Control
  bundles and sent to the clients with \<open>moOSC\<close>.

  The sockets are not modelled: \<open>moOSC::send\<close> yields the datagram it passes to \<open>sendto\<close>, with the address and port. The data of the
  input stream are an argument; so is the clock of TUIO 2.
\<close>

section \<open>moOSC\<close>

record moOSC =
  osc_ip :: string
  osc_port :: int

type_synonym datagram = "string \<times> int \<times> char list"

text \<open>The port is an \<open>unsigned short\<close>.\<close>

definition osc_new :: "string \<Rightarrow> int \<Rightarrow> moOSC" where
  "osc_new ip port = \<lparr>osc_ip = ip, osc_port = port mod 65536\<rparr>"

definition osc_send :: "WOscBundle \<Rightarrow> moOSC option \<Rightarrow> datagram result" where
  "osc_send b osc =
     (case osc of None \<Rightarrow> Inl NullDeref
      | Some c \<Rightarrow> Inr (osc_ip c, osc_port c, take (bundle_GetBufferLen b) (GenerateBufferFromElements b)))"

definition osc_send_message :: "WOscMessage \<Rightarrow> moOSC option \<Rightarrow> datagram result" where
  "osc_send_message m osc =
     (case osc of None \<Rightarrow> Inl NullDeref | Some c \<Rightarrow> Inr (osc_ip c, osc_port c, m_buffer m))"

definition add_int_of :: "string \<Rightarrow> moDataGenericContainer \<Rightarrow> WOscMessage \<Rightarrow> WOscMessage result" where
  "add_int_of name c m = bindR (get_int name c) (\<lambda>i. Add_int i m)"

definition add_float_of :: "string \<Rightarrow> moDataGenericContainer \<Rightarrow> WOscMessage \<Rightarrow> WOscMessage result" where
  "add_float_of name c m = bindR (get_double name c) (\<lambda>x. bindR (to_float x) (\<lambda>f. Add_float f m))"

text \<open>A sequence of statements \<open>msg->Add(..)\<close>.\<close>

fun adds :: "(WOscMessage \<Rightarrow> WOscMessage result) list \<Rightarrow> WOscMessage \<Rightarrow> WOscMessage result" where
  "adds [] m = Inr m"
| "adds (f # fs) m = bindR (f m) (adds fs)"

definition in_implements :: "string \<Rightarrow> moDataGenericContainer \<Rightarrow> bool result" where
  "in_implements w c = bindR (get_string ''implements'' c) (\<lambda>s. inList w s '','')"

section \<open>TUIO\<close>

datatype tuio_type = TUIO_UNKNOWN | TUIO_2DCUR | TUIO_2DOBJ

record moTuioModule =
  tuio_osc :: "moOSC option"
  fseq :: int
  tuio_kind :: tuio_type

definition tuio_new :: moTuioModule where
  "tuio_new = \<lparr>tuio_osc = None, fseq = 0, tuio_kind = TUIO_UNKNOWN\<rparr>"

definition tuio_start :: "(string, moProperty) smap \<Rightarrow> moTuioModule \<Rightarrow> moTuioModule result" where
  "tuio_start props t =
     bindR (asString (module_prop ''ip'' props)) (\<lambda>ip.
       mapR (\<lambda>port. t\<lparr>tuio_osc := Some (osc_new ip port)\<rparr>) (asInteger (module_prop ''port'' props)))"

definition tuio_stop :: "moTuioModule \<Rightarrow> moTuioModule" where
  "tuio_stop t = t\<lparr>tuio_osc := None\<rparr>"

definition tuio_probe :: "moDataGenericContainer \<Rightarrow> tuio_type result" where
  "tuio_probe c =
     bindR (get_string ''implements'' c) (\<lambda>s.
     bindR (inList ''fiducial'' s '','') (\<lambda>f.
     mapR (\<lambda>m. if f \<or> m then TUIO_2DOBJ else TUIO_2DCUR) (if f then Inr True else inList ''markerlessobject'' s '','')))"

definition tuio_path :: "tuio_type \<Rightarrow> string" where
  "tuio_path k = (if k = TUIO_2DOBJ then ''/tuio/2Dobj'' else ''/tuio/2Dcur'')"

fun alive_loop :: "moDataGenericContainer list \<Rightarrow> WOscMessage \<Rightarrow> WOscMessage result" where
  "alive_loop [] msg = Inr msg"
| "alive_loop (c # cs) msg =
     bindR (in_implements ''tracked'' c) (\<lambda>tr. if \<not> tr then Inl AssertFailed
     else bindR (in_implements ''pos'' c) (\<lambda>po. if \<not> po then Inl AssertFailed
     else bindR (add_int_of ''blob_id'' c msg) (alive_loop cs)))"

text \<open>\<open>/tuio/2Dobj set s i x y a X Y A m r\<close> and \<open>/tuio/2Dcur set s x y X Y m [w h]\<close>\<close>

definition set_obj :: "moDataGenericContainer \<Rightarrow> WOscMessage \<Rightarrow> WOscMessage result" where
  "set_obj c =
     adds [add_int_of ''blob_id'' c, add_int_of ''fiducial_id'' c, add_float_of ''x'' c, add_float_of ''y'' c, add_float_of ''angle'' c,
           Add_float 0, Add_float 0, Add_float 0, Add_float 0, Add_float 0]"

definition set_cur :: "(string, moProperty) smap \<Rightarrow> moDataGenericContainer \<Rightarrow> WOscMessage \<Rightarrow> WOscMessage result" where
  "set_cur props c msg =
     bindR (adds [add_int_of ''blob_id'' c, add_float_of ''x'' c, add_float_of ''y'' c, Add_float 0, Add_float 0, Add_float 0] msg) (\<lambda>m1.
     bindR (asBool (module_prop ''sendsize'' props)) (\<lambda>b.
     bindR (if b then in_implements ''size'' c else Inr False) (\<lambda>s.
       if s then adds [add_float_of ''width'' c, add_float_of ''height'' c] m1 else Inr m1)))"

definition set_message :: "(string, moProperty) smap \<Rightarrow> tuio_type \<Rightarrow> moDataGenericContainer \<Rightarrow> WOscMessage result" where
  "set_message props k c =
     bindR (message_new (Some (tuio_path k))) (\<lambda>m0.
     bindR (Add_string ''set'' m0) (\<lambda>m1.
       case k of TUIO_2DOBJ \<Rightarrow> set_obj c m1 | TUIO_2DCUR \<Rightarrow> set_cur props c m1 | TUIO_UNKNOWN \<Rightarrow> Inr m1))"

fun tuio_set_loop :: "(string, moProperty) smap \<Rightarrow> tuio_type \<Rightarrow> moDataGenericContainer list \<Rightarrow> WOscBundle \<Rightarrow> WOscBundle result" where
  "tuio_set_loop props k [] b = Inr b"
| "tuio_set_loop props k (c # cs) b = bindR (set_message props k c) (\<lambda>m. tuio_set_loop props k cs (bundle_Add_message m b))"

text \<open>\<open>notifyData\<close>, for the data of a stream: nothing is sent while there has never been a blob.\<close>

definition tuio_bundle :: "(string, moProperty) smap \<Rightarrow> tuio_type \<Rightarrow> int \<Rightarrow> moDataGenericContainer list \<Rightarrow> WOscBundle result" where
  "tuio_bundle props k n list =
     bindR (message_new (Some (tuio_path k))) (\<lambda>m0.
     bindR (Add_string ''alive'' m0) (\<lambda>m1.
     bindR (alive_loop list m1) (\<lambda>alive.
     bindR (tuio_set_loop props k list (bundle_Add_message alive bundle_new)) (\<lambda>b.
     bindR (message_new (Some (tuio_path k))) (\<lambda>f0.
     bindR (Add_string ''fseq'' f0) (\<lambda>f1.
     mapR (\<lambda>f2. bundle_Add_message f2 b) (Add_int n f1)))))))"

definition tuio_notifyData :: "(string, moProperty) smap \<Rightarrow> nat option \<Rightarrow> nat option \<Rightarrow> moDataGenericContainer list option \<Rightarrow> moTuioModule \<Rightarrow>
    (moTuioModule \<times> datagram list) result" where
  "tuio_notifyData props input own data t =
     (if input = None \<or> input \<noteq> own then Inl AssertFailed
      else (case data of
              None \<Rightarrow> Inl NullDeref
            | Some list \<Rightarrow>
                (if tuio_kind t = TUIO_UNKNOWN \<and> list = [] then Inr (t, [])
                 else bindR (if tuio_kind t = TUIO_UNKNOWN then tuio_probe (hd list) else Inr (tuio_kind t)) (\<lambda>k.
                      bindR (tuio_bundle props k (fseq t) list) (\<lambda>b.
                      bindR (chk32 (fseq t + 1)) (\<lambda>n.
                        mapR (\<lambda>d. (t\<lparr>fseq := n, tuio_kind := k\<rparr>, [d])) (osc_send b (tuio_osc t))))))))"

section \<open>TUIO 2\<close>

datatype tuio2_format = TUIO2_UNKNOWN | TUIO2_CURSOR | TUIO2_FIDUCIAL

record moTuio2Module =
  tuio2_osc :: "moOSC option"
  frame :: int

definition tuio2_new :: moTuio2Module where
  "tuio2_new = \<lparr>tuio2_osc = None, frame = 0\<rparr>"

definition tuio2_start :: "(string, moProperty) smap \<Rightarrow> moTuio2Module \<Rightarrow> moTuio2Module result" where
  "tuio2_start props t =
     bindR (asString (module_prop ''ip'' props)) (\<lambda>ip.
       mapR (\<lambda>port. t\<lparr>tuio2_osc := Some (osc_new ip port)\<rparr>) (asInteger (module_prop ''port'' props)))"

definition tuio2_stop :: "moTuio2Module \<Rightarrow> moTuio2Module" where
  "tuio2_stop t = t\<lparr>tuio2_osc := None\<rparr>"

definition probe :: "moDataGenericContainer list \<Rightarrow> tuio2_format result" where
  "probe list =
     (case list of
        [] \<Rightarrow> Inr TUIO2_UNKNOWN
      | c # _ \<Rightarrow> mapR (\<lambda>f. if f then TUIO2_FIDUCIAL else TUIO2_CURSOR) (in_implements ''fiducial'' c))"

text \<open>What the first loop of \<open>notifyData\<close> collects.\<close>

record relations =
  node_blob :: "(int, int) smap"
  have_relation :: bool
  ids_blob :: "int list"
  ids_parent :: "int list"

definition node_relations :: "moDataGenericContainer \<Rightarrow> int \<Rightarrow> relations \<Rightarrow> relations result" where
  "node_relations c id_blob r =
     bindR (get_int ''node_id'' c) (\<lambda>n.
       let r1 = r\<lparr>node_blob := smap_set n id_blob (node_blob r)\<rparr>
       in if hasProperty ''parent_node_id'' c
          then mapR (\<lambda>p. r1\<lparr>have_relation := True, ids_blob := ids_blob r1 @ [id_blob], ids_parent := ids_parent r1 @ [p]\<rparr>)
                 (get_int ''parent_node_id'' c)
          else Inr r1)"

fun alv_loop :: "moDataGenericContainer list \<Rightarrow> WOscMessage \<Rightarrow> relations \<Rightarrow> (WOscMessage \<times> relations) result" where
  "alv_loop [] msg r = Inr (msg, r)"
| "alv_loop (c # cs) msg r =
     bindR (in_implements ''tracked'' c) (\<lambda>tr.
       if \<not> tr then alv_loop cs msg r
       else bindR (get_int ''blob_id'' c) (\<lambda>id_blob.
            bindR (Add_int id_blob msg) (\<lambda>msg1.
            bindR (in_implements ''node'' c) (\<lambda>nd.
              if nd then bindR (node_relations c id_blob r) (alv_loop cs msg1) else alv_loop cs msg1 r))))"

definition ptr_message :: "moDataGenericContainer \<Rightarrow> WOscMessage result" where
  "ptr_message c =
     bindR (message_new (Some ''/tuio2/ptr''))
       (adds [add_int_of ''blob_id'' c, Add_int 1, add_int_of ''blob_id'' c, add_float_of ''x'' c, add_float_of ''y'' c, Add_int 0, Add_int 1])"

text \<open>The bits of \<open>(float)1.0\<close>\<close>

definition float_one :: "32 word" where
  "float_one = 1065353216"

definition bnd_message :: "moDataGenericContainer \<Rightarrow> WOscMessage result" where
  "bnd_message c =
     bindR (message_new (Some ''/tuio2/bnd''))
       (adds [add_int_of ''blob_id'' c, add_float_of ''x'' c, add_float_of ''y'' c, Add_float 0, add_float_of ''width'' c,
              add_float_of ''height'' c, Add_float float_one])"

fun packBlob :: "moDataGenericContainer list \<Rightarrow> WOscBundle \<Rightarrow> WOscBundle result" where
  "packBlob [] b = Inr b"
| "packBlob (c # cs) b =
     bindR (ptr_message c) (\<lambda>m.
     bindR (in_implements ''size'' c) (\<lambda>s.
       if s then bindR (bnd_message c) (\<lambda>m2. packBlob cs (bundle_Add_message m2 (bundle_Add_message m b)))
       else packBlob cs (bundle_Add_message m b)))"

fun packFiducial :: "moDataGenericContainer list \<Rightarrow> WOscBundle \<Rightarrow> WOscBundle result" where
  "packFiducial [] b = Inr b"
| "packFiducial (c # cs) b =
     bindR (bindR (message_new (Some ''/tuio2/tok''))
       (adds [add_int_of ''blob_id'' c, add_int_of ''blob_id'' c, add_int_of ''blob_id'' c, add_float_of ''x'' c, add_float_of ''y'' c,
              add_float_of ''angle'' c])) (\<lambda>m. packFiducial cs (bundle_Add_message m b))"

definition blob_of_node :: "(int, int) smap \<Rightarrow> int \<Rightarrow> int" where
  "blob_of_node m n = (case map_of m n of Some b \<Rightarrow> b | None \<Rightarrow> 0)"

fun coa_children :: "int \<Rightarrow> moDataGenericContainer list \<Rightarrow> WOscMessage \<Rightarrow> WOscMessage result" where
  "coa_children parent [] msg = Inr msg"
| "coa_children parent (c # cs) msg =
     bindR (in_implements ''node'' c) (\<lambda>nd.
       if \<not> nd \<or> \<not> hasProperty ''parent_node_id'' c then coa_children parent cs msg
       else bindR (get_int ''parent_node_id'' c) (\<lambda>p.
              if p \<noteq> parent then coa_children parent cs msg
              else bindR (add_int_of ''blob_id'' c msg) (coa_children parent cs)))"

fun coa_loop :: "moDataGenericContainer list \<Rightarrow> (int, int) smap \<Rightarrow> int list \<Rightarrow> WOscBundle \<Rightarrow> WOscBundle result" where
  "coa_loop list nb [] b = Inr b"
| "coa_loop list nb (p # ps) b =
     bindR (bindR (message_new (Some ''/tuio2/coa'')) (adds [Add_int (blob_of_node nb p), Add_int 0, coa_children p list])) (\<lambda>m.
       coa_loop list nb ps (bundle_Add_message m b))"

definition pack_relations :: "moDataGenericContainer list \<Rightarrow> relations \<Rightarrow> WOscBundle \<Rightarrow> WOscBundle result" where
  "pack_relations list r b =
     (if \<not> have_relation r then Inr b
      else (let ps = remdups_adj (ids_parent r); bs = remdups_adj (ids_blob r)
            in bindR (bindR (message_new (Some ''/tuio2/ala''))
                 (adds (map (\<lambda>p. Add_int (blob_of_node (node_blob r) p)) ps @ map Add_int bs))) (\<lambda>m.
               coa_loop list (node_blob r) ps (bundle_Add_message m b))))"

definition tuio2_bundle :: "int \<Rightarrow> int \<Rightarrow> moDataGenericContainer list \<Rightarrow> (WOscBundle \<times> bool) result" where
  "tuio2_bundle n now list =
     bindR (bindR (message_new (Some ''/tuio2/frm'')) (adds [Add_int n, Add_int now, Add_string ''movid''])) (\<lambda>frm.
     bindR (message_new (Some ''/tuio2/alv'')) (\<lambda>alv0.
     bindR (alv_loop list alv0 \<lparr>node_blob = [], have_relation = False, ids_blob = [], ids_parent = []\<rparr>) (\<lambda>(alv, r).
       let b = bundle_Add_message alv (bundle_Add_message frm bundle_new)
       in bindR (probe list) (\<lambda>format.
          bindR (case format of TUIO2_FIDUCIAL \<Rightarrow> packFiducial list b | TUIO2_CURSOR \<Rightarrow> packBlob list b | TUIO2_UNKNOWN \<Rightarrow> Inr b) (\<lambda>b1.
            mapR (\<lambda>b2. (b2, format \<noteq> TUIO2_UNKNOWN)) (pack_relations list r b1))))))"

definition tuio2_notifyData :: "int \<Rightarrow> nat option \<Rightarrow> nat option \<Rightarrow> moDataGenericContainer list option \<Rightarrow> moTuio2Module \<Rightarrow>
    (moTuio2Module \<times> datagram list) result" where
  "tuio2_notifyData now input own data t =
     (if input = None \<or> input \<noteq> own then Inl AssertFailed
      else (case data of
              None \<Rightarrow> Inl NullDeref
            | Some list \<Rightarrow>
                bindR (chk32 (frame t + 1)) (\<lambda>n.
                bindR (tuio2_bundle (frame t) now list) (\<lambda>(b, ret).
                  if ret then mapR (\<lambda>d. (t\<lparr>frame := n\<rparr>, [d])) (osc_send b (tuio2_osc t)) else Inr (t\<lparr>frame := n\<rparr>, [])))))"

section \<open>The messages\<close>

text \<open>The bits of a coordinate on the wire.\<close>

definition float_at :: "string \<Rightarrow> moDataGenericContainer \<Rightarrow> 32 word" where
  "float_at n c = (case to_float (dbl_at n c) of Inr w \<Rightarrow> w | Inl _ \<Rightarrow> 0)"

lemma add_int_of_ok:
  "cok c \<Longrightarrow> n \<in> keys c \<Longrightarrow> add_int_of n c (message_of a args) = Inr (message_of a (args @ [OInt (int_at n c)]))"
  by (simp add: add_int_of_def get_ok(1) Add_message)

lemma add_float_of_ok:
  assumes "cok c" "n \<in> keys c" "\<bar>dbl_at n c\<bar> < 2 ^ 127"
  shows "add_float_of n c (message_of a args) = Inr (message_of a (args @ [OFloat (float_at n c)]))"
proof -
  obtain w where "to_float (dbl_at n c) = Inr w" using to_float_ok [OF assms(3)] by blast
  then show ?thesis using get_double_at [OF assms(1,2)] by (simp add: add_float_of_def Add_message float_at_def)
qed

lemma in_implements_flag:
  "cok c \<Longrightarrow> ''implements'' \<in> keys c \<Longrightarrow> in_implements ''tracked'' c = Inr (flag ''tracked'' (str_at ''implements'' c))"
  "cok c \<Longrightarrow> ''implements'' \<in> keys c \<Longrightarrow> in_implements ''pos'' c = Inr (flag ''pos'' (str_at ''implements'' c))"
  "cok c \<Longrightarrow> ''implements'' \<in> keys c \<Longrightarrow> in_implements ''size'' c = Inr (flag ''size'' (str_at ''implements'' c))"
  "cok c \<Longrightarrow> ''implements'' \<in> keys c \<Longrightarrow> in_implements ''fiducial'' c = Inr (flag ''fiducial'' (str_at ''implements'' c))"
  "cok c \<Longrightarrow> ''implements'' \<in> keys c \<Longrightarrow> in_implements ''node'' c = Inr (flag ''node'' (str_at ''implements'' c))"
  by (simp_all add: in_implements_def get_ok(4) inList_flag inList_comma flag_def)

text \<open>What the modules need of a blob, as a cursor or as an object.\<close>

definition on_wire :: "string \<Rightarrow> moDataGenericContainer \<Rightarrow> bool" where
  "on_wire n c \<longleftrightarrow> n \<in> keys c \<and> \<bar>dbl_at n c\<bar> < 2 ^ 127"

definition wire_blob :: "tuio_type \<Rightarrow> moDataGenericContainer \<Rightarrow> bool" where
  "wire_blob k c \<longleftrightarrow> cok c \<and> {''implements'', ''blob_id''} \<subseteq> keys c \<and> on_wire ''x'' c \<and> on_wire ''y'' c \<and>
     flag ''tracked'' (str_at ''implements'' c) \<and> flag ''pos'' (str_at ''implements'' c) \<and>
     (k = TUIO_2DOBJ \<longrightarrow> ''fiducial_id'' \<in> keys c \<and> on_wire ''angle'' c) \<and>
     (flag ''size'' (str_at ''implements'' c) \<longrightarrow> on_wire ''width'' c \<and> on_wire ''height'' c)"

definition set_args :: "bool \<Rightarrow> tuio_type \<Rightarrow> moDataGenericContainer \<Rightarrow> osc_arg list" where
  "set_args sz k c =
     (if k = TUIO_2DOBJ
      then [OString ''set'', OInt (blob_id c), OInt (int_at ''fiducial_id'' c), OFloat (float_at ''x'' c), OFloat (float_at ''y'' c),
            OFloat (float_at ''angle'' c), OFloat 0, OFloat 0, OFloat 0, OFloat 0, OFloat 0]
      else [OString ''set'', OInt (blob_id c), OFloat (float_at ''x'' c), OFloat (float_at ''y'' c), OFloat 0, OFloat 0, OFloat 0] @
           (if sz \<and> flag ''size'' (str_at ''implements'' c) then [OFloat (float_at ''width'' c), OFloat (float_at ''height'' c)] else []))"

definition tuio_messages :: "bool \<Rightarrow> tuio_type \<Rightarrow> int \<Rightarrow> moDataGenericContainer list \<Rightarrow> WOscMessage list" where
  "tuio_messages sz k n list =
     message_of (tuio_path k) (OString ''alive'' # map (\<lambda>c. OInt (blob_id c)) list) #
     map (\<lambda>c. message_of (tuio_path k) (set_args sz k c)) list @
     [message_of (tuio_path k) [OString ''fseq'', OInt n]]"

lemma message_new_path: "message_new (Some (tuio_path k)) = Inr (message_of (tuio_path k) [])"
  by (simp add: tuio_path_def message_new_of)

lemma set_message_ok:
  assumes "wire_blob k c" "k \<noteq> TUIO_UNKNOWN" "asBool (module_prop ''sendsize'' props) = Inr sz"
  shows "set_message props k c = Inr (message_of (tuio_path k) (set_args sz k c))"
proof -
  have c: "cok c" "''blob_id'' \<in> keys c" "''implements'' \<in> keys c" "on_wire ''x'' c" "on_wire ''y'' c" using assms(1) by (auto simp: wire_blob_def)
  have f: "on_wire n c \<Longrightarrow> add_float_of n c (message_of a args) = Inr (message_of a (args @ [OFloat (float_at n c)]))" for n a args
    using add_float_of_ok c(1) by (simp add: on_wire_def)
  note step = message_new_path Add_message add_int_of_ok [OF c(1)] f c in_implements_flag(3) [OF c(1,3)]
  show ?thesis
  proof (cases k)
    case TUIO_2DOBJ
    then show ?thesis using assms(1) by (simp add: set_message_def set_obj_def set_args_def step wire_blob_def)
  next
    case TUIO_2DCUR
    then show ?thesis using assms(1,3) by (auto simp: set_message_def set_cur_def set_args_def step wire_blob_def)
  qed (use assms(2) in simp)
qed

lemma alive_loop_ok:
  "\<forall>c \<in> set list. wire_blob k c \<Longrightarrow> alive_loop list (message_of a args) = Inr (message_of a (args @ map (\<lambda>c. OInt (blob_id c)) list))"
proof (induction list arbitrary: args)
  case (Cons c list)
  then show ?case by (simp add: wire_blob_def in_implements_flag add_int_of_ok)
qed simp

lemma tuio_set_loop_ok:
  assumes "\<forall>c \<in> set list. wire_blob k c" "k \<noteq> TUIO_UNKNOWN" "asBool (module_prop ''sendsize'' props) = Inr sz"
  shows "tuio_set_loop props k list (WOscBundle tt ms bs) = Inr (WOscBundle tt (ms @ map (\<lambda>c. message_of (tuio_path k) (set_args sz k c)) list) bs)"
  using assms
proof (induction list arbitrary: ms)
  case (Cons c list)
  then show ?case by (simp add: set_message_ok bundle_Add_message_def)
qed simp

lemma tuio_bundle_ok:
  assumes "\<forall>c \<in> set list. wire_blob k c" "k \<noteq> TUIO_UNKNOWN" "asBool (module_prop ''sendsize'' props) = Inr sz"
  shows "tuio_bundle props k n list = Inr (WOscBundle GetImmediateTime (tuio_messages sz k n list) [])"
  using alive_loop_ok [OF assms(1)] tuio_set_loop_ok [OF assms]
  by (simp add: tuio_bundle_def message_new_path Add_message bundle_Add_message_def bundle_new_def tuio_messages_def)

lemma tuio_messages_built:
  assumes "\<forall>c \<in> set list. wire_blob k c" "int32 n"
  shows "bundle_ok (WOscBundle tt (tuio_messages sz k n list) [])"
proof -
  have p: "message_ok (tuio_path k) args \<longleftrightarrow> (\<forall>x \<in> set args. arg_ok x)" for args by (simp add: message_ok_def tuio_path_def no_nul_def)
  have id: "int32 (int_at m c)" if "wire_blob k c" "m \<in> keys c" for c m using get_ok(2) that by (simp add: wire_blob_def)
  have "message_ok (tuio_path k) (set_args sz k c)" if c: "c \<in> set list" for c
  proof -
    have w: "wire_blob k c" using assms(1) c by blast
    then show ?thesis using id [OF w] by (auto simp: p set_args_def no_nul_def wire_blob_def)
  qed
  moreover have "message_ok (tuio_path k) (OString ''alive'' # map (\<lambda>c. OInt (blob_id c)) list)"
    using assms(1) id by (auto simp: p no_nul_def wire_blob_def)
  moreover have "message_ok (tuio_path k) [OString ''fseq'', OInt n]" using assms(2) by (simp add: p no_nul_def)
  ultimately show ?thesis unfolding bundle_ok.simps built_messages by (auto simp: tuio_messages_def)
qed

text \<open>The size of a bundle grows by at most 96 bytes with a blob.\<close>

lemma message_length:
  "length (m_buffer (message_of (tuio_path k) args)) = 12 + (length args + 1 + (4 - (length args + 1) mod 4)) + length (args_bytes args)"
  by (simp add: message_of_def length_oscpad tuio_path_def tag_text_def)

lemma tuio_messages_length: "bundle_GetBufferLen (WOscBundle tt (tuio_messages sz k n list) []) \<le> 128 + 96 * length list"
proof -
  have a: "length (args_bytes (map (\<lambda>c. OInt (blob_id c)) list)) = 4 * length list" by (induction list) auto
  have "4 + length (m_buffer (message_of (tuio_path k) (set_args sz k c))) \<le> 80" for c
    unfolding message_length by (auto simp: set_args_def oscpad_def)
  then have "(\<Sum>c\<leftarrow>list. 4 + length (m_buffer (message_of (tuio_path k) (set_args sz k c)))) \<le> (\<Sum>c\<leftarrow>list. 80)" by (intro sum_list_mono) blast
  moreover have "length (m_buffer (message_of (tuio_path k) (OString ''alive'' # map (\<lambda>c. OInt (blob_id c)) list))) \<le> 40 + 6 * length list"
    unfolding message_length using a by (simp add: oscpad_def)
  moreover have "length (m_buffer (message_of (tuio_path k) [OString ''fseq'', OInt n])) \<le> 40" unfolding message_length by (simp add: oscpad_def)
  ultimately show ?thesis by (simp add: tuio_messages_def comp_def sum_list_triv)
qed

lemma tuio_sends_bundle:
  assumes list: "\<forall>c \<in> set list. wire_blob k c" "length list \<le> 20000000" and k: "tuio_kind t = k" "k \<noteq> TUIO_UNKNOWN" and osc: "tuio_osc t = Some osc"
    and sz: "asBool (module_prop ''sendsize'' props) = Inr sz" and n: "0 \<le> fseq t" "fseq t < 2147483647"
  shows "\<exists>bytes. tuio_notifyData props (Some s) (Some s) (Some list) t = Inr (t\<lparr>fseq := fseq t + 1\<rparr>, [(osc_ip osc, osc_port osc, bytes)]) \<and>
    bundle_parse bytes (length bytes) = Inr (WOscBundle GetImmediateTime (tuio_messages sz k (fseq t) list) [])"
proof -
  let ?b = "WOscBundle GetImmediateTime (tuio_messages sz k (fseq t) list) []"
  have ok: "bundle_ok ?b" by (rule tuio_messages_built) (use list n in \<open>auto simp: INT_MIN_def INT_MAX_def\<close>)
  have len: "bundle_GetBufferLen ?b \<le> 2147483647"
    using tuio_messages_length [of GetImmediateTime sz k "fseq t" list] list(2) by linarith
  have "tuio_notifyData props (Some s) (Some s) (Some list) t = Inr (t\<lparr>fseq := fseq t + 1\<rparr>, [(osc_ip osc, osc_port osc, GenerateBufferFromElements ?b)])"
    using tuio_bundle_ok [OF list(1) k(2) sz, of "fseq t"] k osc n
    by (simp add: tuio_notifyData_def chk32_def INT_MIN_def INT_MAX_def osc_send_def length_generate [symmetric] del: bundle_GetBufferLen.simps GenerateBufferFromElements.simps)
  moreover have "bundle_parse (GenerateBufferFromElements ?b) (length (GenerateBufferFromElements ?b)) = Inr ?b"
    using osc_bundle.decode_exact ok len by blast
  ultimately show ?thesis by blast
qed

section \<open>From the finder to the client\<close>

text \<open>The first blob decides what the module sends from then on.\<close>

lemma kind_probed:
  assumes "tuio_kind m = TUIO_UNKNOWN" "list \<noteq> []" "tuio_probe (hd list) = Inr k" "k \<noteq> TUIO_UNKNOWN"
  shows "tuio_notifyData props (Some s) (Some s) (Some list) m = tuio_notifyData props (Some s) (Some s) (Some list) (m\<lparr>tuio_kind := k\<rparr>)"
  using assms by (simp add: tuio_notifyData_def)

lemma float_at_near:
  assumes "\<bar>dbl_at n c\<bar> \<le> 1"
  shows "\<bar>float_value (float_at n c) - dbl_at n c\<bar> \<le> 1 / 2 ^ 24"
proof -
  have "\<bar>dbl_at n c\<bar> < 2 ^ 127" using assms by simp
  then obtain w where "to_float (dbl_at n c) = Inr w" "float_value w = flt (dbl_at n c)" using to_float_ok by blast
  then show ?thesis using flt_error [OF assms] by (simp add: float_at_def)
qed

lemma tracked_wire_blob:
  assumes "tracked_blob va D B F c" "D < 2 ^ 127"
  shows "wire_blob TUIO_2DCUR c"
proof -
  have b: "blob_ok va D B c" using assms(1) by (simp add: tracked_blob_def)
  note d = blob_okD [OF b]
  have "promises va (keys c) (str_at ''implements'' c)" "flag ''tracked'' (str_at ''implements'' c)" using b by (simp_all add: blob_ok_def)
  moreover have "\<bar>dbl_at ''x'' c\<bar> < 2 ^ 127" "\<bar>dbl_at ''y'' c\<bar> < 2 ^ 127" "\<bar>dbl_at ''width'' c\<bar> < 2 ^ 127" "\<bar>dbl_at ''height'' c\<bar> < 2 ^ 127"
    using d(14) assms(2) by (auto simp: near_def)
  ultimately show ?thesis using d(1,2,5) by (simp add: wire_blob_def on_wire_def promises_def)
qed

lemma kind_same: "tuio_kind m = k \<Longrightarrow> m\<lparr>tuio_kind := k\<rparr> = m"
  by (cases m) simp

context blob_tracker
begin

text \<open>What any tracker publishes in a frame reaches the client.\<close>

lemma update_to_wire:
  assumes "settings_ok props max_age min_age" "tracker_inv va D B F n t" "\<And>b. b \<in> set blobs \<Longrightarrow> found_blob va D b"
    "\<bar>max_age\<bar> < B" "\<bar>min_age\<bar> < B" "B < 2147483647" "0 \<le> F" "F < 20000000" "0 \<le> n" "n + int (length blobs) \<le> 2147483647"
    "length blobs \<le> room" "length (old_blobs t) \<le> room" and D: "D < 2 ^ 127" and few: "length blobs + length (old_blobs t) \<le> 20000000"
    and tuio: "tuio_kind m \<noteq> TUIO_2DOBJ" "tuio_osc m = Some osc" "asBool (module_prop ''sendsize'' tprops) = Inr sz" "0 \<le> fseq m" "fseq m < 2147483647"
  shows "\<exists>n' t' pub. tracker_update track props blobs n t = Inr (n', t', pub) \<and> tracker_inv va D (B + 1) (F + 1) n' t' \<and>
    pub = filter (kept max_age min_age) (old_blobs t') \<and> distinct (map blob_id pub) \<and>
    (tuio_kind m = TUIO_UNKNOWN \<and> pub = [] \<longrightarrow> tuio_notifyData tprops (Some s) (Some s) (Some pub) m = Inr (m, [])) \<and>
    (tuio_kind m = TUIO_2DCUR \<or> pub \<noteq> [] \<and> tuio_probe (hd pub) = Inr TUIO_2DCUR \<longrightarrow>
      (\<exists>bytes. tuio_notifyData tprops (Some s) (Some s) (Some pub) m =
        Inr (m\<lparr>fseq := fseq m + 1, tuio_kind := TUIO_2DCUR\<rparr>, [(osc_ip osc, osc_port osc, bytes)]) \<and>
        bundle_parse bytes (length bytes) = Inr (WOscBundle GetImmediateTime (tuio_messages sz TUIO_2DCUR (fseq m) pub) [])))"
proof -
  obtain n' t' where u: "tracker_update track props blobs n t = Inr (n', t', filter (kept max_age min_age) (old_blobs t'))"
    "tracker_inv va D (B + 1) (F + 1) n' t'" "length (old_blobs t') \<le> length blobs + length (old_blobs t)"
    using update_ok [OF assms(1-12)] by blast
  let ?pub = "filter (kept max_age min_age) (old_blobs t')" and ?m = "m\<lparr>tuio_kind := TUIO_2DCUR\<rparr>"
  have w: "\<forall>c \<in> set ?pub. wire_blob TUIO_2DCUR c" using u(2) D tracked_wire_blob by (fastforce simp: tracker_inv_def)
  have l: "length ?pub \<le> 20000000" using u(3) few length_filter_le [of "kept max_age min_age" "old_blobs t'"] by linarith
  have d: "distinct (map blob_id ?pub)" using u(2) by (simp add: tracker_inv_def distinct_map_filter)
  obtain bytes where s: "tuio_notifyData tprops (Some s) (Some s) (Some ?pub) ?m = Inr (?m\<lparr>fseq := fseq ?m + 1\<rparr>, [(osc_ip osc, osc_port osc, bytes)])"
    "bundle_parse bytes (length bytes) = Inr (WOscBundle GetImmediateTime (tuio_messages sz TUIO_2DCUR (fseq ?m) ?pub) [])"
    using tuio_sends_bundle [OF w l, of ?m osc tprops sz s] tuio by auto
  have "tuio_notifyData tprops (Some s) (Some s) (Some ?pub) m = tuio_notifyData tprops (Some s) (Some s) (Some ?pub) ?m"
    if "tuio_kind m = TUIO_2DCUR \<or> ?pub \<noteq> [] \<and> tuio_probe (hd ?pub) = Inr TUIO_2DCUR"
    using that tuio(1) kind_probed [of m ?pub TUIO_2DCUR tprops s] by (cases "tuio_kind m") (auto simp: kind_same)
  moreover have "?m\<lparr>fseq := fseq ?m + 1\<rparr> = m\<lparr>fseq := fseq m + 1, tuio_kind := TUIO_2DCUR\<rparr>" by simp
  ultimately show ?thesis using u(1,2) d s by (intro exI [of _ n'] exI [of _ t'] exI [of _ ?pub]) (auto simp: tuio_notifyData_def)
qed

end

section \<open>The messages of TUIO 2\<close>

definition impl_flag :: "string \<Rightarrow> moDataGenericContainer \<Rightarrow> bool" where
  "impl_flag w c = flag w (str_at ''implements'' c)"

definition wire2_blob :: "bool \<Rightarrow> moDataGenericContainer \<Rightarrow> bool" where
  "wire2_blob fid c \<longleftrightarrow> cok c \<and> {''implements'', ''blob_id''} \<subseteq> keys c \<and> on_wire ''x'' c \<and> on_wire ''y'' c \<and> impl_flag ''tracked'' c \<and>
     (fid \<longrightarrow> on_wire ''angle'' c) \<and> (impl_flag ''size'' c \<longrightarrow> on_wire ''width'' c \<and> on_wire ''height'' c) \<and>
     (impl_flag ''node'' c \<longrightarrow> ''node_id'' \<in> keys c)"

definition related :: "moDataGenericContainer \<Rightarrow> bool" where
  "related c \<longleftrightarrow> impl_flag ''node'' c \<and> ''parent_node_id'' \<in> keys c"

definition parent_of :: "moDataGenericContainer \<Rightarrow> int" where
  "parent_of c = int_at ''parent_node_id'' c"

definition note_node :: "(int, int) smap \<Rightarrow> moDataGenericContainer \<Rightarrow> (int, int) smap" where
  "note_node m c = (if impl_flag ''node'' c then smap_set (int_at ''node_id'' c) (blob_id c) m else m)"

definition relate :: "moDataGenericContainer list \<Rightarrow> relations \<Rightarrow> relations" where
  "relate list r =
     \<lparr>node_blob = foldl note_node (node_blob r) list, have_relation = (have_relation r \<or> filter related list \<noteq> []),
      ids_blob = ids_blob r @ map blob_id (filter related list), ids_parent = ids_parent r @ map parent_of (filter related list)\<rparr>"

lemma impl_flags:
  assumes "wire2_blob fid c"
  shows "in_implements ''tracked'' c = Inr True" "in_implements ''node'' c = Inr (impl_flag ''node'' c)" "in_implements ''size'' c = Inr (impl_flag ''size'' c)"
    "in_implements ''fiducial'' c = Inr (impl_flag ''fiducial'' c)" "get_int ''blob_id'' c = Inr (blob_id c)" "cok c" "''blob_id'' \<in> keys c"
  using assms in_implements_flag [of c] get_ok(1) [of c] by (auto simp: wire2_blob_def impl_flag_def)

lemma node_relations_ok:
  assumes "wire2_blob fid c" "impl_flag ''node'' c"
  shows "node_relations c (blob_id c) r = Inr (relate [c] r)"
proof -
  have n: "get_int ''node_id'' c = Inr (int_at ''node_id'' c)" using assms get_ok(1) by (auto simp: wire2_blob_def)
  have p: "get_int ''parent_node_id'' c = Inr (parent_of c)" if "related c" using that assms(1) get_ok(1) by (auto simp: related_def parent_of_def wire2_blob_def)
  have h: "hasProperty ''parent_node_id'' c = related c" using assms(2) by (auto simp: hasProperty_def related_def)
  show ?thesis using n p h assms(2) by (auto simp: node_relations_def relate_def note_node_def)
qed

lemma relate_Cons: "relate (c # list) r = relate list (relate [c] r)"
  by (simp add: relate_def)

lemma relate_plain: "\<not> impl_flag ''node'' c \<Longrightarrow> relate [c] r = r"
  by (simp add: relate_def note_node_def related_def)

lemma alv_loop_ok:
  "\<forall>c \<in> set list. wire2_blob fid c \<Longrightarrow>
   alv_loop list (message_of a args) r = Inr (message_of a (args @ map (\<lambda>c. OInt (blob_id c)) list), relate list r)"
proof (induction list arbitrary: args r)
  case Nil
  then show ?case by (simp add: relate_def)
next
  case (Cons c list)
  have c: "wire2_blob fid c" using Cons.prems by simp
  have ih: "alv_loop list (message_of a (args @ [OInt (blob_id c)])) (relate [c] r) =
      Inr (message_of a (args @ map (\<lambda>c. OInt (blob_id c)) (c # list)), relate (c # list) r)"
    using Cons by (subst relate_Cons) simp
  show ?case using ih impl_flags [OF c] node_relations_ok [OF c, of r] relate_plain [of c r]
    by (cases "impl_flag ''node'' c") (simp_all add: Add_message)
qed

definition ptr_args :: "moDataGenericContainer \<Rightarrow> osc_arg list" where
  "ptr_args c = [OInt (blob_id c), OInt 1, OInt (blob_id c), OFloat (float_at ''x'' c), OFloat (float_at ''y'' c), OInt 0, OInt 1]"

definition bnd_args :: "moDataGenericContainer \<Rightarrow> osc_arg list" where
  "bnd_args c = [OInt (blob_id c), OFloat (float_at ''x'' c), OFloat (float_at ''y'' c), OFloat 0, OFloat (float_at ''width'' c),
     OFloat (float_at ''height'' c), OFloat float_one]"

definition tok_args :: "moDataGenericContainer \<Rightarrow> osc_arg list" where
  "tok_args c = [OInt (blob_id c), OInt (blob_id c), OInt (blob_id c), OFloat (float_at ''x'' c), OFloat (float_at ''y'' c), OFloat (float_at ''angle'' c)]"

definition item_messages :: "bool \<Rightarrow> moDataGenericContainer \<Rightarrow> WOscMessage list" where
  "item_messages fid c =
     (if fid then [message_of ''/tuio2/tok'' (tok_args c)]
      else message_of ''/tuio2/ptr'' (ptr_args c) # (if impl_flag ''size'' c then [message_of ''/tuio2/bnd'' (bnd_args c)] else []))"

lemma wire2_floats:
  assumes "wire2_blob fid c" "on_wire n c"
  shows "add_float_of n c (message_of a args) = Inr (message_of a (args @ [OFloat (float_at n c)]))"
  using assms add_float_of_ok by (simp add: on_wire_def wire2_blob_def)

lemma pack_ok:
  assumes "\<forall>c \<in> set list. wire2_blob fid c"
  shows "(if fid then packFiducial list else packBlob list) (WOscBundle tt ms bs) = Inr (WOscBundle tt (ms @ concat (map (item_messages fid) list)) bs)"
  using assms
proof (induction list arbitrary: ms)
  case (Cons c list)
  have c: "wire2_blob fid c" using Cons.prems by simp
  have w: "on_wire ''x'' c" "on_wire ''y'' c" "fid \<Longrightarrow> on_wire ''angle'' c" "impl_flag ''size'' c \<Longrightarrow> on_wire ''width'' c \<and> on_wire ''height'' c"
    using c by (auto simp: wire2_blob_def)
  note step = message_new_of Add_message add_int_of_ok [OF impl_flags(6,7) [OF c]] wire2_floats [OF c] w
  have "ptr_message c = Inr (message_of ''/tuio2/ptr'' (ptr_args c))" by (simp add: ptr_message_def ptr_args_def step)
  moreover have "bnd_message c = Inr (message_of ''/tuio2/bnd'' (bnd_args c))" if "impl_flag ''size'' c"
    using that by (simp add: bnd_message_def bnd_args_def step)
  moreover have "bindR (message_new (Some ''/tuio2/tok''))
       (adds [add_int_of ''blob_id'' c, add_int_of ''blob_id'' c, add_int_of ''blob_id'' c, add_float_of ''x'' c, add_float_of ''y'' c,
              add_float_of ''angle'' c]) = Inr (message_of ''/tuio2/tok'' (tok_args c))" if fid
    using that by (simp add: tok_args_def step)
  ultimately show ?case using Cons impl_flags(3) [OF c]
    by (cases fid; cases "impl_flag ''size'' c") (simp_all add: item_messages_def bundle_Add_message_def del: adds.simps)
qed simp

text \<open>The relations between the blobs.\<close>

definition coa_args :: "moDataGenericContainer list \<Rightarrow> (int, int) smap \<Rightarrow> int \<Rightarrow> osc_arg list" where
  "coa_args list nb p =
     OInt (blob_of_node nb p) # OInt 0 # map (\<lambda>c. OInt (blob_id c)) (filter (\<lambda>c. related c \<and> parent_of c = p) list)"

lemma coa_children_ok:
  "\<forall>c \<in> set list. wire2_blob fid c \<Longrightarrow>
   coa_children p list (message_of a args) = Inr (message_of a (args @ map (\<lambda>c. OInt (blob_id c)) (filter (\<lambda>c. related c \<and> parent_of c = p) list)))"
proof (induction list arbitrary: args)
  case (Cons c list)
  have c: "wire2_blob fid c" using Cons.prems by simp
  have h: "impl_flag ''node'' c \<and> hasProperty ''parent_node_id'' c \<longleftrightarrow> related c" by (auto simp: hasProperty_def related_def)
  have p: "get_int ''parent_node_id'' c = Inr (parent_of c)" if "related c" using that c get_ok(1) by (auto simp: related_def parent_of_def wire2_blob_def)
  show ?case
  proof (cases "related c")
    case True
    then show ?thesis using Cons h p impl_flags [OF c] by (auto simp: add_int_of_def Add_message)
  next
    case False
    then show ?thesis using Cons h impl_flags(2) [OF c] by auto
  qed
qed simp

lemma coa_loop_ok:
  assumes "\<forall>c \<in> set list. wire2_blob fid c"
  shows "coa_loop list nb ps (WOscBundle tt ms bs) = Inr (WOscBundle tt (ms @ map (\<lambda>p. message_of ''/tuio2/coa'' (coa_args list nb p)) ps) bs)"
proof (induction ps arbitrary: ms)
  case (Cons p ps)
  then show ?case using coa_children_ok [OF assms, of p]
    by (simp add: message_new_of Add_message coa_args_def bundle_Add_message_def)
qed simp

lemma adds_ints: "adds (map Add_int is) (message_of a args) = Inr (message_of a (args @ map OInt is))"
  by (induction "is" arbitrary: args) (simp_all add: Add_message)

definition relation_messages :: "moDataGenericContainer list \<Rightarrow> WOscMessage list" where
  "relation_messages list =
     (let r = filter related list; nb = foldl note_node [] list; ps = remdups_adj (map parent_of r); bs = remdups_adj (map blob_id r)
      in if r = [] then []
         else message_of ''/tuio2/ala'' (map OInt (map (blob_of_node nb) ps @ bs)) # map (\<lambda>p. message_of ''/tuio2/coa'' (coa_args list nb p)) ps)"

lemma pack_relations_ok:
  assumes "\<forall>c \<in> set list. wire2_blob fid c"
  shows "pack_relations list (relate list \<lparr>node_blob = [], have_relation = False, ids_blob = [], ids_parent = []\<rparr>) (WOscBundle tt ms bs) =
    Inr (WOscBundle tt (ms @ relation_messages list) bs)"
proof -
  let ?r = "filter related list" and ?nb = "foldl note_node [] list"
  let ?ps = "remdups_adj (map parent_of ?r)" and ?bs = "remdups_adj (map blob_id ?r)"
  have a: "adds (map (\<lambda>p. Add_int (blob_of_node ?nb p)) ?ps @ map Add_int ?bs) (message_of ''/tuio2/ala'' []) =
      Inr (message_of ''/tuio2/ala'' (map OInt (map (blob_of_node ?nb) ?ps @ ?bs)))"
    using adds_ints [of "map (blob_of_node ?nb) ?ps @ ?bs" "''/tuio2/ala''" "[]"] by (simp add: comp_def)
  show ?thesis
  proof (cases "?r = []")
    case False
    then show ?thesis unfolding pack_relations_def relate_def relation_messages_def Let_def
      using coa_loop_ok [OF assms] a by (simp add: message_new_of bundle_Add_message_def del: map_append)
  qed (simp add: pack_relations_def relate_def relation_messages_def)
qed

definition tuio2_messages :: "int \<Rightarrow> int \<Rightarrow> bool \<Rightarrow> moDataGenericContainer list \<Rightarrow> WOscMessage list" where
  "tuio2_messages n now fid list =
     message_of ''/tuio2/frm'' [OInt n, OInt now, OString ''movid''] # message_of ''/tuio2/alv'' (map (\<lambda>c. OInt (blob_id c)) list) #
     concat (map (item_messages fid) list) @ relation_messages list"

lemma tuio2_bundle_ok:
  assumes "\<forall>c \<in> set list. wire2_blob fid c" "list \<noteq> []" "fid = impl_flag ''fiducial'' (hd list)"
  shows "tuio2_bundle n now list = Inr (WOscBundle GetImmediateTime (tuio2_messages n now fid list) [], True)"
proof -
  obtain c cs where l: "list = c # cs" using assms(2) by (cases list) auto
  have pr: "probe list = Inr (if fid then TUIO2_FIDUCIAL else TUIO2_CURSOR)"
    using impl_flags(4) [of fid c] assms(1,3) by (simp add: probe_def l)
  have pk: "(case if fid then TUIO2_FIDUCIAL else TUIO2_CURSOR of TUIO2_FIDUCIAL \<Rightarrow> packFiducial list b | TUIO2_CURSOR \<Rightarrow> packBlob list b | TUIO2_UNKNOWN \<Rightarrow> Inr b) =
      (if fid then packFiducial list else packBlob list) b" for b by simp
  show ?thesis unfolding tuio2_bundle_def pr bindR_simps pk
    using alv_loop_ok [OF assms(1)] pack_ok [OF assms(1)] pack_relations_ok [OF assms(1)]
    by (simp add: message_new_of Add_message bundle_Add_message_def bundle_new_def tuio2_messages_def)
qed

lemma note_node_values:
  assumes "\<forall>c \<in> set list. wire2_blob fid c" "\<forall>k v. map_of m k = Some v \<longrightarrow> int32 v"
  shows "\<forall>k v. map_of (foldl note_node m list) k = Some v \<longrightarrow> int32 v"
  using assms
proof (induction list arbitrary: m)
  case (Cons c list)
  have "int32 (blob_id c)" using Cons.prems(1) get_ok(2) by (simp add: wire2_blob_def)
  then have "\<forall>k v. map_of (note_node m c) k = Some v \<longrightarrow> int32 v" using Cons.prems(2) by (auto simp: note_node_def)
  then have "\<forall>k v. map_of (foldl note_node (note_node m c) list) k = Some v \<longrightarrow> int32 v" using Cons.prems(1) by (intro Cons.IH) simp_all
  then show ?case by simp
qed simp

lemma tuio2_messages_built:
  assumes list: "\<forall>c \<in> set list. wire2_blob fid c" and n: "int32 n" "int32 now"
  shows "bundle_ok (WOscBundle tt (tuio2_messages n now fid list) [])"
proof -
  have z: "int32 0" "int32 1" by (simp_all add: INT_MIN_def INT_MAX_def)
  have id: "int32 (blob_id c)" if "c \<in> set list" for c using list that get_ok(2) by (simp add: wire2_blob_def)
  have nb: "int32 (blob_of_node (foldl note_node [] list) p)" for p
    using note_node_values [OF list, of "[]"] z by (auto simp: blob_of_node_def split: option.split)
  have ok: "message_ok (CHR ''/'' # a) args \<longleftrightarrow> no_nul a \<and> (\<forall>x \<in> set args. arg_ok x)" for a args by (auto simp: message_ok_def no_nul_def)
  have "\<exists>a args. message_ok a args \<and> m = message_of a args" if m: "m \<in> set (item_messages fid c)" "c \<in> set list" for c m
  proof -
    have "message_ok ''/tuio2/tok'' (tok_args c)" "message_ok ''/tuio2/ptr'' (ptr_args c)" "message_ok ''/tuio2/bnd'' (bnd_args c)"
      unfolding ok using id [OF m(2)] z by (simp_all add: tok_args_def ptr_args_def bnd_args_def no_nul_def)
    then show ?thesis using m(1) by (auto simp: item_messages_def split: if_splits)
  qed
  moreover have "\<exists>a args. message_ok a args \<and> m = message_of a args" if m: "m \<in> set (relation_messages list)" for m
  proof -
    have "message_ok ''/tuio2/coa'' (coa_args list (foldl note_node [] list) p)" for p
      unfolding ok using id nb z by (auto simp: coa_args_def no_nul_def)
    moreover have "message_ok ''/tuio2/ala'' (map OInt (map (blob_of_node (foldl note_node [] list)) ps @ remdups_adj (map blob_id (filter related list))))" for ps
      unfolding ok using id nb by (auto simp: no_nul_def)
    ultimately show ?thesis using m unfolding relation_messages_def Let_def by (auto split: if_splits)
  qed
  moreover have "message_ok ''/tuio2/frm'' [OInt n, OInt now, OString ''movid'']" "message_ok ''/tuio2/alv'' (map (\<lambda>c. OInt (blob_id c)) list)"
    unfolding ok using n id by (auto simp: no_nul_def)
  ultimately show ?thesis unfolding bundle_ok.simps built_messages by (auto simp: tuio2_messages_def)
qed

section \<open>Properties\<close>

text \<open>
  C5. From the finder to the client, in a frame of cursors: from any state of the greedy tracker the update returns and keeps the invariant of
  the tracker, and what it publishes has pairwise different ids. A TUIO module that is new and gets no blob sends nothing. One that
  sends cursors already, or is new and gets a first blob that is neither a fiducial nor a markerless object, passes its assertions and
  sends one datagram; a client that reads the datagram finds the alive message with the ids of the published blobs, one set message per
  blob and the frame number; and a coordinate between -1 and 1 arrives with an error of at most \<open>2 ^ -24\<close>.
\<close>

theorem frame_to_wire:
  assumes "settings_ok props max_age min_age" "tracker_inv va D B F n t" "\<forall>b \<in> set blobs. found_blob va D b"
    "\<bar>max_age\<bar> < B" "\<bar>min_age\<bar> < B" "B < 2147483647" "0 \<le> F" "F < 20000000" "0 \<le> n" "n + int (length blobs) \<le> 2147483647"
    "D < 2 ^ 127" "length blobs + length (old_blobs t) \<le> 20000000"
    "tuio_kind m \<noteq> TUIO_2DOBJ" "tuio_osc m = Some osc" "asBool (module_prop ''sendsize'' tprops) = Inr sz" "0 \<le> fseq m" "fseq m < 2147483647"
  shows "\<exists>n' t' pub. tracker_update greedy_trackBlobs props blobs n t = Inr (n', t', pub) \<and> tracker_inv va D (B + 1) (F + 1) n' t' \<and>
    distinct (map blob_id pub) \<and>
    (tuio_kind m = TUIO_UNKNOWN \<and> pub = [] \<longrightarrow> tuio_notifyData tprops (Some s) (Some s) (Some pub) m = Inr (m, [])) \<and>
    (tuio_kind m = TUIO_2DCUR \<or> pub \<noteq> [] \<and> tuio_probe (hd pub) = Inr TUIO_2DCUR \<longrightarrow>
      (\<exists>bytes. tuio_notifyData tprops (Some s) (Some s) (Some pub) m =
        Inr (m\<lparr>fseq := fseq m + 1, tuio_kind := TUIO_2DCUR\<rparr>, [(osc_ip osc, osc_port osc, bytes)]) \<and>
        bundle_parse bytes (length bytes) = Inr (WOscBundle GetImmediateTime
          (message_of ''/tuio/2Dcur'' (OString ''alive'' # map (\<lambda>c. OInt (blob_id c)) pub) #
           map (\<lambda>c. message_of ''/tuio/2Dcur'' (set_args sz TUIO_2DCUR c)) pub @ [message_of ''/tuio/2Dcur'' [OString ''fseq'', OInt (fseq m)]]) []))) \<and>
    (\<forall>c \<in> set pub. \<forall>a \<in> {''x'', ''y''}. \<bar>dbl_at a c\<bar> \<le> 1 \<longrightarrow> \<bar>float_value (float_at a c) - dbl_at a c\<bar> \<le> 1 / 2 ^ 24)"
proof -
  have "tuio_messages sz TUIO_2DCUR (fseq m) pub = message_of ''/tuio/2Dcur'' (OString ''alive'' # map (\<lambda>c. OInt (blob_id c)) pub) #
       map (\<lambda>c. message_of ''/tuio/2Dcur'' (set_args sz TUIO_2DCUR c)) pub @ [message_of ''/tuio/2Dcur'' [OString ''fseq'', OInt (fseq m)]]" for pub
    by (simp add: tuio_messages_def tuio_path_def)
  then show ?thesis
    using greedy.update_to_wire [where room = "length blobs + length (old_blobs t)", OF assms(1,2) bspec [OF assms(3)] assms(4-10) _ _ assms(11-17), of s]
      float_at_near by fastforce
qed

text \<open>A module that has just been started, and a tracker that publishes the blob 7 at once.\<close>

definition sample_tuio :: moTuioModule where
  "sample_tuio = tuio_new\<lparr>tuio_osc := Some \<lparr>osc_ip = ''127.0.0.1'', osc_port = 3333\<rparr>\<rparr>"

definition eager_settings :: "(string, moProperty) smap" where
  "eager_settings = [(''max_age'', new_int 10 ''''), (''max_distance'', new_double (1 / 10) ''''),
     (''max_rotation_speed'', new_int 46 ''''), (''min_age'', new_int 1 '''')]"

lemma eager_settings_ok: "settings_ok eager_settings 10 1"
  by (simp add: settings_ok_def eager_settings_def module_prop_def get_double_def cprop_def asInteger_def asDouble_def
      new_simps prop_init_def dbl_int32 [of 46, simplified] int_of_double_of_int [of 46, simplified] INT_MIN_def INT_MAX_def)

definition sample_tuio_props :: "(string, moProperty) smap" where
  "sample_tuio_props = [(''ip'', new_cstr ''127.0.0.1'' ''''), (''port'', new_int 3333 ''''), (''sendsize'', new_bool True '''')]"

lemma sample_sendsize: "asBool (module_prop ''sendsize'' sample_tuio_props) = Inr True"
  by (simp add: sample_tuio_props_def module_prop_def asBool_def new_simps prop_init_def)

lemma sample_inv: "tracker_inv False 1 11 0 9 (new_tracker\<lparr>old_blobs := [sample_copy]\<rparr>)"
  using sample_copied by (simp add: tracker_inv_def tracked_blob_def blob_ok_def)

lemma eager_publishes:
  "\<exists>t'. tracker_update greedy_trackBlobs eager_settings [] 9 (new_tracker\<lparr>old_blobs := [sample_copy]\<rparr>) = Inr (9, t', old_blobs t') \<and>
    blob_id ` set (old_blobs t') = {7}"
proof -
  have "id_ages (new_tracker\<lparr>old_blobs := [sample_copy]\<rparr>) = {(7, 0)}"
    using sample_copied(3) by (simp add: id_ages_def) (simp add: int_at_def get_int_def cprop_def sample_copy_def asInteger_def new_simps prop_init_def ival_def)
  moreover obtain t' where t': "tracker_update greedy_trackBlobs eager_settings [] 9 (new_tracker\<lparr>old_blobs := [sample_copy]\<rparr>) = Inr (9, t', old_blobs t')"
    "id_ages t' = {(i, a + 1) |i a. (i, a) \<in> id_ages (new_tracker\<lparr>old_blobs := [sample_copy]\<rparr>) \<and> 1 \<le> a + 1 \<and> a + 1 \<le> 10}"
    using greedy.update_empty [OF eager_settings_ok sample_inv, of 1] by auto
  moreover have "blob_id ` set (old_blobs t') = fst ` id_ages t'" by (force simp: id_ages_def)
  ultimately show ?thesis by auto
qed

lemma frame_to_wire_witness:
  "\<exists>n' t' pub bytes. tracker_update greedy_trackBlobs eager_settings [] 9 (new_tracker\<lparr>old_blobs := [sample_copy]\<rparr>) = Inr (n', t', pub) \<and>
    blob_id ` set pub = {7} \<and>
    tuio_notifyData sample_tuio_props (Some 3) (Some 3) (Some pub) (sample_tuio\<lparr>tuio_kind := TUIO_2DCUR\<rparr>) =
      Inr (sample_tuio\<lparr>fseq := 1, tuio_kind := TUIO_2DCUR\<rparr>, [(''127.0.0.1'', 3333, bytes)])"
proof -
  obtain t' where t': "tracker_update greedy_trackBlobs eager_settings [] 9 (new_tracker\<lparr>old_blobs := [sample_copy]\<rparr>) = Inr (9, t', old_blobs t')"
    "blob_id ` set (old_blobs t') = {7}" using eager_publishes by blast
  have m: "tuio_kind (sample_tuio\<lparr>tuio_kind := TUIO_2DCUR\<rparr>) \<noteq> TUIO_2DOBJ" "tuio_osc (sample_tuio\<lparr>tuio_kind := TUIO_2DCUR\<rparr>) = Some \<lparr>osc_ip = ''127.0.0.1'', osc_port = 3333\<rparr>"
    "fseq (sample_tuio\<lparr>tuio_kind := TUIO_2DCUR\<rparr>) = 0" by (simp_all add: sample_tuio_def tuio_new_def)
  have "\<exists>bytes. tuio_notifyData sample_tuio_props (Some 3) (Some 3) (Some (old_blobs t')) (sample_tuio\<lparr>tuio_kind := TUIO_2DCUR\<rparr>) =
      Inr (sample_tuio\<lparr>fseq := 1, tuio_kind := TUIO_2DCUR\<rparr>, [(''127.0.0.1'', 3333, bytes)])"
    using frame_to_wire [OF eager_settings_ok sample_inv, of "[]", OF _ _ _ _ _ _ _ _ _ _ m(1,2) sample_sendsize] t'(1) m(3) by auto
  then show ?thesis using t' by blast
qed



text \<open>An item that announces a size it does not have, as \<open>moCalibrationModule::transformPoints\<close> makes it of a blob on a vertex (it copies
  \<open>implements\<close>, but of the properties only the position and the id), makes the TUIO 2 module follow a null pointer.\<close>

theorem tuio2_size_missing:
  assumes "cok c" "{''implements'', ''blob_id''} \<subseteq> keys c" "on_wire ''x'' c" "on_wire ''y'' c" "impl_flag ''tracked'' c" "\<not> impl_flag ''node'' c"
    "\<not> impl_flag ''fiducial'' c" "impl_flag ''size'' c" "''width'' \<notin> keys c" "0 \<le> frame t" "frame t < 2147483647" "int32 now"
  shows "tuio2_notifyData now (Some s) (Some s) (Some [c]) t = Inl NullDeref"
proof -
  have k: "''implements'' \<in> keys c" "''blob_id'' \<in> keys c" using assms(2) by auto
  have f: "on_wire n c \<Longrightarrow> add_float_of n c (message_of a args) = Inr (message_of a (args @ [OFloat (float_at n c)]))" for n a args
    using add_float_of_ok assms(1) by (simp add: on_wire_def)
  have "map_of c ''width'' = None" using assms(9) by blast
  then have "add_float_of ''width'' c m = Inl NullDeref" for m by (simp add: add_float_of_def get_double_def cprop_def)
  then have "bnd_message c = Inl NullDeref"
    using assms(3,4) k by (simp add: bnd_message_def message_new_of Add_message add_int_of_ok [OF assms(1)] f)
  moreover have "ptr_message c = Inr (message_of ''/tuio2/ptr'' (ptr_args c))" "get_int ''blob_id'' c = Inr (blob_id c)"
    using assms(1,3,4) k by (simp_all add: ptr_message_def message_new_of Add_message add_int_of_ok [OF assms(1)] f ptr_args_def get_ok(1))
  ultimately show ?thesis using assms(5-8,10-12) in_implements_flag [OF assms(1) k(1)]
    by (simp add: tuio2_notifyData_def tuio2_bundle_def probe_def message_new_of Add_message pack_relations_def chk32_def INT_MIN_def INT_MAX_def Let_def impl_flag_def)
qed

end
